(* ===== verification/Sie_Prelude.thy ===== *)
theory Sie_Prelude
  imports Complex_Main "HOL-Library.Multiset"
begin

text \<open>
  Shared vocabulary of the development: the Python values and errors the components
  exchange, the ordered dictionary (\<^verbatim>\<open>collections.OrderedDict\<close>), stable sorting with a
  key, clamping, and the recency discipline every least-recently-used store of the
  server follows, stated once as the locale \<open>lru_store\<close>.

  Conventions. A Python \<^verbatim>\<open>int\<close> is an \<^typ>\<open>int\<close>. A Python \<^verbatim>\<open>float\<close> is
  a \<^typ>\<open>real\<close>: the rounding of double precision, infinities and NaN are outside the
  model. A raised exception is \<open>Inl\<close> of a value of \<open>py_error\<close>. A reading of
  \<^verbatim>\<open>time.monotonic()\<close> is an argument of the operation that takes it.
\<close>

section \<open>Errors and results\<close>

datatype py_error =
    ValueError string
  | RuntimeError string
  | KeyError string
  | TypeError
  | TimeoutError string
  | AttributeError
  | IndexError
  | OverflowError
  | ZeroDivisionError
  | StopIteration

type_synonym 'a result = "py_error + 'a"

text \<open>Running one fallible step after another.\<close>

definition and_then :: "'e + 'a \<Rightarrow> ('a \<Rightarrow> 'e + 'b) \<Rightarrow> 'e + 'b" where
  "and_then m f = (case m of Inl e \<Rightarrow> Inl e | Inr x \<Rightarrow> f x)"

lemma and_then_Inr [simp]: "and_then (Inr x) f = f x" and and_then_Inl [simp]: "and_then (Inl e) f = Inl e"
  by (simp_all add: and_then_def)

lemma and_then_result [simp]: "and_then m f = Inr y \<longleftrightarrow> (\<exists>x. m = Inr x \<and> f x = Inr y)"
  by (cases m) simp_all

lemma and_then_cong [fundef_cong]:
  "m = m' \<Longrightarrow> (\<And>x. m' = Inr x \<Longrightarrow> f x = g x) \<Longrightarrow> and_then m f = and_then m' g"
  by (cases m') simp_all

named_theorems od_simps \<open>rewrite rules of the ordered dictionary\<close>

section \<open>Numbers\<close>

text \<open>Python's \<^verbatim>\<open>int(x)\<close> on a float truncates towards zero.\<close>

definition py_int :: "real \<Rightarrow> int" where
  "py_int x = (if 0 \<le> x then \<lfloor>x\<rfloor> else \<lceil>x\<rceil>)"

lemma py_int_of_int [simp]: "py_int (real_of_int n) = n"
  by (simp add: py_int_def)

lemma py_int_mono: "x \<le> y \<Longrightarrow> py_int x \<le> py_int y"
proof (cases "0 \<le> x")
  case True
  then show "x \<le> y \<Longrightarrow> py_int x \<le> py_int y"
    by (simp add: py_int_def floor_mono)
next
  case False
  assume "x \<le> y"
  show "py_int x \<le> py_int y"
  proof (cases "0 \<le> y")
    case True
    from False have "\<lceil>x\<rceil> \<le> 0" by (simp add: ceiling_le_zero)
    moreover from True have "0 \<le> \<lfloor>y\<rfloor>" by simp
    ultimately have "\<lceil>x\<rceil> \<le> \<lfloor>y\<rfloor>" by (rule order_trans)
    with True False show ?thesis by (simp add: py_int_def)
  next
    case False
    with \<open>\<not> 0 \<le> x\<close> \<open>x \<le> y\<close> show ?thesis by (simp add: py_int_def ceiling_mono)
  qed
qed

text \<open>\<^verbatim>\<open>max(lo, min(hi, value))\<close>.\<close>

definition clamp :: "'a::linorder \<Rightarrow> 'a \<Rightarrow> 'a \<Rightarrow> 'a" where
  "clamp v lo hi = max lo (min hi v)"

lemma clamp_bounds [simp]: "lo \<le> hi \<Longrightarrow> lo \<le> clamp v lo hi" "lo \<le> hi \<Longrightarrow> clamp v lo hi \<le> hi"
  by (simp_all add: clamp_def)

lemma clamp_id: "lo \<le> v \<Longrightarrow> v \<le> hi \<Longrightarrow> clamp v lo hi = v"
  by (simp add: clamp_def)

lemma py_int_clamp:
  assumes "lo \<le> hi"
  shows "lo \<le> py_int (clamp x (real_of_int lo) (real_of_int hi))"
    and "py_int (clamp x (real_of_int lo) (real_of_int hi)) \<le> hi"
proof -
  have le: "real_of_int lo \<le> real_of_int hi" using assms by simp
  show "lo \<le> py_int (clamp x (real_of_int lo) (real_of_int hi))"
    using py_int_mono [OF clamp_bounds(1) [OF le, of x]] by simp
  show "py_int (clamp x (real_of_int lo) (real_of_int hi)) \<le> hi"
    using py_int_mono [OF clamp_bounds(2) [OF le, of x]] by simp
qed

section \<open>Lists\<close>

text \<open>Indexing with Python's negative indices, and a \<^verbatim>\<open>deque\<close> with a maximal length.\<close>

definition py_nth :: "'a list \<Rightarrow> int \<Rightarrow> 'a result" where
  "py_nth xs i =
     (if 0 \<le> i \<and> i < int (length xs) then Inr (xs ! nat i)
      else if - int (length xs) \<le> i \<and> i < 0 then Inr (xs ! nat (int (length xs) + i))
      else Inl IndexError)"

definition deque_append :: "nat \<Rightarrow> 'a list \<Rightarrow> 'a \<Rightarrow> 'a list" where
  "deque_append maxlen xs x = (let ys = xs @ [x] in drop (length ys - maxlen) ys)"

lemma deque_append_length: "length (deque_append n xs x) \<le> n"
  by (simp add: deque_append_def Let_def)

lemma sum_list_mset_cong:
  fixes f :: "'a \<Rightarrow> int"
  assumes "mset xs = mset ys"
  shows "sum_list (map f xs) = sum_list (map f ys)"
  using assms by (metis mset_map sum_mset_sum_list)

lemma set_mset_cong: "mset xs = mset ys \<Longrightarrow> set xs = set ys"
  by (rule mset_eq_setD)

lemma distinct_map_mset_cong:
  "mset xs = mset ys \<Longrightarrow> distinct (map f xs) = distinct (map f ys)"
  by (metis mset_map mset_eq_imp_distinct_iff)

lemma takeWhile_split:
  "takeWhile P xs @ dropWhile P xs = xs"
  by simp

text \<open>Removing from a list with distinct keys is filtering.\<close>

lemma filter_neq_idle: "k \<notin> set xs \<Longrightarrow> filter (\<lambda>x. x \<noteq> k) xs = xs"
  by (induction xs) auto

lemma remdups_snoc: "remdups (xs @ [k]) = filter (\<lambda>x. x \<noteq> k) (remdups xs) @ [k]"
  by (induction xs) (auto simp: filter_neq_idle)

text \<open>A stable sort leaves a sorted list alone and commutes with filtering.\<close>

lemma sorted_key_idem: "sorted (map f xs) \<Longrightarrow> sort_key f xs = xs"
  by (rule sort_key_id_if_sorted)

lemma insort_key_append_last:
  "\<forall>y \<in> set xs. f y \<le> f x \<Longrightarrow> sorted (map f xs) \<Longrightarrow> sort_key f (xs @ [x]) = xs @ [x]"
  by (rule sort_key_id_if_sorted) (auto simp: sorted_append)

lemma filter_sort_key: "filter P (sort_key f xs) = sort_key f (filter P xs)"
  by (rule filter_sort)

section \<open>Ordered dictionaries\<close>

text \<open>
  \<^verbatim>\<open>OrderedDict\<close> (and the insertion-ordered \<^verbatim>\<open>dict\<close>) as an association list without
  duplicate keys. Storing under an existing key keeps its position; a new key goes to
  the end; \<^verbatim>\<open>move_to_end\<close> and \<^verbatim>\<open>popitem(last=False)\<close> are as documented.
\<close>

type_synonym ('k, 'v) odict = "('k \<times> 'v) list"

definition od_keys :: "('k, 'v) odict \<Rightarrow> 'k list" where
  "od_keys d = map fst d"

definition od_wf :: "('k, 'v) odict \<Rightarrow> bool" where
  "od_wf d = distinct (od_keys d)"

definition od_mem :: "'k \<Rightarrow> ('k, 'v) odict \<Rightarrow> bool" where
  "od_mem k d = (k \<in> set (od_keys d))"

definition od_set :: "'k \<Rightarrow> 'v \<Rightarrow> ('k, 'v) odict \<Rightarrow> ('k, 'v) odict" where
  "od_set k v d =
     (if od_mem k d then map (\<lambda>(k', v'). if k' = k then (k', v) else (k', v')) d
      else d @ [(k, v)])"

definition od_del :: "'k \<Rightarrow> ('k, 'v) odict \<Rightarrow> ('k, 'v) odict" where
  "od_del k d = filter (\<lambda>p. fst p \<noteq> k) d"

definition od_move_to_end :: "'k \<Rightarrow> ('k, 'v) odict \<Rightarrow> ('k, 'v) odict" where
  "od_move_to_end k d =
     (case map_of d k of None \<Rightarrow> d | Some v \<Rightarrow> od_del k d @ [(k, v)])"

definition od_popitem_first :: "('k, 'v) odict \<Rightarrow> ('k, 'v) odict" where
  "od_popitem_first d = tl d"

lemma od_mem_map_of: "od_mem k d \<longleftrightarrow> map_of d k \<noteq> None"
  by (simp add: od_mem_def od_keys_def map_of_eq_None_iff)

lemma od_keys_set [od_simps]:
  "od_keys (od_set k v d) = (if od_mem k d then od_keys d else od_keys d @ [k])"
  by (auto simp: od_set_def od_keys_def comp_def case_prod_beta)

lemma od_keys_del [od_simps]: "od_keys (od_del k d) = filter (\<lambda>x. x \<noteq> k) (od_keys d)"
  by (induction d) (auto simp: od_del_def od_keys_def)

lemma od_keys_move [od_simps]:
  "od_keys (od_move_to_end k d) =
     (if od_mem k d then filter (\<lambda>x. x \<noteq> k) (od_keys d) @ [k] else od_keys d)"
proof (cases "map_of d k")
  case None
  then show ?thesis by (simp add: od_move_to_end_def od_mem_map_of)
next
  case (Some v)
  then have "od_mem k d" by (simp add: od_mem_map_of)
  moreover from Some have "od_move_to_end k d = od_del k d @ [(k, v)]"
    by (simp add: od_move_to_end_def)
  ultimately show ?thesis
    using od_keys_del [of k d] by (simp add: od_keys_def)
qed

lemma od_keys_pop [od_simps]: "od_keys (od_popitem_first d) = tl (od_keys d)"
  by (simp add: od_popitem_first_def od_keys_def map_tl)

lemma map_of_replace:
  "map_of (map (\<lambda>(k', v'). if k' = k then (k', v) else (k', v')) d) x =
     (if x = k \<and> k \<in> set (map fst d) then Some v else map_of d x)"
proof (induction d)
  case Nil
  then show ?case by simp
next
  case (Cons p d)
  obtain a b where "p = (a, b)" by (cases p)
  with Cons show ?case by (auto split: if_splits)
qed

lemma map_of_od_set: "map_of (od_set k v d) x = (if x = k then Some v else map_of d x)"
proof (cases "od_mem k d")
  case True
  then have "od_set k v d = map (\<lambda>(k', v'). if k' = k then (k', v) else (k', v')) d"
    by (simp add: od_set_def)
  moreover from True have "k \<in> set (map fst d)" by (simp add: od_mem_def od_keys_def)
  ultimately show ?thesis using map_of_replace [of k v d x] by simp
next
  case False
  then have "map_of d k = None" by (simp add: od_mem_map_of)
  with False show ?thesis
    by (cases "map_of d x") (auto simp: od_set_def map_add_def)
qed

lemma map_of_od_del: "map_of (od_del k d) x = (if x = k then None else map_of d x)"
  by (induction d) (auto simp: od_del_def)

lemma map_of_od_move: "map_of (od_move_to_end k d) x = map_of d x"
proof (cases "map_of d k")
  case None
  then show ?thesis by (simp add: od_move_to_end_def)
next
  case (Some v)
  then show ?thesis
    by (auto simp: od_move_to_end_def map_of_od_del map_add_def split: option.splits)
qed

lemma od_wf_ops:
  assumes "od_wf d"
  shows "od_wf (od_set k v d)" and "od_wf (od_del k d)"
    and "od_wf (od_move_to_end k d)" and "od_wf (od_popitem_first d)"
  using assms by (auto simp: od_wf_def od_simps od_mem_def distinct_tl)

lemma od_wf_Nil [simp]: "od_wf []"
  by (simp add: od_wf_def od_keys_def)

text \<open>Changing the object stored under a key in place.\<close>

definition od_update :: "'k \<Rightarrow> ('v \<Rightarrow> 'v) \<Rightarrow> ('k, 'v) odict \<Rightarrow> ('k, 'v) odict" where
  "od_update k f d = map (\<lambda>(k', v). if k' = k then (k', f v) else (k', v)) d"

lemma od_keys_update [od_simps]: "od_keys (od_update k f d) = od_keys d"
  by (induction d) (auto simp: od_update_def od_keys_def)

lemma map_of_od_update:
  "map_of (od_update k f d) x = (if x = k then map_option f (map_of d k) else map_of d x)"
  by (induction d) (auto simp: od_update_def)

lemma od_wf_update [od_simps]: "od_wf (od_update k f d) = od_wf d"
  by (simp add: od_wf_def od_simps)

lemma od_update_absent: "k \<notin> fst ` set d \<Longrightarrow> od_update k f d = d"
  by (induction d) (auto simp: od_update_def)

lemma map_od_update_same:
  assumes "\<And>v. g (f v) = g v"
  shows "map (\<lambda>p. g (snd p)) (od_update k f d) = map (\<lambda>p. g (snd p)) d"
  using assms by (induction d) (auto simp: od_update_def)

lemma sum_od_update:
  fixes g :: "'v \<Rightarrow> int"
  assumes "od_wf d" and "map_of d k = Some v"
  shows "sum_list (map (\<lambda>p. g (snd p)) (od_update k f d)) =
    sum_list (map (\<lambda>p. g (snd p)) d) - g v + g (f v)"
  using assms
proof (induction d)
  case Nil
  then show ?case by simp
next
  case (Cons p d)
  obtain k' w where p: "p = (k', w)" by (cases p)
  show ?case
  proof (cases "k' = k")
    case True
    with Cons.prems p have "k \<notin> fst ` set d" "w = v" by (auto simp: od_wf_def od_keys_def)
    with True p od_update_absent [of k d f] show ?thesis by (simp add: od_update_def)
  next
    case False
    with Cons p show ?thesis by (simp add: od_update_def od_wf_def od_keys_def)
  qed
qed

lemma od_set_absent: "\<not> od_mem k d \<Longrightarrow> od_set k v d = d @ [(k, v)]"
  by (simp add: od_set_def)

lemma sum_od_set:
  fixes g :: "'v \<Rightarrow> int"
  assumes "od_wf d"
  shows "sum_list (map (\<lambda>p. g (snd p)) (od_set k v d)) =
    sum_list (map (\<lambda>p. g (snd p)) d) - (case map_of d k of None \<Rightarrow> 0 | Some w \<Rightarrow> g w) + g v"
proof (cases "map_of d k")
  case None
  then show ?thesis by (simp add: od_set_absent od_mem_map_of)
next
  case (Some w)
  then have "od_set k v d = od_update k (\<lambda>_. v) d" by (simp add: od_set_def od_update_def od_mem_map_of)
  with Some sum_od_update [OF assms Some, of g "\<lambda>_. v"] show ?thesis by simp
qed

lemma sum_od_filter:
  fixes g :: "'v \<Rightarrow> int"
  assumes "od_wf d" and "map_of d k = Some v"
  shows "sum_list (map (\<lambda>p. g (snd p)) (filter (\<lambda>p. fst p \<noteq> k) d)) =
    sum_list (map (\<lambda>p. g (snd p)) d) - g v"
  using assms
proof (induction d)
  case Nil
  then show ?case by simp
next
  case (Cons p d)
  obtain k' w where p: "p = (k', w)" by (cases p)
  show ?case
  proof (cases "k' = k")
    case True
    with Cons.prems p have "k \<notin> fst ` set d" "w = v" by (auto simp: od_wf_def od_keys_def)
    then have "filter (\<lambda>p. fst p \<noteq> k) d = d" by (auto intro!: filter_True)
    with True p \<open>w = v\<close> show ?thesis by simp
  next
    case False
    with Cons p show ?thesis by (simp add: od_wf_def od_keys_def)
  qed
qed

lemma od_del_update [od_simps]: "od_del k (od_update k f d) = od_del k d"
  by (induction d) (auto simp: od_del_def od_update_def split: if_splits)

lemma od_del_set [od_simps]: "od_del k (od_set k v d) = od_del k d"
proof (cases "od_mem k d")
  case True
  then have "od_set k v d = od_update k (\<lambda>_. v) d" by (simp add: od_set_def od_update_def)
  then show ?thesis by (simp add: od_del_update)
qed (simp add: od_set_def od_del_def)

text \<open>Writing or refreshing an entry and moving it to the end, the use of a recency list.\<close>

lemma od_set_move: "od_move_to_end k (od_set k v d) = od_del k d @ [(k, v)]"
  by (simp add: od_move_to_end_def map_of_od_set od_simps)

lemma od_update_move:
  "map_of d k = Some v \<Longrightarrow> od_move_to_end k (od_update k f d) = od_del k d @ [(k, f v)]"
  by (simp add: od_move_to_end_def map_of_od_update od_simps)

lemma od_wf_mem: "od_wf d \<Longrightarrow> (k, v) \<in> set d \<longleftrightarrow> map_of d k = Some v"
  by (auto simp: od_wf_def od_keys_def)

lemma od_wf_ball:
  assumes "od_wf d"
  shows "(\<forall>p \<in> set d. P p) \<longleftrightarrow> (\<forall>k v. map_of d k = Some v \<longrightarrow> P (k, v))"
  using od_wf_mem [OF assms] by (metis surj_pair)

lemma od_wf_bex:
  assumes "od_wf d"
  shows "(\<exists>p \<in> set d. P p) \<longleftrightarrow> (\<exists>k v. map_of d k = Some v \<and> P (k, v))"
  using od_wf_mem [OF assms] by (metis surj_pair)

lemma sum_list_ge_member:
  fixes g :: "'a \<Rightarrow> int"
  assumes "x \<in> set xs" and "\<forall>y \<in> set xs. 0 \<le> g y"
  shows "g x \<le> sum_list (map g xs)"
  using assms
proof (induction xs)
  case (Cons a xs)
  then have "0 \<le> sum_list (map g xs)" by (intro sum_list_nonneg) auto
  with Cons show ?case by auto
qed simp

section \<open>Runs of a component\<close>

text \<open>
  A component is driven by a sequence of events; \<open>store_run\<close> applies them in order. The
  contract every component shares is that each event keeps its invariant.
\<close>

primrec store_run :: "('e \<Rightarrow> 's \<Rightarrow> 's) \<Rightarrow> 'e list \<Rightarrow> 's \<Rightarrow> 's" where
  "store_run step [] s = s"
| "store_run step (e # es) s = store_run step es (step e s)"

lemma store_run_append: "store_run step (es @ fs) s = store_run step fs (store_run step es s)"
  by (induction es arbitrary: s) auto

locale step_invariant =
  fixes step :: "'e \<Rightarrow> 's \<Rightarrow> 's"
    and invar :: "'s \<Rightarrow> bool"
  assumes invar_step: "invar s \<Longrightarrow> invar (step e s)"
begin

lemma invar_run: "invar s \<Longrightarrow> invar (store_run step es s)"
  by (induction es arbitrary: s) (auto intro: invar_step)

text \<open>A quantity that no step lets past a bound while the invariant holds stays within it.\<close>

lemma bounded_run:
  assumes "invar s" and "P s"
    and "\<And>e s. invar s \<Longrightarrow> P s \<Longrightarrow> P (step e s)"
  shows "P (store_run step es s)"
  using assms(1,2) by (induction es arbitrary: s) (auto intro: invar_step assms(3))

end

section \<open>Least-recently-used stores\<close>

text \<open>
  A store whose operations either use one key, which moves it to the most recent end of
  the key order (possibly dropping others), or use none and only drop keys. The uses of
  a run, in order, determine the key order: it is the order of the last uses.
\<close>

primrec store_uses ::
    "('e \<Rightarrow> 's \<Rightarrow> 's) \<Rightarrow> ('e \<Rightarrow> 's \<Rightarrow> 'k option) \<Rightarrow> 'e list \<Rightarrow> 's \<Rightarrow> 'k list" where
  "store_uses step used [] s = []"
| "store_uses step used (e # es) s =
     (case used e s of None \<Rightarrow> [] | Some k \<Rightarrow> [k]) @ store_uses step used es (step e s)"

text \<open>\<open>remdups\<close> keeps the last occurrence of every key, so it lists keys by last use.\<close>

definition in_recency_order :: "'k list \<Rightarrow> 'k list \<Rightarrow> bool" where
  "in_recency_order ks hist = (ks = filter (\<lambda>k. k \<in> set ks) (remdups hist))"

lemma in_recency_order_refl: "distinct ks \<Longrightarrow> in_recency_order ks ks"
  by (simp add: in_recency_order_def distinct_remdups_id)

lemma in_recency_order_subset:
  assumes "in_recency_order ks hist" and "ks' = filter (\<lambda>x. x \<in> set ks') ks"
  shows "in_recency_order ks' hist"
proof -
  have sub: "set ks' \<subseteq> set ks"
    by (subst assms(2)) auto
  have "filter (\<lambda>x. x \<in> set ks') (remdups hist)
      = filter (\<lambda>x. x \<in> set ks') (filter (\<lambda>x. x \<in> set ks) (remdups hist))"
    using sub by (auto intro!: filter_cong)
  also have "\<dots> = filter (\<lambda>x. x \<in> set ks') ks"
    using assms(1) by (simp add: in_recency_order_def)
  finally show ?thesis
    using assms(2) by (simp add: in_recency_order_def)
qed

lemma in_recency_order_use:
  assumes "in_recency_order ks hist"
    and "ks' = filter (\<lambda>x. x \<in> set ks') (filter (\<lambda>x. x \<noteq> k) ks @ [k])"
  shows "in_recency_order ks' (hist @ [k])"
proof -
  let ?ks = "filter (\<lambda>x. x \<noteq> k) ks @ [k]"
  have "filter (\<lambda>x. x \<in> set ?ks) (filter (\<lambda>x. x \<noteq> k) (remdups hist))
      = filter (\<lambda>x. x \<noteq> k) (filter (\<lambda>x. x \<in> set ks) (remdups hist))"
    unfolding filter_filter by (rule filter_cong) auto
  also have "\<dots> = filter (\<lambda>x. x \<noteq> k) ks"
    using assms(1) by (simp add: in_recency_order_def)
  finally have "in_recency_order ?ks (hist @ [k])"
    by (simp add: in_recency_order_def remdups_snoc)
  then show ?thesis
    by (rule in_recency_order_subset) (rule assms(2))
qed

locale lru_store = step_invariant step invar
  for step :: "'e \<Rightarrow> 's \<Rightarrow> 's" and invar :: "'s \<Rightarrow> bool" +
  fixes keys :: "'s \<Rightarrow> 'k list"
    and used :: "'e \<Rightarrow> 's \<Rightarrow> 'k option"
  assumes distinct_keys: "invar s \<Longrightarrow> distinct (keys s)"
    and step_used: "invar s \<Longrightarrow> used e s = Some k \<Longrightarrow>
      keys (step e s) = filter (\<lambda>x. x \<in> set (keys (step e s))) (filter (\<lambda>x. x \<noteq> k) (keys s) @ [k])"
    and step_unused: "invar s \<Longrightarrow> used e s = None \<Longrightarrow>
      keys (step e s) = filter (\<lambda>x. x \<in> set (keys (step e s))) (keys s)"
begin

lemma recency_run_gen:
  assumes "invar s" and "in_recency_order (keys s) hist"
  shows "in_recency_order (keys (store_run step es s)) (hist @ store_uses step used es s)"
  using assms
proof (induction es arbitrary: s hist)
  case Nil
  then show ?case by simp
next
  case (Cons e es)
  have inv: "invar (step e s)" using Cons.prems(1) by (rule invar_step)
  show ?case
  proof (cases "used e s")
    case None
    have "in_recency_order (keys (step e s)) hist"
      using Cons.prems(2) step_unused [OF Cons.prems(1) None] by (rule in_recency_order_subset)
    with Cons.IH [OF inv] None show ?thesis by simp
  next
    case (Some k)
    have "in_recency_order (keys (step e s)) (hist @ [k])"
      using Cons.prems(2) step_used [OF Cons.prems(1) Some] by (rule in_recency_order_use)
    with Cons.IH [OF inv] Some show ?thesis by fastforce
  qed
qed

text \<open>After any run the resident keys stand in the order of their last use.\<close>

lemma recency_run:
  assumes "invar s"
  shows "in_recency_order (keys (store_run step es s)) (keys s @ store_uses step used es s)"
  using assms by (intro recency_run_gen in_recency_order_refl distinct_keys)

end

end
