(* ===== verification/Batcher.thy ===== *)
theory Batcher
  imports Sie_Prelude "HOL-Library.Product_Lexorder"
begin

text \<open>
  Dynamic batch formation: \<^verbatim>\<open>core/batcher.py\<close> (and the prepared items of
  \<^verbatim>\<open>core/prepared.py\<close> it queues). Every critical section of \<^verbatim>\<open>BatchFormer\<close> is free of
  \<^verbatim>\<open>await\<close>, so each method is one atomic function from state to state; a method reads
  the clock once, as the argument \<open>now\<close>. \<^verbatim>\<open>id(request)\<close> is the field \<open>oid\<close>, drawn
  from the counter \<open>next_oid\<close>. Log lines are not modelled.
\<close>

section \<open>Data\<close>

record 'p prepared_item =
  payload :: 'p
  cost :: int
  original_index :: int
  item_runs_alone :: bool

record ('p, 'm) pending_request =
  oid :: nat
  item :: "'p prepared_item"
  metadata :: 'm
  arrival_time :: real
  runs_alone :: bool

record ('p, 'm) formatted_batch =
  batch_items :: "'p prepared_item list"
  batch_metadata :: "'m list"
  total_cost :: int

definition batch_size :: "('p, 'm) formatted_batch \<Rightarrow> nat" where
  "batch_size b = length (batch_items b)"

definition sorted_by_cost :: "('p, 'm) formatted_batch \<Rightarrow> ('p, 'm) formatted_batch result" where
  "sorted_by_cost b =
     (if length (batch_items b) \<noteq> length (batch_metadata b)
      then Inl (ValueError ''zip() argument lengths differ'')
      else let pairs = sort_key (\<lambda>p. cost (fst p)) (zip (batch_items b) (batch_metadata b))
           in Inr (b\<lparr>batch_items := map fst pairs, batch_metadata := map snd pairs\<rparr>))"

record batch_config =
  max_batch_cost :: int
  max_batch_requests :: int
  max_batch_wait_ms :: real
  coalesce_ms :: real
  coalesce_ratio :: real

definition make_batch_config ::
    "int \<Rightarrow> int \<Rightarrow> real \<Rightarrow> int option \<Rightarrow> real \<Rightarrow> real \<Rightarrow> batch_config" where
  "make_batch_config mcost mreq mwait mtokens cms cratio =
     \<lparr>max_batch_cost = (case mtokens of Some t \<Rightarrow> t | None \<Rightarrow> mcost),
      max_batch_requests = mreq, max_batch_wait_ms = mwait,
      coalesce_ms = cms, coalesce_ratio = cratio\<rparr>"

definition default_batch_config :: batch_config where
  "default_batch_config = make_batch_config 16384 64 15 None 15 (1 / 2)"

definition effective_coalesce_ms :: "batch_config \<Rightarrow> real" where
  "effective_coalesce_ms c = min (coalesce_ms c) (max_batch_wait_ms c * coalesce_ratio c)"

section \<open>The batch former\<close>

record ('p, 'm) batch_former =
  config :: batch_config
  pending :: "('p, 'm) pending_request list"
  pending_cost :: int
  batch_ready :: bool
  first_request_time :: "real option"
  last_submit_time :: "real option"
  last_batch_alone :: "bool option"
  next_oid :: nat

definition new_batch_former :: "batch_config option \<Rightarrow> ('p, 'm) batch_former" where
  "new_batch_former c =
     \<lparr>config = (case c of Some c \<Rightarrow> c | None \<Rightarrow> default_batch_config),
      pending = [], pending_cost = 0, batch_ready = False,
      first_request_time = None, last_submit_time = None,
      last_batch_alone = None, next_oid = 0\<rparr>"

definition pending_count :: "('p, 'm, 'z) batch_former_scheme \<Rightarrow> nat" where
  "pending_count s = length (pending s)"

subsection \<open>When a batch is due\<close>

definition batch_is_full :: "('p, 'm, 'z) batch_former_scheme \<Rightarrow> bool" where
  "batch_is_full s =
     (max_batch_cost (config s) \<le> pending_cost s \<or>
      max_batch_requests (config s) \<le> int (length (pending s)))"

definition batch_timeout_expired :: "real \<Rightarrow> ('p, 'm, 'z) batch_former_scheme \<Rightarrow> bool" where
  "batch_timeout_expired now s =
     (case first_request_time s of
        None \<Rightarrow> False
      | Some t \<Rightarrow> max_batch_wait_ms (config s) \<le> (now - t) * 1000)"

definition capped_coalesce_ms ::
    "real option \<Rightarrow> ('p, 'm, 'z) batch_former_scheme \<Rightarrow> real" where
  "capped_coalesce_ms cap s =
     (let effective = effective_coalesce_ms (config s)
      in case cap of None \<Rightarrow> effective | Some c \<Rightarrow> min effective c)"

definition coalesce_expired ::
    "real option \<Rightarrow> real \<Rightarrow> ('p, 'm, 'z) batch_former_scheme \<Rightarrow> bool" where
  "coalesce_expired cap now s =
     (case last_submit_time s of
        None \<Rightarrow> False
      | Some t \<Rightarrow> pending s \<noteq> [] \<and> capped_coalesce_ms cap s \<le> (now - t) * 1000)"

definition should_yield_batch ::
    "real option \<Rightarrow> real \<Rightarrow> ('p, 'm, 'z) batch_former_scheme \<Rightarrow> bool" where
  "should_yield_batch cap now s =
     (pending s \<noteq> [] \<and>
      (batch_is_full s \<or> batch_timeout_expired now s \<or> coalesce_expired cap now s))"

definition get_wait_timeout ::
    "real option \<Rightarrow> real \<Rightarrow> ('p, 'm, 'z) batch_former_scheme \<Rightarrow> real option" where
  "get_wait_timeout cap now s =
     (case first_request_time s of
        None \<Rightarrow> None
      | Some t0 \<Rightarrow>
          (let batch_remaining_ms = max 0 (max_batch_wait_ms (config s) - (now - t0) * 1000);
               c_ms = capped_coalesce_ms cap s;
               coalesce_remaining_ms =
                 (case last_submit_time s of
                    Some t1 \<Rightarrow> max 0 (c_ms - (now - t1) * 1000)
                  | None \<Rightarrow> c_ms)
           in Some (min batch_remaining_ms coalesce_remaining_ms / 1000)))"

subsection \<open>Submitting\<close>

text \<open>\<open>arr\<close> is the clock reading of the new request, \<open>now\<close> the one after it.\<close>

definition append_item ::
    "'p prepared_item \<Rightarrow> 'm \<Rightarrow> real \<Rightarrow> real \<Rightarrow>
     ('p, 'm, 'z) batch_former_scheme \<Rightarrow> ('p, 'm, 'z) batch_former_scheme" where
  "append_item it md arr now s =
     (let request = \<lparr>oid = next_oid s, item = it, metadata = md, arrival_time = arr,
                     runs_alone = item_runs_alone it\<rparr>;
          is_first_request = (first_request_time s = None);
          s1 = s\<lparr>pending := pending s @ [request],
                 pending_cost := pending_cost s + cost it,
                 last_submit_time := Some now,
                 first_request_time :=
                   (if is_first_request then Some now else first_request_time s),
                 next_oid := Suc (next_oid s)\<rparr>
      in if should_yield_batch None now s1 \<or> is_first_request
         then s1\<lparr>batch_ready := True\<rparr> else s1)"

type_synonym ('p, 'm) submission = "'p prepared_item \<times> 'm \<times> real \<times> real"

fun submit_many ::
    "('p, 'm) submission list \<Rightarrow> ('p, 'm, 'z) batch_former_scheme \<Rightarrow> ('p, 'm, 'z) batch_former_scheme"
where
  "submit_many [] s = s"
| "submit_many ((it, md, arr, now) # subs) s = submit_many subs (append_item it md arr now s)"

subsection \<open>Extracting a batch\<close>

definition lane_key :: "('p, 'm) pending_request \<Rightarrow> bool \<times> real" where
  "lane_key r =
     (runs_alone r, if runs_alone r then arrival_time r else real_of_int (cost (item r)))"

text \<open>Called only while some pending request is flagged, so \<open>head_index\<close> is in range.\<close>

definition order_runs_alone_lane ::
    "bool option \<Rightarrow> ('p, 'm) pending_request list \<Rightarrow> ('p, 'm) pending_request list" where
  "order_runs_alone_lane last_alone reqs =
     (let p = sort_key lane_key reqs;
          head_index = length (takeWhile (\<lambda>r. \<not> runs_alone r) p)
      in if head_index = 0 then p
         else let alone_turn =
                (case last_alone of
                   None \<Rightarrow> runs_alone (arg_min_list arrival_time p)
                 | Some b \<Rightarrow> \<not> b)
              in if alone_turn
                 then (p ! head_index) # (take head_index p @ drop (Suc head_index) p)
                 else p)"

definition order_pending ::
    "bool option \<Rightarrow> ('p, 'm) pending_request list \<Rightarrow> ('p, 'm) pending_request list" where
  "order_pending last_alone reqs =
     (if \<exists>r \<in> set reqs. runs_alone r then order_runs_alone_lane last_alone reqs
      else sort_key (\<lambda>r. cost (item r)) reqs)"

text \<open>The loop that takes requests: \<open>n\<close> is \<^verbatim>\<open>take_count\<close>, \<open>c\<close> is \<^verbatim>\<open>batch_cost\<close>.\<close>

fun greedy_take ::
    "batch_config \<Rightarrow> int option \<Rightarrow> int \<Rightarrow> int \<Rightarrow> ('p, 'm) pending_request list \<Rightarrow>
     ('p, 'm) pending_request list" where
  "greedy_take cfg max_items n c [] = []"
| "greedy_take cfg max_items n c (r # rs) =
     (if (case max_items of None \<Rightarrow> False | Some k \<Rightarrow> k \<le> n) then []
      else if runs_alone r \<and> 0 < n then []
      else if max_batch_cost cfg < c + cost (item r) \<and> 0 < n then []
      else if runs_alone r then [r]
      else if max_batch_requests cfg \<le> n + 1 then [r]
      else r # greedy_take cfg max_items (n + 1) (c + cost (item r)) rs)"

abbreviation requests_cost :: "('p, 'm) pending_request list \<Rightarrow> int" where
  "requests_cost rs \<equiv> sum_list (map (\<lambda>r. cost (item r)) rs)"

definition batch_of :: "('p, 'm) pending_request list \<Rightarrow> ('p, 'm) formatted_batch" where
  "batch_of rs =
     \<lparr>batch_items = map item rs, batch_metadata = map metadata rs,
      total_cost = requests_cost rs\<rparr>"

text \<open>The requests the next extraction takes, and the queue it takes them from.\<close>

definition select_batch ::
    "int option \<Rightarrow> ('p, 'm, 'z) batch_former_scheme \<Rightarrow>
     ('p, 'm) pending_request list \<times> ('p, 'm) pending_request list" where
  "select_batch max_items s =
     (let p = order_pending (last_batch_alone s) (pending s);
          taken = greedy_take (config s) max_items 0 0 p
      in (taken, drop (length taken) p))"

definition extract_batch ::
    "int option \<Rightarrow> ('p, 'm, 'z) batch_former_scheme \<Rightarrow>
     ('p, 'm) formatted_batch \<times> ('p, 'm, 'z) batch_former_scheme" where
  "extract_batch max_items s =
     (let (taken, rest) = select_batch max_items s;
          s1 = s\<lparr>pending := rest,
                 pending_cost := pending_cost s - requests_cost taken,
                 last_batch_alone :=
                   (if taken = [] then last_batch_alone s else Some (runs_alone (hd taken)))\<rparr>;
          s2 = (if rest = [] then s1\<lparr>first_request_time := None, last_submit_time := None\<rparr>
                else s1)
      in (batch_of taken, s2))"

definition try_get_batch ::
    "real \<Rightarrow> ('p, 'm, 'z) batch_former_scheme \<Rightarrow>
     ('p, 'm) formatted_batch option \<times> ('p, 'm, 'z) batch_former_scheme" where
  "try_get_batch now s =
     (if should_yield_batch None now s
      then let (b, s') = extract_batch None s in (Some b, s')
      else (None, s))"

definition drain_pending ::
    "('p, 'm, 'z) batch_former_scheme \<Rightarrow> 'm list \<times> ('p, 'm, 'z) batch_former_scheme" where
  "drain_pending s =
     (map metadata (pending s),
      s\<lparr>pending := [], pending_cost := 0, first_request_time := None, last_submit_time := None\<rparr>)"

definition try_drain ::
    "int option \<Rightarrow> ('p, 'm, 'z) batch_former_scheme \<Rightarrow>
     ('p, 'm) formatted_batch option \<times> ('p, 'm, 'z) batch_former_scheme" where
  "try_drain max_items s =
     (if pending s = [] then (None, s)
      else let (b, s') = extract_batch max_items s in (Some b, s'))"

text \<open>
  \<^verbatim>\<open>get_batch\<close> loops: it takes the lock and extracts if a batch is due, otherwise it
  waits for the ready event or the timeout and clears the event. The list argument is
  what happens outside: one entry per wait, the submissions that run during it and the
  time at which the wait ends. \<open>None\<close> means the call is still waiting at the end of
  the list.
\<close>

fun get_batch ::
    "bool \<Rightarrow> real option \<Rightarrow> real \<Rightarrow> (('p, 'm) submission list \<times> real) list \<Rightarrow>
     ('p, 'm, 'z) batch_former_scheme \<Rightarrow>
     ('p, 'm) formatted_batch option \<times> ('p, 'm, 'z) batch_former_scheme" where
  "get_batch immediate cap now waits s =
     (if should_yield_batch cap now s \<or> (immediate \<and> pending s \<noteq> [])
      then let (b, s') = extract_batch None s in (Some b, s')
      else case waits of
             [] \<Rightarrow> (None, s)
           | (subs, t) # waits' \<Rightarrow>
               get_batch immediate cap t waits' ((submit_many subs s)\<lparr>batch_ready := False\<rparr>))"

declare get_batch.simps [simp del]

subsection \<open>Collating token sequences\<close>

record text_payload =
  input_ids :: "int list"
  attention_mask :: "int list"

definition token_count :: "text_payload \<Rightarrow> nat" where
  "token_count p = length (input_ids p)"

definition pad_row :: "nat \<Rightarrow> nat \<Rightarrow> int \<Rightarrow> int list \<Rightarrow> int list" where
  "pad_row max_length n pad xs = xs @ replicate (max_length - n) pad"

definition collate_batch :: "text_payload list \<Rightarrow> int \<Rightarrow> int list list \<times> int list list" where
  "collate_batch payloads pad_token_id =
     (if payloads = [] then ([], [])
      else let max_length = Max (set (map token_count payloads))
           in (map (\<lambda>p. pad_row max_length (token_count p) pad_token_id (input_ids p)) payloads,
               map (\<lambda>p. pad_row max_length (token_count p) 0 (attention_mask p)) payloads))"

section \<open>Ordering and taking\<close>

named_theorems batch_defs \<open>definitions of the batch former's operations\<close>

declare select_batch_def [batch_defs] extract_batch_def [batch_defs] batch_of_def [batch_defs]

text \<open>The move of one element to the front of a list.\<close>

lemma mset_move_front:
  "i < length xs \<Longrightarrow> mset ((xs ! i) # (take i xs @ drop (Suc i) xs)) = mset xs"
  by (metis add_mset_add_single mset.simps(2) id_take_nth_drop mset_append union_mset_add_mset_right)

lemma head_index_in_range:
  "\<exists>r \<in> set xs. runs_alone r \<Longrightarrow> length (takeWhile (\<lambda>r. \<not> runs_alone r) xs) < length xs"
  by (induction xs) auto

lemma mset_order_pending [simp]: "mset (order_pending l reqs) = mset reqs"
proof (cases "\<exists>r \<in> set reqs. runs_alone r")
  case True
  let ?p = "sort_key lane_key reqs"
  let ?i = "length (takeWhile (\<lambda>r. \<not> runs_alone r) ?p)"
  from True have "\<exists>r \<in> set ?p. runs_alone r" by simp
  then have "?i < length ?p" by (rule head_index_in_range)
  then have "mset ((?p ! ?i) # (take ?i ?p @ drop (Suc ?i) ?p)) = mset ?p"
    by (rule mset_move_front)
  with True show ?thesis
    by (simp add: order_pending_def order_runs_alone_lane_def Let_def)
next
  case False
  then show ?thesis by (simp add: order_pending_def)
qed

lemma set_order_pending [simp]: "set (order_pending l reqs) = set reqs"
  by (rule set_mset_cong) simp

lemma length_order_pending [simp]: "length (order_pending l reqs) = length reqs"
  by (rule mset_eq_length) simp

lemma order_pending_Nil [simp]: "order_pending l [] = []"
  by (simp add: order_pending_def)

lemma greedy_take_prefix:
  "\<exists>rest. rs = greedy_take cfg mx n c rs @ rest"
  by (induction cfg mx n c rs rule: greedy_take.induct) (auto split: option.splits)

lemma greedy_take_append_drop:
  "greedy_take cfg mx n c rs @ drop (length (greedy_take cfg mx n c rs)) rs = rs"
  by (metis greedy_take_prefix append_eq_conv_conj)

lemma greedy_take_take:
  "greedy_take cfg mx n c rs = take (length (greedy_take cfg mx n c rs)) rs"
  by (metis greedy_take_append_drop append_eq_conv_conj)

lemma greedy_take_nonempty:
  assumes "rs \<noteq> []" and "\<And>k. mx = Some k \<Longrightarrow> 0 < k"
  shows "greedy_take cfg mx 0 0 rs \<noteq> []"
  using assms by (cases rs) (auto split: option.splits)

text \<open>Bounds: past the first request, neither the cost nor the request limit is exceeded.\<close>

lemma greedy_take_cost:
  "0 < n \<Longrightarrow> greedy_take cfg mx n c rs \<noteq> [] \<Longrightarrow>
   c + requests_cost (greedy_take cfg mx n c rs) \<le> max_batch_cost cfg"
proof (induction cfg mx n c rs rule: greedy_take.induct)
  case (1 cfg mx n c)
  then show ?case by simp
next
  case (2 cfg mx n c r rs)
  let ?tl = "greedy_take cfg mx (n + 1) (c + cost (item r)) rs"
  show ?case
  proof (cases "?tl = []")
    case True
    with 2 show ?thesis by (auto split: if_splits option.splits)
  next
    case False
    show ?thesis
    proof (cases "runs_alone r \<or> max_batch_requests cfg \<le> n + 1")
      case True
      with 2 show ?thesis by (auto split: if_splits option.splits)
    next
      case norm: False
      from 2 have step: "\<not> (case mx of None \<Rightarrow> False | Some k \<Rightarrow> k \<le> n)"
        "\<not> (runs_alone r \<and> 0 < n)" "\<not> (max_batch_cost cfg < c + cost (item r) \<and> 0 < n)"
        by (auto split: if_splits)
      have "c + cost (item r) + requests_cost ?tl \<le> max_batch_cost cfg"
        using 2(1) step norm False 2(2) by simp
      with step norm show ?thesis by auto
    qed
  qed
qed

lemma greedy_take_count:
  "0 \<le> n \<Longrightarrow> int (length (greedy_take cfg mx n c rs)) \<le> max 1 (max_batch_requests cfg - n)"
proof (induction cfg mx n c rs rule: greedy_take.induct)
  case (1 cfg mx n c)
  then show ?case by simp
next
  case (2 cfg mx n c r rs)
  then show ?case by (cases "max_batch_requests cfg \<le> n + 1") (auto split: if_splits)
qed

lemma greedy_take_cap:
  "mx = Some k \<Longrightarrow> int (length (greedy_take cfg mx n c rs)) \<le> max 0 (k - n)"
proof (induction cfg mx n c rs rule: greedy_take.induct)
  case (1 cfg mx n c)
  then show ?case by simp
next
  case (2 cfg mx n c r rs)
  then show ?case by (cases "k \<le> n") (auto split: if_splits)
qed

lemma greedy_take_later_batchable:
  "0 < n \<Longrightarrow> r \<in> set (greedy_take cfg mx n c rs) \<Longrightarrow> \<not> runs_alone r"
  by (induction cfg mx n c rs rule: greedy_take.induct) (auto split: if_splits option.splits)

lemma greedy_take_Cons:
  assumes "greedy_take cfg mx 0 0 rs = t # ts"
  shows "\<exists>rs'. rs = t # rs' \<and>
    (if runs_alone t \<or> max_batch_requests cfg \<le> 1 then ts = []
     else ts = greedy_take cfg mx 1 (cost (item t)) rs')"
  using assms by (cases rs) (auto split: if_splits option.splits)

text \<open>A flagged request never shares a batch.\<close>

lemma greedy_take_alone:
  assumes "r \<in> set (greedy_take cfg mx 0 0 rs)" and "runs_alone r"
  shows "greedy_take cfg mx 0 0 rs = [r]"
proof -
  from assms(1) obtain t ts where tts: "greedy_take cfg mx 0 0 rs = t # ts"
    by (cases "greedy_take cfg mx 0 0 rs") auto
  from greedy_take_Cons [OF tts] obtain rs' where
    ts: "if runs_alone t \<or> max_batch_requests cfg \<le> 1 then ts = []
         else ts = greedy_take cfg mx 1 (cost (item t)) rs'" by blast
  show ?thesis
  proof (cases "r \<in> set ts")
    case True
    with ts have "r \<in> set (greedy_take cfg mx 1 (cost (item t)) rs')"
      by (auto split: if_splits)
    with assms(2) show ?thesis using greedy_take_later_batchable [of 1] by fastforce
  next
    case False
    with assms tts have "r = t" by simp
    with ts assms(2) tts show ?thesis by simp
  qed
qed

lemma greedy_take_cost_bound:
  assumes "greedy_take cfg mx 0 0 rs = ts"
  shows "length ts \<le> 1 \<or> requests_cost ts \<le> max_batch_cost cfg"
proof (cases ts)
  case Nil
  then show ?thesis by simp
next
  case (Cons t ts')
  with assms greedy_take_Cons [of cfg mx rs t ts'] obtain rs' where
    "if runs_alone t \<or> max_batch_requests cfg \<le> 1 then ts' = []
     else ts' = greedy_take cfg mx 1 (cost (item t)) rs'" by auto
  then show ?thesis
    using greedy_take_cost [of 1 cfg mx "cost (item t)" rs'] Cons
    by (cases "ts' = []") (auto split: if_splits)
qed

section \<open>The contract of a batch former\<close>

text \<open>
  What the model worker relies on, shared by \<^verbatim>\<open>BatchFormer\<close> and its subclass
  \<^verbatim>\<open>ProgressBatchFormer\<close>: a submission is appended, an extraction hands out a part of
  the pending requests as a batch within the configured limits, and hands out something
  whenever it may.
\<close>

definition batch_pairs :: "('p, 'm) formatted_batch \<Rightarrow> ('p prepared_item \<times> 'm) list" where
  "batch_pairs b = zip (batch_items b) (batch_metadata b)"

abbreviation request_pairs :: "('p, 'm) pending_request list \<Rightarrow> ('p prepared_item \<times> 'm) list" where
  "request_pairs rs \<equiv> map (\<lambda>r. (item r, metadata r)) rs"

definition within_limits :: "batch_config \<Rightarrow> ('p, 'm) formatted_batch \<Rightarrow> bool" where
  "within_limits cfg b =
     ((batch_size b \<le> 1 \<or> total_cost b \<le> max_batch_cost cfg) \<and>
      int (batch_size b) \<le> max 1 (max_batch_requests cfg) \<and>
      ((\<exists>it \<in> set (batch_items b). item_runs_alone it) \<longrightarrow> batch_size b = 1) \<and>
      total_cost b = sum_list (map cost (batch_items b)))"

datatype ('p, 'm) former_event =
    Submit "'p prepared_item" 'm real real
  | Extract "int option"

primrec former_run ::
    "('p prepared_item \<Rightarrow> 'm \<Rightarrow> real \<Rightarrow> real \<Rightarrow> 's \<Rightarrow> 's) \<Rightarrow>
     (int option \<Rightarrow> 's \<Rightarrow> ('p, 'm) formatted_batch \<times> 's) \<Rightarrow>
     ('p, 'm) former_event list \<Rightarrow> 's \<Rightarrow> ('p, 'm) formatted_batch list \<times> 's" where
  "former_run submit take_batch [] s = ([], s)"
| "former_run submit take_batch (e # es) s =
     (case e of
        Submit it md arr now \<Rightarrow> former_run submit take_batch es (submit it md arr now s)
      | Extract mx \<Rightarrow>
          (let (b, s1) = take_batch mx s; (bs, s2) = former_run submit take_batch es s1
           in (b # bs, s2)))"

primrec submitted :: "('p, 'm) former_event list \<Rightarrow> ('p prepared_item \<times> 'm) list" where
  "submitted [] = []"
| "submitted (e # es) =
     (case e of Submit it md arr now \<Rightarrow> [(it, md)] | Extract mx \<Rightarrow> []) @ submitted es"

lemma batch_pairs_batch_of [simp]: "batch_pairs (batch_of rs) = request_pairs rs"
  by (simp add: batch_pairs_def batch_of_def zip_map_map zip_same_conv_map)

locale batch_queue =
  fixes pend :: "'s \<Rightarrow> ('p, 'm) pending_request list"
    and cfg :: "'s \<Rightarrow> batch_config"
    and submit :: "'p prepared_item \<Rightarrow> 'm \<Rightarrow> real \<Rightarrow> real \<Rightarrow> 's \<Rightarrow> 's"
    and take_batch :: "int option \<Rightarrow> 's \<Rightarrow> ('p, 'm) formatted_batch \<times> 's"
    and invar :: "'s \<Rightarrow> bool"
  assumes invar_submit: "invar s \<Longrightarrow> invar (submit it md arr now s)"
    and invar_extract: "invar s \<Longrightarrow> invar (snd (take_batch mx s))"
    and cfg_submit: "cfg (submit it md arr now s) = cfg s"
    and cfg_extract: "cfg (snd (take_batch mx s)) = cfg s"
    and submit_appends: "\<exists>r. pend (submit it md arr now s) = pend s @ [r] \<and>
      item r = it \<and> metadata r = md"
    and extract_splits: "invar s \<Longrightarrow> \<exists>ts. fst (take_batch mx s) = batch_of ts \<and>
      mset (pend s) = mset ts + mset (pend (snd (take_batch mx s)))"
    and extract_limits: "invar s \<Longrightarrow> within_limits (cfg s) (fst (take_batch mx s))"
    and extract_progress: "invar s \<Longrightarrow> pend s \<noteq> [] \<Longrightarrow> (\<And>k. mx = Some k \<Longrightarrow> 0 < k) \<Longrightarrow>
      batch_items (fst (take_batch mx s)) \<noteq> []"
begin

lemma invar_run: "invar s \<Longrightarrow> invar (snd (former_run submit take_batch es s))"
proof (induction es arbitrary: s)
  case (Cons e es)
  then show ?case
    using invar_submit invar_extract
    by (cases e) (fastforce simp: split_beta Let_def)+
qed simp

text \<open>Every submitted pair is delivered in exactly one batch or is still pending.\<close>

lemma exactly_once:
  assumes "invar s" and "former_run submit take_batch es s = (bs, s')"
  shows "mset (request_pairs (pend s)) + mset (submitted es) =
    mset (concat (map batch_pairs bs)) + mset (request_pairs (pend s'))"
  using assms
proof (induction es arbitrary: s bs)
  case Nil
  then show ?case by simp
next
  case (Cons e es)
  show ?case
  proof (cases e)
    case (Submit it md arr now)
    obtain r where r: "pend (submit it md arr now s) = pend s @ [r]" "item r = it" "metadata r = md"
      using submit_appends [of it md arr now s] by blast
    have "former_run submit take_batch es (submit it md arr now s) = (bs, s')"
      using Cons.prems(2) Submit by simp
    from Cons.IH [OF invar_submit [OF Cons.prems(1)] this] r Submit show ?thesis by simp
  next
    case (Extract mx)
    obtain b s1 where b: "take_batch mx s = (b, s1)" by fastforce
    obtain bs1 where run: "former_run submit take_batch es s1 = (bs1, s')" "bs = b # bs1"
      using Cons.prems(2) Extract b by (auto simp: Let_def split: prod.splits)
    obtain ts where ts: "b = batch_of ts" "mset (pend s) = mset ts + mset (pend s1)"
      using extract_splits [OF Cons.prems(1), of mx] b by auto
    have inv: "invar s1" using invar_extract [OF Cons.prems(1), of mx] b by simp
    have "mset (request_pairs (pend s)) = mset (request_pairs ts) + mset (request_pairs (pend s1))"
      using ts(2) by (metis image_mset_union mset_map)
    with Cons.IH [OF inv run(1)] run(2) ts(1) Extract show ?thesis by simp
  qed
qed

text \<open>Every batch of a run is within the configured limits.\<close>

lemma run_within_limits:
  assumes "invar s" and "b \<in> set (fst (former_run submit take_batch es s))"
  shows "within_limits (cfg s) b"
  using assms
proof (induction es arbitrary: s)
  case Nil
  then show ?case by simp
next
  case (Cons e es)
  show ?case
  proof (cases e)
    case (Submit it md arr now)
    with Cons.prems(2) have "b \<in> set (fst (former_run submit take_batch es (submit it md arr now s)))"
      by simp
    from Cons.IH [OF invar_submit [OF Cons.prems(1)] this] show ?thesis
      by (simp add: cfg_submit)
  next
    case (Extract mx)
    with Cons.prems(2) have "b = fst (take_batch mx s) \<or>
      b \<in> set (fst (former_run submit take_batch es (snd (take_batch mx s))))"
      by (auto simp: split_beta Let_def)
    then show ?thesis
    proof
      assume "b = fst (take_batch mx s)"
      with extract_limits [OF Cons.prems(1)] show ?thesis by simp
    next
      assume "b \<in> set (fst (former_run submit take_batch es (snd (take_batch mx s))))"
      from Cons.IH [OF invar_extract [OF Cons.prems(1)] this] show ?thesis
        by (simp add: cfg_extract)
    qed
  qed
qed

text \<open>As many extractions as there are pending requests empty the queue.\<close>

lemma drained_gen:
  assumes "invar s" and "length (pend s) \<le> n"
  shows "pend (((\<lambda>s. snd (take_batch None s)) ^^ n) s) = []"
  using assms
proof (induction n arbitrary: s)
  case 0
  then show ?case by simp
next
  case (Suc n)
  let ?s1 = "snd (take_batch None s)"
  obtain ts where ts: "fst (take_batch None s) = batch_of ts"
    "mset (pend s) = mset ts + mset (pend ?s1)"
    using extract_splits [OF Suc.prems(1), of None] by auto
  have len: "length (pend s) = length ts + length (pend ?s1)"
    using ts(2) by (metis size_mset size_union)
  have "length (pend ?s1) \<le> n"
  proof (cases "pend s = []")
    case True
    with len show ?thesis by simp
  next
    case False
    then have "batch_items (fst (take_batch None s)) \<noteq> []"
      using extract_progress [OF Suc.prems(1), of None] by simp
    with ts(1) have "ts \<noteq> []" by (auto simp: batch_of_def)
    with len Suc.prems(2) show ?thesis by (cases ts) auto
  qed
  from Suc.IH [OF invar_extract [OF Suc.prems(1)] this] show ?case
    by (simp only: funpow_Suc_right comp_def)
qed

lemmas drained = drained_gen [OF _ order_refl]

end

section \<open>The invariant of a batch former\<close>

definition bf_inv :: "('p, 'm, 'z) batch_former_scheme \<Rightarrow> bool" where
  "bf_inv s =
     (pending_cost s = requests_cost (pending s) \<and>
      (first_request_time s = None \<longleftrightarrow> pending s = []) \<and>
      (last_submit_time s = None \<longleftrightarrow> pending s = []) \<and>
      distinct (map oid (pending s)) \<and>
      (\<forall>r \<in> set (pending s). oid r < next_oid s \<and> runs_alone r = item_runs_alone (item r)))"

lemma bf_inv_new: "bf_inv (new_batch_former c)"
  by (simp add: bf_inv_def new_batch_former_def)

lemma append_item_fields [simp]:
  "config (append_item it md arr now s) = config s"
  "pending (append_item it md arr now s) = pending s @
     [\<lparr>oid = next_oid s, item = it, metadata = md, arrival_time = arr,
       runs_alone = item_runs_alone it\<rparr>]"
  "pending_cost (append_item it md arr now s) = pending_cost s + cost it"
  "last_batch_alone (append_item it md arr now s) = last_batch_alone s"
  "next_oid (append_item it md arr now s) = Suc (next_oid s)"
  "last_submit_time (append_item it md arr now s) = Some now"
  "first_request_time (append_item it md arr now s) =
     (if first_request_time s = None then Some now else first_request_time s)"
  by (auto simp: append_item_def Let_def)

lemma bf_inv_append: "bf_inv s \<Longrightarrow> bf_inv (append_item it md arr now s)"
  by (auto simp: bf_inv_def)

lemma select_batch_splits:
  "select_batch mx s = (ts, rest) \<Longrightarrow>
   ts @ rest = order_pending (last_batch_alone s) (pending s)"
  by (auto simp: select_batch_def Let_def greedy_take_append_drop)

lemma select_batch_mset:
  "select_batch mx s = (ts, rest) \<Longrightarrow> mset (pending s) = mset ts + mset rest"
  by (metis select_batch_splits mset_append mset_order_pending)

lemma extract_batch_fields:
  assumes "select_batch mx s = (ts, rest)" and "extract_batch mx s = (b, s')"
  shows "b = batch_of ts" and "pending s' = rest" and "config s' = config s"
    and "pending_cost s' = pending_cost s - requests_cost ts"
    and "last_batch_alone s' = (if ts = [] then last_batch_alone s else Some (runs_alone (hd ts)))"
    and "next_oid s' = next_oid s"
    and "first_request_time s' = (if rest = [] then None else first_request_time s)"
    and "last_submit_time s' = (if rest = [] then None else last_submit_time s)"
  using assms by (auto simp: extract_batch_def Let_def split: if_splits)

lemma bf_inv_extract:
  assumes "bf_inv s" and "extract_batch mx s = (b, s')"
  shows "bf_inv s'"
proof -
  obtain ts rest where sel: "select_batch mx s = (ts, rest)" by fastforce
  note f = extract_batch_fields [OF sel assms(2)]
  note m = select_batch_mset [OF sel]
  have "requests_cost (pending s) = requests_cost (ts @ rest)"
    using m by (intro sum_list_mset_cong) simp
  moreover have "distinct (map oid (ts @ rest))"
    using m assms(1) distinct_map_mset_cong [of "pending s" "ts @ rest" oid]
    by (simp add: bf_inv_def)
  moreover have "set (pending s) = set ts \<union> set rest"
    using set_mset_cong [of "pending s" "ts @ rest"] m by simp
  ultimately show ?thesis
    using assms(1) f m by (auto simp: bf_inv_def)
qed

lemma bf_inv_drain: "bf_inv s \<Longrightarrow> bf_inv (snd (drain_pending s))"
  by (simp add: bf_inv_def drain_pending_def)

lemma bf_inv_submit_many: "bf_inv s \<Longrightarrow> bf_inv (submit_many subs s)"
  by (induction subs s rule: submit_many.induct) (auto intro: bf_inv_append)

lemma batch_of_within_limits:
  assumes ts: "ts = greedy_take cfg mx 0 0 rs"
    and flag: "\<And>r. r \<in> set ts \<Longrightarrow> item_runs_alone (item r) = runs_alone r"
  shows "within_limits cfg (batch_of ts)"
proof -
  have "length ts = 1" if "r \<in> set ts" "item_runs_alone (item r)" for r
    using greedy_take_alone [of r] that flag ts by force
  moreover have "length ts \<le> 1 \<or> requests_cost ts \<le> max_batch_cost cfg"
    using greedy_take_cost_bound ts by blast
  moreover have "int (length ts) \<le> max 1 (max_batch_requests cfg)"
    using greedy_take_count [of 0] ts by simp
  ultimately show ?thesis
    by (auto simp: within_limits_def batch_size_def batch_of_def comp_def)
qed

lemma extract_within_limits:
  assumes "bf_inv s"
  shows "within_limits (config s) (fst (extract_batch mx s))"
proof -
  obtain ts rest where sel: "select_batch mx s = (ts, rest)" by fastforce
  have b: "fst (extract_batch mx s) = batch_of ts"
    using extract_batch_fields(1) [OF sel] by (metis prod.collapse)
  have ts: "ts = greedy_take (config s) mx 0 0 (order_pending (last_batch_alone s) (pending s))"
    using sel by (auto simp: select_batch_def Let_def)
  have "set ts \<subseteq> set (pending s)"
    using select_batch_mset [OF sel] set_mset_cong [of "pending s" "ts @ rest"] by simp
  then have "\<And>r. r \<in> set ts \<Longrightarrow> item_runs_alone (item r) = runs_alone r"
    using assms by (auto simp: bf_inv_def)
  then show ?thesis unfolding b by (rule batch_of_within_limits [OF ts])
qed

lemma extract_nonempty:
  assumes "pending s \<noteq> []" and "\<And>k. mx = Some k \<Longrightarrow> 0 < k"
  shows "batch_items (fst (extract_batch mx s)) \<noteq> []"
proof -
  obtain ts rest where sel: "select_batch mx s = (ts, rest)" by fastforce
  have "order_pending (last_batch_alone s) (pending s) \<noteq> []"
    using assms(1) by (metis length_order_pending length_0_conv)
  then have "ts \<noteq> []"
    using sel greedy_take_nonempty assms(2) by (fastforce simp: select_batch_def Let_def)
  moreover have "fst (extract_batch mx s) = batch_of ts"
    using extract_batch_fields(1) [OF sel] by (metis prod.collapse)
  ultimately show ?thesis by (simp add: batch_of_def)
qed

lemma extract_batch_parts:
  "\<exists>ts. fst (extract_batch mx s) = batch_of ts \<and>
     mset (pending s) = mset ts + mset (pending (snd (extract_batch mx s)))"
proof -
  obtain ts rest where sel: "select_batch mx s = (ts, rest)" by fastforce
  note f = extract_batch_fields [OF sel prod.collapse [symmetric]]
  show ?thesis using f(1,2) select_batch_mset [OF sel] by auto
qed

interpretation bq: batch_queue
  "pending :: ('p, 'm) batch_former \<Rightarrow> ('p, 'm) pending_request list"
  config append_item extract_batch bf_inv
proof unfold_locales
  fix s :: "('p, 'm) batch_former" and mx
  show "config (snd (extract_batch mx s)) = config s"
    by (rule extract_batch_fields(3) [OF prod.collapse [symmetric] prod.collapse [symmetric]])
  show "\<exists>ts. fst (extract_batch mx s) = batch_of ts \<and>
      mset (pending s) = mset ts + mset (pending (snd (extract_batch mx s)))"
    by (rule extract_batch_parts)
  assume "pending s \<noteq> []" and "\<And>k. mx = Some k \<Longrightarrow> 0 < k"
  then show "batch_items (fst (extract_batch mx s)) \<noteq> []" by (rule extract_nonempty)
qed (auto intro: bf_inv_append bf_inv_extract [OF _ prod.collapse [symmetric]]
    extract_within_limits)

section \<open>Turns of the two lanes\<close>

lemma insort_key_cong:
  assumes "\<And>y. y \<in> set ys \<Longrightarrow> f x \<le> f y \<longleftrightarrow> g x \<le> g y"
  shows "insort_key f x ys = insort_key g x ys"
  using assms by (induction ys) auto

lemma sort_key_cong_order:
  assumes "\<And>x y. x \<in> set xs \<Longrightarrow> y \<in> set xs \<Longrightarrow> f x \<le> f y \<longleftrightarrow> g x \<le> g y"
  shows "sort_key f xs = sort_key g xs"
  using assms
proof (induction xs)
  case Nil
  then show ?case by simp
next
  case (Cons x xs)
  then have "sort_key f xs = sort_key g xs" by simp
  moreover have "insort_key f x (sort_key g xs) = insort_key g x (sort_key g xs)"
    using Cons.prems by (intro insort_key_cong) auto
  ultimately show ?case by simp
qed

definition flagged_order :: "('p, 'm) pending_request list \<Rightarrow> ('p, 'm) pending_request list" where
  "flagged_order reqs = sort_key arrival_time (filter runs_alone reqs)"

lemma sorted_flagged_order: "sorted (map arrival_time (flagged_order reqs))"
  by (simp add: flagged_order_def)

lemma filter_lane_sort: "filter runs_alone (sort_key lane_key reqs) = flagged_order reqs"
  unfolding filter_sort_key flagged_order_def
  by (rule sort_key_cong_order) (auto simp: lane_key_def)

lemma filter_move_front:
  assumes "i < length xs" and "\<forall>x \<in> set (take i xs). \<not> P x"
  shows "filter P ((xs ! i) # (take i xs @ drop (Suc i) xs)) = filter P xs"
proof -
  have "filter P (take i xs) = []" using assms(2) by (simp add: filter_empty_conv)
  moreover have "filter P xs = filter P (take i xs) @ filter P ((xs ! i) # drop (Suc i) xs)"
    using assms(1) by (metis filter_append id_take_nth_drop)
  ultimately show ?thesis by simp
qed

lemma filter_order_pending:
  "filter runs_alone (order_pending l reqs) = flagged_order reqs"
proof (cases "\<exists>r \<in> set reqs. runs_alone r")
  case True
  let ?p = "sort_key lane_key reqs"
  let ?i = "length (takeWhile (\<lambda>r. \<not> runs_alone r) ?p)"
  from True have "\<exists>r \<in> set ?p. runs_alone r" by simp
  then have "?i < length ?p" by (rule head_index_in_range)
  moreover have "\<forall>x \<in> set (take ?i ?p). \<not> runs_alone x"
    by (metis set_takeWhileD takeWhile_eq_take)
  ultimately have "filter runs_alone ((?p ! ?i) # (take ?i ?p @ drop (Suc ?i) ?p))
      = filter runs_alone ?p"
    by (rule filter_move_front)
  with True show ?thesis
    by (simp add: order_pending_def order_runs_alone_lane_def Let_def filter_lane_sort)
next
  case False
  then have "filter runs_alone reqs = []" by (auto simp: filter_empty_conv)
  with False show ?thesis by (simp add: order_pending_def flagged_order_def filter_sort_key)
qed

lemma select_batch_flagged:
  "select_batch mx s = (ts, rest) \<Longrightarrow>
   flagged_order (pending s) = filter runs_alone ts @ filter runs_alone rest"
  by (metis select_batch_splits filter_order_pending filter_append)

lemma flagged_order_rest:
  assumes "select_batch mx s = (ts, rest)"
  shows "flagged_order rest = filter runs_alone rest"
  unfolding flagged_order_def
  using sorted_flagged_order [of "pending s"] select_batch_flagged [OF assms]
  by (intro sorted_key_idem) (simp add: sorted_append)

text \<open>The head of the ordered queue tells whose turn it is.\<close>

lemma lane_sorted_head:
  assumes "sort_key lane_key reqs = r # rs" and "runs_alone r" and "q \<in> set reqs"
  shows "runs_alone q"
proof -
  have "sorted (map lane_key (sort_key lane_key reqs))" by simp
  then have "sorted (lane_key r # map lane_key rs)"
    using assms(1) by simp
  moreover from assms(1,3) have "q \<in> set (r # rs)" by (metis set_sort)
  ultimately have "lane_key r \<le> lane_key q" by auto
  with assms(2) show ?thesis by (auto simp: lane_key_def less_eq_prod_def)
qed

lemma order_pending_turn:
  assumes "a \<in> set reqs" "runs_alone a" "q \<in> set reqs" "\<not> runs_alone q"
    and "order_pending (Some b) reqs = r # rs"
  shows "runs_alone r \<longleftrightarrow> \<not> b"
proof -
  let ?p = "sort_key lane_key reqs"
  let ?i = "length (takeWhile (\<lambda>r. \<not> runs_alone r) ?p)"
  have ex: "\<exists>r \<in> set ?p. runs_alone r" using assms(1,2) by auto
  obtain h t where ht: "?p = h # t"
    using assms(1) by (cases ?p) (metis set_sort empty_iff list.set(1), blast)
  with assms(3,4) lane_sorted_head have nh: "\<not> runs_alone h" by blast
  have i: "?i < length ?p" using ex by (rule head_index_in_range)
  have "?i \<noteq> 0" using nh ht by simp
  have at: "runs_alone (?p ! ?i)" using nth_length_takeWhile [OF i] by simp
  have "order_pending (Some b) reqs =
      (if \<not> b then (?p ! ?i) # (take ?i ?p @ drop (Suc ?i) ?p) else ?p)"
    using assms(1,2) \<open>?i \<noteq> 0\<close>
    by (auto simp: order_pending_def order_runs_alone_lane_def Let_def)
  with assms(5) at nh ht show ?thesis by (auto split: if_splits)
qed

lemma select_batch_hd:
  assumes "select_batch mx s = (ts, rest)" and "ts \<noteq> []"
  shows "\<exists>rs. order_pending (last_batch_alone s) (pending s) = hd ts # rs"
  using select_batch_splits [OF assms(1)] assms(2) by (metis append_Cons list.collapse)

text \<open>
  How many batches of batchable requests are handed out, along a run, before the request
  with identity \<open>i\<close> is.
\<close>

fun batched_turns ::
    "nat \<Rightarrow> ('p, 'm) former_event list \<Rightarrow> ('p, 'm, 'z) batch_former_scheme \<Rightarrow> nat" where
  "batched_turns i [] s = 0"
| "batched_turns i (Submit it md arr now # es) s =
     batched_turns i es (append_item it md arr now s)"
| "batched_turns i (Extract mx # es) s =
     (let (ts, rest) = select_batch mx s
      in if i \<in> oid ` set ts then 0
         else (if ts \<noteq> [] \<and> \<not> runs_alone (hd ts) then 1 else 0) +
              batched_turns i es (snd (extract_batch mx s)))"

text \<open>The clock readings of a run's arrivals never go back, starting from \<open>t\<close>.\<close>

fun monotone_arrivals :: "real \<Rightarrow> ('p, 'm) former_event list \<Rightarrow> bool" where
  "monotone_arrivals t [] = True"
| "monotone_arrivals t (Submit it md arr now # es) = (t \<le> arr \<and> monotone_arrivals arr es)"
| "monotone_arrivals t (Extract mx # es) = monotone_arrivals t es"

definition requests_ahead :: "nat \<Rightarrow> ('p, 'm) pending_request list \<Rightarrow> nat" where
  "requests_ahead i reqs = length (takeWhile (\<lambda>q. oid q \<noteq> i) reqs)"

definition flagged_bound :: "nat \<Rightarrow> ('p, 'm, 'z) batch_former_scheme \<Rightarrow> nat" where
  "flagged_bound i s =
     requests_ahead i (flagged_order (pending s)) +
     (if last_batch_alone s = Some False then 0 else 1)"

lemma requests_ahead_append:
  "i \<in> oid ` set xs \<Longrightarrow> requests_ahead i (xs @ ys) = requests_ahead i xs"
  by (auto simp: requests_ahead_def takeWhile_append1)

lemma requests_ahead_Cons: "requests_ahead i (x # xs) = (if oid x = i then 0 else Suc (requests_ahead i xs))"
  by (simp add: requests_ahead_def)

lemma flagged_order_append:
  assumes "\<forall>q \<in> set reqs. arrival_time q \<le> arrival_time r"
  shows "flagged_order (reqs @ [r]) = flagged_order reqs @ (if runs_alone r then [r] else [])"
proof (cases "runs_alone r")
  case True
  let ?F = "filter runs_alone reqs"
  have "sort_key arrival_time (?F @ [r]) = sort_key arrival_time ?F @ [r]"
  proof (rule properties_for_sort_key)
    show "mset (sort_key arrival_time ?F @ [r]) = mset (?F @ [r])" by simp
    show "sorted (map arrival_time (sort_key arrival_time ?F @ [r]))"
      using assms by (auto simp: sorted_append)
    fix k assume "k \<in> set (sort_key arrival_time ?F @ [r])"
    show "filter (\<lambda>x. arrival_time k = arrival_time x) (sort_key arrival_time ?F @ [r]) =
        filter (\<lambda>x. arrival_time k = arrival_time x) (?F @ [r])"
      by (simp add: sort_key_stable eq_commute [of "arrival_time k"])
  qed
  with True show ?thesis by (simp add: flagged_order_def)
next
  case False
  then show ?thesis by (simp add: flagged_order_def)
qed

text \<open>One extraction: either the request leaves, or its bound shrinks by every batched turn.\<close>

lemma flagged_bound_extract:
  assumes inv: "bf_inv s" and r: "r \<in> set (pending s)" "runs_alone r"
    and sel: "select_batch mx s = (ts, rest)" and out: "oid r \<notin> oid ` set ts"
    and s': "s' = snd (extract_batch mx s)"
  shows "r \<in> set (pending s')"
    and "(if ts \<noteq> [] \<and> \<not> runs_alone (hd ts) then 1 else 0) + flagged_bound (oid r) s'
      \<le> flagged_bound (oid r) s"
proof -
  note f = extract_batch_fields [OF sel prod.collapse [symmetric], folded s']
  have set: "set (pending s) = set ts \<union> set rest"
    using select_batch_mset [OF sel] set_mset_cong [of "pending s" "ts @ rest"] by simp
  with r out have rest: "r \<in> set rest" by auto
  with f(2) show "r \<in> set (pending s')" by simp
  let ?F = "flagged_order (pending s)" and ?R = "filter runs_alone rest"
  have FR: "?F = filter runs_alone ts @ ?R" by (rule select_batch_flagged [OF sel])
  have FR': "flagged_order (pending s') = ?R" using flagged_order_rest [OF sel] f(2) by simp
  show "(if ts \<noteq> [] \<and> \<not> runs_alone (hd ts) then 1 else 0) + flagged_bound (oid r) s'
      \<le> flagged_bound (oid r) s"
  proof (cases ts)
    case Nil
    with f(5) FR FR' show ?thesis by (simp add: flagged_bound_def)
  next
    case (Cons t ts')
    show ?thesis
    proof (cases "runs_alone t")
      case True
      have "t \<in> set (greedy_take (config s) mx 0 0 (order_pending (last_batch_alone s) (pending s)))"
        using sel Cons by (auto simp: select_batch_def Let_def)
      from greedy_take_alone [OF this True] have "ts = [t]"
        using sel by (auto simp: select_batch_def Let_def)
      with True FR FR' f(5) out show ?thesis
        by (simp add: flagged_bound_def requests_ahead_Cons)
    next
      case False
      have none: "filter runs_alone ts = []"
      proof (rule ccontr)
        assume "filter runs_alone ts \<noteq> []"
        then obtain u where u: "u \<in> set ts" "runs_alone u" by (auto simp: filter_empty_conv)
        then have "ts = [u]"
          using sel greedy_take_alone [of u] by (auto simp: select_batch_def Let_def)
        with Cons False u show False by simp
      qed
      have "t \<in> set (pending s)" using Cons set by simp
      then have "last_batch_alone s \<noteq> Some False"
        using order_pending_turn [of r "pending s" t False t] select_batch_hd [OF sel] Cons False r
        by (metis list.sel(1) list.discI)
      with none Cons False FR FR' f(5) show ?thesis by (simp add: flagged_bound_def)
    qed
  qed
qed

lemma flagged_turns_bounded:
  assumes "bf_inv s" and "r \<in> set (pending s)" and "runs_alone r"
    and "\<forall>q \<in> set (pending s). arrival_time q \<le> t" and "monotone_arrivals t es"
  shows "batched_turns (oid r) es s \<le> flagged_bound (oid r) s"
  using assms
proof (induction es arbitrary: s t)
  case Nil
  then show ?case by simp
next
  case (Cons e es)
  show ?case
  proof (cases e)
    case (Submit it md arr now)
    let ?s = "append_item it md arr now s"
    from Cons.prems Submit have t: "t \<le> arr" "monotone_arrivals arr es" by auto
    let ?new = "\<lparr>oid = next_oid s, item = it, metadata = md, arrival_time = arr,
       runs_alone = item_runs_alone it\<rparr>"
    have "batched_turns (oid r) es ?s \<le> flagged_bound (oid r) ?s"
      using Cons.prems t by (intro Cons.IH [where t = arr]) (auto intro: bf_inv_append)
    moreover have "flagged_order (pending ?s) =
        flagged_order (pending s) @ (if runs_alone ?new then [?new] else [])"
      using Cons.prems(4) t(1) by (simp only: append_item_fields) (intro flagged_order_append, auto)
    moreover have "oid r \<in> oid ` set (flagged_order (pending s))"
      using Cons.prems(2,3) by (auto simp: flagged_order_def)
    ultimately show ?thesis
      using Submit by (simp add: flagged_bound_def requests_ahead_append)
  next
    case (Extract mx)
    obtain ts rest where sel: "select_batch mx s = (ts, rest)" by fastforce
    let ?s = "snd (extract_batch mx s)"
    show ?thesis
    proof (cases "oid r \<in> oid ` set ts")
      case True
      with Extract sel show ?thesis by simp
    next
      case False
      note b = flagged_bound_extract [OF Cons.prems(1-3) sel False refl]
      have "bf_inv ?s" by (rule bf_inv_extract [OF Cons.prems(1) prod.collapse [symmetric]])
      moreover have "set (pending ?s) \<subseteq> set (pending s)"
        using extract_batch_fields(2) [OF sel prod.collapse [symmetric]]
          select_batch_mset [OF sel] set_mset_cong [of "pending s" "ts @ rest"] by simp
      ultimately have "batched_turns (oid r) es ?s \<le> flagged_bound (oid r) ?s"
        using Cons.prems b(1) Extract by (intro Cons.IH [where t = t]) auto
      with b(2) Extract sel False show ?thesis by simp
    qed
  qed
qed

section \<open>Timers\<close>

text \<open>At the time the computed wait ends, a batch is due.\<close>

lemma wait_timeout_due:
  assumes "bf_inv s" and "pending s \<noteq> []" and "get_wait_timeout cap now s = Some d"
    and "now + d \<le> now'"
  shows "should_yield_batch cap now' s"
proof -
  from assms(1,2) obtain t0 t1 where t: "first_request_time s = Some t0" "last_submit_time s = Some t1"
    by (auto simp: bf_inv_def)
  let ?b = "max 0 (max_batch_wait_ms (config s) - (now - t0) * 1000)"
  let ?c = "max 0 (capped_coalesce_ms cap s - (now - t1) * 1000)"
  from assms(3) t have d: "d * 1000 = min ?b ?c"
    by (auto simp: get_wait_timeout_def Let_def)
  show ?thesis
  proof (cases "?b \<le> ?c")
    case True
    with d have "max_batch_wait_ms (config s) - (now - t0) * 1000 \<le> d * 1000" by simp
    with assms(4) have "max_batch_wait_ms (config s) \<le> (now' - t0) * 1000"
      by (simp add: algebra_simps)
    with t assms(2) show ?thesis
      by (simp add: should_yield_batch_def batch_timeout_expired_def)
  next
    case False
    with d have "capped_coalesce_ms cap s - (now - t1) * 1000 \<le> d * 1000" by simp
    with assms(4) have "capped_coalesce_ms cap s \<le> (now' - t1) * 1000"
      by (simp add: algebra_simps)
    with t assms(2) show ?thesis
      by (simp add: should_yield_batch_def coalesce_expired_def)
  qed
qed

lemma should_yield_ready [simp]:
  "should_yield_batch cap now (s\<lparr>batch_ready := b\<rparr>) = should_yield_batch cap now s"
  by (simp add: should_yield_batch_def batch_is_full_def batch_timeout_expired_def
      coalesce_expired_def capped_coalesce_ms_def split: option.splits)

text \<open>
  A call of \<^verbatim>\<open>get_batch\<close> on a nonempty queue returns a nonempty batch after at most one
  wait that runs to its timeout, even when nothing more is submitted.
\<close>

lemma extract_batch_ready:
  "fst (extract_batch mx (s\<lparr>batch_ready := b\<rparr>)) = fst (extract_batch mx s)"
  by (simp add: extract_batch_def select_batch_def Let_def)

lemma get_batch_returns:
  assumes "bf_inv s" and "pending s \<noteq> []" and "get_wait_timeout cap now s = Some d"
    and "now + d \<le> now'"
  shows "\<exists>b s'. get_batch immediate cap now [([], now')] s = (Some b, s') \<and> batch_items b \<noteq> []"
proof -
  have ne: "batch_items (fst (extract_batch None s)) \<noteq> []"
    by (rule extract_nonempty [OF assms(2)]) simp
  obtain b s1 where b: "extract_batch None s = (b, s1)" by fastforce
  obtain b' s2 where b': "extract_batch None (s\<lparr>batch_ready := False\<rparr>) = (b', s2)" by fastforce
  have "b' = b" using extract_batch_ready [where s = s and mx = None and b = False] b b' by simp
  have due: "should_yield_batch cap now' s" by (rule wait_timeout_due [OF assms])
  show ?thesis
    using ne b b' due \<open>b' = b\<close>
    by (cases "should_yield_batch cap now s \<or> (immediate \<and> pending s \<noteq> [])")
      (auto simp: get_batch.simps)
qed

section \<open>Cost order and collation\<close>

lemma select_batch_sorted:
  assumes "\<forall>r \<in> set (pending s). \<not> runs_alone r" and "select_batch mx s = (ts, rest)"
  shows "sorted (map (\<lambda>r. cost (item r)) (ts @ rest))"
proof -
  have "ts @ rest = sort_key (\<lambda>r. cost (item r)) (pending s)"
    using select_batch_splits [OF assms(2)] assms(1) by (auto simp: order_pending_def)
  then show ?thesis by simp
qed

lemma collate_rows:
  assumes "p \<in> set payloads" and "length (attention_mask p) = token_count p"
    and "M = Max (set (map token_count payloads))"
  shows "length (pad_row M (token_count p) pad (input_ids p)) = M"
    and "length (pad_row M (token_count p) 0 (attention_mask p)) = M"
    and "take (token_count p) (pad_row M (token_count p) pad (input_ids p)) = input_ids p"
    and "filter (\<lambda>x. x \<noteq> 0) (pad_row M (token_count p) 0 (attention_mask p)) =
      filter (\<lambda>x. x \<noteq> 0) (attention_mask p)"
proof -
  have "token_count p \<le> M" unfolding assms(3) by (rule Max_ge) (auto simp: assms(1))
  then show "length (pad_row M (token_count p) pad (input_ids p)) = M"
    and "length (pad_row M (token_count p) 0 (attention_mask p)) = M"
    using assms(2) by (simp_all add: pad_row_def token_count_def)
qed (simp_all add: pad_row_def token_count_def)

section \<open>Properties\<close>

text \<open>
  C28. Whatever the order of submissions and extractions on a fresh \<^verbatim>\<open>BatchFormer\<close>,
  every submitted (item, metadata) pair is in exactly one of the batches handed out or
  still pending: nothing is lost, duplicated or paired with another request's metadata.
\<close>

theorem batch_exactly_once:
  "mset (submitted es) =
     mset (concat (map batch_pairs
       (fst (former_run append_item extract_batch es (new_batch_former c))))) +
     mset (request_pairs (pending
       (snd (former_run append_item extract_batch es (new_batch_former c)))))"
  using bq.exactly_once [OF bf_inv_new prod.collapse [symmetric], of c es]
  by (simp add: new_batch_former_def [of c])

text \<open>
  C30. Every batch a fresh \<^verbatim>\<open>BatchFormer\<close> hands out, in any run, costs at most
  \<^verbatim>\<open>max_batch_cost\<close> unless it is a single item, has at most \<^verbatim>\<open>max_batch_requests\<close>
  items (one at least is allowed), reports the sum of its items' costs, and consists of
  one item alone if an item of it is flagged \<^verbatim>\<open>runs_alone\<close>.
\<close>

theorem batches_within_limits:
  fixes es :: "('p, 'm) former_event list"
  shows "list_all (within_limits cfg)
     (fst (former_run append_item extract_batch es (new_batch_former (Some cfg))))"
  unfolding list_all_iff
proof
  let ?s = "new_batch_former (Some cfg) :: ('p, 'm) batch_former"
  fix b assume "b \<in> set (fst (former_run append_item extract_batch es ?s))"
  then have "within_limits (config ?s) b" by (rule bq.run_within_limits [OF bf_inv_new])
  then show "within_limits cfg b" by (simp add: new_batch_former_def)
qed

text \<open>
  The running total \<^verbatim>\<open>_total_cost\<close>, the two timers and the identities stay in step
  with the queue in every run: the total is the sum of the pending costs, a timer is set
  exactly while something is pending, and no two pending requests are the same object.
\<close>

theorem batch_former_invariant:
  "bf_inv (snd (former_run append_item extract_batch es (new_batch_former c))) \<and>
   bf_inv (snd (drain_pending (snd (former_run append_item extract_batch es (new_batch_former c)))))"
  using bq.invar_run [OF bf_inv_new] bf_inv_drain by blast

text \<open>
  While both lanes have pending requests they take turns: a batch of batchable
  requests follows a flagged request and the other way round.
\<close>

theorem lanes_take_turns:
  assumes "a \<in> set (pending s)" "runs_alone a" and "q \<in> set (pending s)" "\<not> runs_alone q"
    and "last_batch_alone s = Some b" and "select_batch mx s = (ts, rest)" and "ts \<noteq> []"
  shows "runs_alone (hd ts) = (\<not> b)"
  using select_batch_hd [OF assms(6,7)] order_pending_turn [OF assms(1-4)] assms(5) by auto

text \<open>
  C31. A flagged request with \<open>k\<close> flagged requests ahead of it waits for at most \<open>k + 1\<close>
  batches of batchable requests, however many keep arriving.
\<close>

theorem flagged_request_wait:
  assumes "bf_inv s" and "r \<in> set (pending s)" and "runs_alone r"
    and "\<forall>q \<in> set (pending s). arrival_time q \<le> t" and "monotone_arrivals t es"
  shows "batched_turns (oid r) es s \<le> requests_ahead (oid r) (flagged_order (pending s)) + 1"
  using flagged_turns_bounded [OF assms] by (simp add: flagged_bound_def split: if_splits)

text \<open>
  With requests pending and nothing more submitted, a \<^verbatim>\<open>get_batch\<close> call whose wait
  runs for the computed timeout returns a nonempty batch: the computed sleep ends exactly
  when a batch is due.
\<close>

theorem get_batch_after_timeout:
  assumes "bf_inv s" and "pending s \<noteq> []" and "get_wait_timeout cap now s = Some d"
    and "now + d \<le> now'"
  shows "\<exists>b s'. get_batch immediate cap now [([], now')] s = (Some b, s') \<and> batch_items b \<noteq> []"
  by (rule get_batch_returns [OF assms])

text \<open>
  As many extractions as there are pending requests empty a former: the draining loop
  of the worker ends.
\<close>

theorem batches_drain_queue:
  "pending (((\<lambda>s. snd (extract_batch None s)) ^^ length (pending s0)) s0) = []"
  if "bf_inv s0" for s0 :: "('p, 'm) batch_former"
  using bq.drained [OF that] .

text \<open>
  When no pending request is flagged, a batch holds the cheapest pending requests in
  order of cost: no request left behind is cheaper than one taken.
\<close>

theorem batch_takes_cheapest:
  assumes "\<forall>r \<in> set (pending s). \<not> runs_alone r" and "select_batch mx s = (ts, rest)"
  shows "sorted (map cost (batch_items (batch_of ts))) \<and>
    (\<forall>t \<in> set ts. \<forall>r \<in> set rest. cost (item t) \<le> cost (item r))"
  using select_batch_sorted [OF assms] by (auto simp: batch_of_def sorted_append comp_def)

text \<open>
  Collation pads every row of a batch to the longest one, keeps each row's tokens, and
  marks no padding position as attended.
\<close>

theorem collate_batch_rows:
  assumes "payloads \<noteq> []" and "\<forall>p \<in> set payloads. length (attention_mask p) = token_count p"
    and "collate_batch payloads pad = (ids, masks)" and "i < length payloads"
  shows "length (ids ! i) = Max (set (map token_count payloads))
    \<and> length (masks ! i) = length (ids ! i)
    \<and> take (token_count (payloads ! i)) (ids ! i) = input_ids (payloads ! i)
    \<and> filter (\<lambda>x. x \<noteq> 0) (masks ! i) = filter (\<lambda>x. x \<noteq> 0) (attention_mask (payloads ! i))"
proof -
  let ?M = "Max (set (map token_count payloads))" and ?p = "payloads ! i"
  have p: "?p \<in> set payloads" using assms(4) by simp
  have "ids ! i = pad_row ?M (token_count ?p) pad (input_ids ?p)"
    and "masks ! i = pad_row ?M (token_count ?p) 0 (attention_mask ?p)"
    using assms(1,3,4) by (auto simp: collate_batch_def Let_def)
  with collate_rows [OF p _ refl] assms(2) p show ?thesis by simp
qed

subsection \<open>Witnesses\<close>

definition demo_request :: "int \<Rightarrow> bool \<Rightarrow> unit prepared_item" where
  "demo_request c alone = \<lparr>payload = (), cost = c, original_index = 0, item_runs_alone = alone\<rparr>"

definition demo_config :: batch_config where
  "demo_config = make_batch_config 10 8 15 None 15 (1 / 2)"

text \<open>A flagged request and a batchable one, in this order, after a first batchable batch.\<close>

definition demo_lanes :: "(unit, nat) batch_former" where
  "demo_lanes = snd (former_run append_item extract_batch
     [Submit (demo_request 3 False) 0 0 0, Extract None,
      Submit (demo_request 5 True) 1 1 1, Submit (demo_request 4 False) 2 2 2]
     (new_batch_former (Some demo_config)))"

definition demo_batchable :: "(unit, nat) batch_former" where
  "demo_batchable = snd (former_run append_item extract_batch
     [Submit (demo_request 7 False) 0 0 0, Submit (demo_request 4 False) 1 0 0]
     (new_batch_former (Some demo_config)))"

lemmas demo_batch_simps = demo_request_def demo_config_def demo_lanes_def demo_batchable_def
  make_batch_config_def new_batch_former_def append_item_def Let_def extract_batch_def
  select_batch_def order_pending_def should_yield_batch_def batch_is_full_def
  batch_timeout_expired_def coalesce_expired_def capped_coalesce_ms_def
  effective_coalesce_ms_def

lemma demo_lanes_inv: "bf_inv demo_lanes"
  unfolding demo_lanes_def by (rule bq.invar_run [OF bf_inv_new])

lemma demo_batchable_inv: "bf_inv demo_batchable"
  unfolding demo_batchable_def by (rule bq.invar_run [OF bf_inv_new])

lemma demo_lanes_pending:
  "pending demo_lanes =
     [\<lparr>oid = 1, item = demo_request 5 True, metadata = 1, arrival_time = 1, runs_alone = True\<rparr>,
      \<lparr>oid = 2, item = demo_request 4 False, metadata = 2, arrival_time = 2, runs_alone = False\<rparr>]"
  by (simp add: demo_batch_simps)

lemma demo_lanes_last: "last_batch_alone demo_lanes = Some False"
  by (simp add: demo_batch_simps)

lemma demo_batchable_pending:
  "pending demo_batchable =
     [\<lparr>oid = 0, item = demo_request 7 False, metadata = 0, arrival_time = 0, runs_alone = False\<rparr>,
      \<lparr>oid = 1, item = demo_request 4 False, metadata = 1, arrival_time = 0, runs_alone = False\<rparr>]"
  by (simp add: demo_batch_simps)

theorem lanes_take_turns_witness:
  "\<exists>ts rest. select_batch None demo_lanes = (ts, rest) \<and> ts \<noteq> [] \<and> runs_alone (hd ts)"
proof -
  let ?a = "pending demo_lanes ! 0" and ?q = "pending demo_lanes ! 1"
  obtain ts rest where sel: "select_batch None demo_lanes = (ts, rest)" by fastforce
  have "batch_items (fst (extract_batch None demo_lanes)) \<noteq> []"
    by (rule extract_nonempty) (simp_all add: demo_lanes_pending)
  then have ts: "ts \<noteq> []"
    using extract_batch_fields(1) [OF sel prod.collapse [symmetric]] by (auto simp: batch_of_def)
  have "?a \<in> set (pending demo_lanes)" "runs_alone ?a" "?q \<in> set (pending demo_lanes)" "\<not> runs_alone ?q"
    by (simp_all add: demo_lanes_pending)
  from lanes_take_turns [OF this demo_lanes_last sel ts] sel ts show ?thesis by simp
qed

theorem flagged_request_wait_witness:
  "batched_turns 1 [Submit (demo_request 1 False) 3 2 2, Extract None, Extract None] demo_lanes \<le> 1"
proof -
  let ?r = "pending demo_lanes ! 0"
  let ?es = "[Submit (demo_request 1 False) 3 2 2, Extract None, Extract None]"
  have "?r \<in> set (pending demo_lanes)" "runs_alone ?r"
    "\<forall>q \<in> set (pending demo_lanes). arrival_time q \<le> 2"
    "monotone_arrivals 2 ?es"
    by (simp_all add: demo_lanes_pending)
  from flagged_request_wait [OF demo_lanes_inv this] show ?thesis
    by (simp add: demo_lanes_pending flagged_order_def requests_ahead_def)
qed

theorem get_batch_after_timeout_witness:
  "\<exists>b s'. get_batch False None 0 [([], 1)] demo_batchable = (Some b, s') \<and> batch_items b \<noteq> []"
proof -
  have "pending demo_batchable \<noteq> []" by (simp add: demo_batchable_pending)
  moreover have "get_wait_timeout None 0 demo_batchable = Some (3 / 400)"
    by (simp add: get_wait_timeout_def demo_batch_simps)
  ultimately show ?thesis
    using get_batch_after_timeout [OF demo_batchable_inv, of None 0 "3 / 400" 1 False] by simp
qed

theorem batches_drain_queue_witness:
  "pending (((\<lambda>s. snd (extract_batch None s)) ^^ 2) demo_lanes) = []"
  using batches_drain_queue [OF demo_lanes_inv] by (simp add: demo_lanes_pending eval_nat_numeral)

theorem batch_takes_cheapest_witness:
  "\<exists>ts rest. select_batch None demo_batchable = (ts, rest) \<and> length ts = 1 \<and> length rest = 1 \<and>
     (\<forall>t \<in> set ts. \<forall>r \<in> set rest. cost (item t) \<le> cost (item r))"
proof -
  obtain ts rest where sel: "select_batch None demo_batchable = (ts, rest)" by fastforce
  have "length ts = 1 \<and> length rest = 1"
    using sel by (auto simp: demo_batch_simps)
  moreover have "\<forall>r \<in> set (pending demo_batchable). \<not> runs_alone r"
    by (simp add: demo_batchable_pending)
  ultimately show ?thesis using batch_takes_cheapest [OF _ sel] sel by blast
qed

theorem collate_batch_rows_witness:
  "let payloads = [\<lparr>input_ids = [5, 6], attention_mask = [1, 1]\<rparr>, \<lparr>input_ids = [7], attention_mask = [1]\<rparr>];
       (ids, masks) = collate_batch payloads 0
   in length (ids ! 1) = 2 \<and> length (masks ! 1) = 2"
proof -
  let ?ps = "[\<lparr>input_ids = [5, 6], attention_mask = [1, 1]\<rparr>, \<lparr>input_ids = [7], attention_mask = [1]\<rparr>]"
  have "?ps \<noteq> []" "\<forall>p \<in> set ?ps. length (attention_mask p) = token_count p" "1 < length ?ps"
    by (simp_all add: token_count_def)
  with collate_batch_rows [of ?ps 0 "fst (collate_batch ?ps 0)" "snd (collate_batch ?ps 0)" 1]
  show ?thesis by (simp add: token_count_def Let_def split_beta)
qed

end
