(* ===== verification/Progress_Batcher.thy ===== *)
theory Progress_Batcher
  imports Batcher
begin

text \<open>
  The opt-in former with bounded bypassing: \<^verbatim>\<open>core/progress_batcher.py\<close>. The subclass is
  a record extension of \<open>batch_former\<close>: \<open>arrivals\<close> is the insertion-ordered map from
  \<^verbatim>\<open>id(request)\<close> to the pending request, \<open>reserved_request\<close> the bypassed oldest one.
  Shown: the contract of \<open>Batcher\<close> holds for the subclass too, the reservation is always
  a pending request (so the index search cannot fail), and a batchable request with
  \<open>k\<close> older batchable ones is passed over by at most \<open>2 k + 1\<close> batchable turns.
\<close>

section \<open>State and operations\<close>

record ('p, 'm) progress_former = "('p, 'm) batch_former" +
  arrivals :: "(nat, ('p, 'm) pending_request) odict"
  reserved_request :: "('p, 'm) pending_request option"

definition new_progress_former :: "batch_config option \<Rightarrow> ('p, 'm) progress_former" where
  "new_progress_former c =
     batch_former.extend (new_batch_former c) \<lparr>arrivals = [], reserved_request = None\<rparr>"

definition progress_append_item ::
    "'p prepared_item \<Rightarrow> 'm \<Rightarrow> real \<Rightarrow> real \<Rightarrow>
     ('p, 'm) progress_former \<Rightarrow> ('p, 'm) progress_former" where
  "progress_append_item it md arr now s =
     (let s1 = append_item it md arr now s; request = last (pending s1)
      in s1\<lparr>arrivals := od_set (oid request) request (arrivals s1)\<rparr>)"

text \<open>The loop of \<^verbatim>\<open>_extract_batch\<close>, with the extra stop at \<open>limit\<close>.\<close>

fun progress_take ::
    "batch_config \<Rightarrow> int \<Rightarrow> int option \<Rightarrow> int \<Rightarrow> int \<Rightarrow> ('p, 'm) pending_request list \<Rightarrow>
     ('p, 'm) pending_request list" where
  "progress_take cfg limit max_items n c [] = []"
| "progress_take cfg limit max_items n c (r # rs) =
     (if limit \<le> n then []
      else if (case max_items of None \<Rightarrow> False | Some k \<Rightarrow> k \<le> n) then []
      else if runs_alone r \<and> 0 < n then []
      else if max_batch_cost cfg < c + cost (item r) \<and> 0 < n then []
      else if runs_alone r then [r]
      else if max_batch_requests cfg \<le> n + 1 then [r]
      else r # progress_take cfg limit max_items (n + 1) (c + cost (item r)) rs)"

text \<open>
  The queue as the loop sees it and the loop's limit. On a reserved turn the batchable
  prefix is rotated so that it starts at the reserved request. Both \<^verbatim>\<open>next(...)\<close> searches
  without a default would raise \<^verbatim>\<open>StopIteration\<close> on a miss; the invariant \<open>pf_inv\<close> below rules
  a miss out, so the value the definitions give there is never used.
\<close>

definition reserved_turn ::
    "('p, 'm) pending_request option \<Rightarrow> ('p, 'm) pending_request list \<Rightarrow> bool" where
  "reserved_turn reserved p = (reserved \<noteq> None \<and> p \<noteq> [] \<and> \<not> runs_alone (hd p))"

definition rotate_reserved ::
    "('p, 'm) pending_request option \<Rightarrow> ('p, 'm) pending_request list \<Rightarrow>
     ('p, 'm) pending_request list \<times> int" where
  "rotate_reserved reserved p =
     (case reserved of
        Some x \<Rightarrow>
          (if reserved_turn reserved p
           then let reserved_index = length (takeWhile (\<lambda>q. oid q \<noteq> oid x) p);
                    batchable_end = length (takeWhile (\<lambda>q. \<not> runs_alone q) p)
                in (drop reserved_index (take batchable_end p) @ take reserved_index p @
                      drop batchable_end p,
                    int batchable_end - int reserved_index)
           else (p, int (length p)))
      | None \<Rightarrow> (p, int (length p)))"

definition progress_select ::
    "int option \<Rightarrow> ('p, 'm) progress_former \<Rightarrow>
     ('p, 'm) pending_request list \<times> ('p, 'm) pending_request list" where
  "progress_select max_items s =
     (let (p, limit) = rotate_reserved (reserved_request s)
                         (order_pending (last_batch_alone s) (pending s));
          taken = progress_take (config s) limit max_items 0 0 p
      in (taken, drop (length taken) p))"

definition oldest_batchable ::
    "('p, 'm) progress_former \<Rightarrow> ('p, 'm) pending_request option" where
  "oldest_batchable s = find (\<lambda>r. \<not> runs_alone r) (map snd (arrivals s))"

definition next_reservation ::
    "('p, 'm) pending_request list \<Rightarrow> ('p, 'm) pending_request list \<Rightarrow>
     ('p, 'm) progress_former \<Rightarrow> ('p, 'm) pending_request option" where
  "next_reservation taken rest s =
     (if taken \<noteq> [] \<and> \<not> runs_alone (hd taken)
      then if reserved_turn (reserved_request s) (order_pending (last_batch_alone s) (pending s))
           then None
           else if rest \<noteq> []
           then (case oldest_batchable s of
                   Some x \<Rightarrow> if oid x \<notin> oid ` set taken then Some x else reserved_request s
                 | None \<Rightarrow> reserved_request s)
           else reserved_request s
      else reserved_request s)"

definition progress_extract_batch ::
    "int option \<Rightarrow> ('p, 'm) progress_former \<Rightarrow>
     ('p, 'm) formatted_batch \<times> ('p, 'm) progress_former" where
  "progress_extract_batch max_items s =
     (let (taken, rest) = progress_select max_items s;
          s1 = s\<lparr>pending := rest,
                 pending_cost := pending_cost s - requests_cost taken,
                 last_batch_alone :=
                   (if taken = [] then last_batch_alone s else Some (runs_alone (hd taken))),
                 arrivals := fold (\<lambda>r d. od_del (oid r) d) taken (arrivals s),
                 reserved_request := next_reservation taken rest s\<rparr>;
          s2 = (if rest = []
                then s1\<lparr>first_request_time := None, last_submit_time := None,
                        reserved_request := None\<rparr>
                else s1)
      in (batch_of taken, s2))"

definition progress_drain_pending ::
    "('p, 'm) progress_former \<Rightarrow> 'm list \<times> ('p, 'm) progress_former" where
  "progress_drain_pending s =
     (let (md, s1) = drain_pending s in (md, s1\<lparr>arrivals := [], reserved_request := None\<rparr>))"

section \<open>The loop and the plain loop\<close>

lemma progress_take_greedy:
  "progress_take cfg limit mx n c rs = greedy_take cfg mx n c (take (nat (limit - n)) rs)"
proof (induction cfg limit mx n c rs rule: progress_take.induct)
  case (1 cfg limit mx n c)
  then show ?case by simp
next
  case (2 cfg limit mx n c r rs)
  show ?case
  proof (cases "limit \<le> n")
    case True
    then show ?thesis by simp
  next
    case False
    then have "nat (limit - n) = Suc (nat (limit - (n + 1)))" by simp
    with 2 False show ?thesis by (cases mx) auto
  qed
qed

lemma progress_take_append_drop:
  "progress_take cfg limit mx n c rs @ drop (length (progress_take cfg limit mx n c rs)) rs = rs"
proof -
  let ?t = "progress_take cfg limit mx n c rs" and ?p = "take (nat (limit - n)) rs"
  have "?t @ drop (length ?t) ?p = ?p"
    unfolding progress_take_greedy by (rule greedy_take_append_drop)
  then show ?thesis
    by (metis append.assoc append_eq_conv_conj append_take_drop_id)
qed

section \<open>Order of the queue\<close>

lemma batchable_prefix_sorted:
  "sorted (map lane_key p) \<Longrightarrow> filter (\<lambda>q. \<not> runs_alone q) p = takeWhile (\<lambda>q. \<not> runs_alone q) p"
proof (induction p)
  case Nil
  then show ?case by simp
next
  case (Cons q p)
  show ?case
  proof (cases "runs_alone q")
    case True
    have "runs_alone u" if "u \<in> set p" for u
    proof -
      from Cons.prems that have "lane_key q \<le> lane_key u" by simp
      with True show ?thesis by (auto simp: lane_key_def less_eq_prod_def)
    qed
    with True show ?thesis by (simp add: filter_empty_conv)
  next
    case False
    with Cons show ?thesis by simp
  qed
qed

lemma order_pending_batchable_prefix:
  assumes "order_pending l reqs \<noteq> []" and "\<not> runs_alone (hd (order_pending l reqs))"
  shows "filter (\<lambda>q. \<not> runs_alone q) (order_pending l reqs) =
    takeWhile (\<lambda>q. \<not> runs_alone q) (order_pending l reqs)"
proof (cases "\<exists>r \<in> set reqs. runs_alone r")
  case True
  let ?p = "sort_key lane_key reqs"
  let ?i = "length (takeWhile (\<lambda>r. \<not> runs_alone r) ?p)"
  from True have "\<exists>r \<in> set ?p. runs_alone r" by simp
  then have "runs_alone (?p ! ?i)"
    using nth_length_takeWhile head_index_in_range by blast
  with True assms(2) have "order_pending l reqs = ?p"
    by (auto simp: order_pending_def order_runs_alone_lane_def Let_def split: if_splits)
  then show ?thesis using batchable_prefix_sorted [of ?p] by simp
next
  case False
  then have "\<forall>q \<in> set (order_pending l reqs). \<not> runs_alone q" by auto
  then show ?thesis by (metis filter_True takeWhile_eq_all_conv)
qed

text \<open>Rotation: the queue keeps its requests and starts with the reserved one.\<close>

lemma rotate_reserved_turn:
  assumes turn: "reserved_turn (Some x) p" and x: "x \<in> set p" "\<not> runs_alone x"
    and prefix: "filter (\<lambda>q. \<not> runs_alone q) p = takeWhile (\<lambda>q. \<not> runs_alone q) p"
    and dist: "distinct (map oid p)"
    and rot: "rotate_reserved (Some x) p = (p', limit)"
  shows "mset p' = mset p" and "\<exists>t. p' = x # t" and "0 < limit"
proof -
  obtain ys zs where p: "p = ys @ x # zs" using x(1) by (auto dest: split_list)
  from dist p have "oid x \<notin> oid ` set ys" by simp
  then have ys: "\<forall>q \<in> set ys. oid q \<noteq> oid x" by (metis imageI)
  then have ri: "takeWhile (\<lambda>q. oid q \<noteq> oid x) p = ys"
    using p by (simp add: takeWhile_append2)
  have "\<forall>q \<in> set ys. \<not> runs_alone q"
  proof (rule ccontr)
    assume "\<not> (\<forall>q \<in> set ys. \<not> runs_alone q)"
    then have "takeWhile (\<lambda>q. \<not> runs_alone q) p = takeWhile (\<lambda>q. \<not> runs_alone q) ys"
      using p by (auto simp: takeWhile_append1)
    with prefix have "set (filter (\<lambda>q. \<not> runs_alone q) p) \<subseteq> set ys"
      by (metis set_takeWhileD subsetI)
    with x ys show False by auto
  qed
  then have be: "takeWhile (\<lambda>q. \<not> runs_alone q) p = ys @ x # takeWhile (\<lambda>q. \<not> runs_alone q) zs"
    using p x(2) by (simp add: takeWhile_append2)
  define T where "T = takeWhile (\<lambda>q. \<not> runs_alone q) zs"
  define D where "D = dropWhile (\<lambda>q. \<not> runs_alone q) zs"
  have zs: "zs = T @ D" by (simp add: T_def D_def)
  have "rotate_reserved (Some x) p =
      (drop (length ys) (take (length (ys @ x # T)) p) @ take (length ys) p @
         drop (length (ys @ x # T)) p,
       int (length (ys @ x # T)) - int (length ys))"
    using turn by (simp add: rotate_reserved_def Let_def ri be [folded T_def])
  moreover have "p = (ys @ x # T) @ D" by (simp add: p zs)
  ultimately have "(p', limit) = (x # T @ ys @ D, int (Suc (length T)))"
    using rot by simp
  then show "mset p' = mset p" "\<exists>t. p' = x # t" "0 < limit"
    by (auto simp: p zs)
qed

section \<open>The invariant\<close>

definition arrival_list :: "('p, 'm) progress_former \<Rightarrow> ('p, 'm) pending_request list" where
  "arrival_list s = map snd (arrivals s)"

definition batchable_arrivals :: "('p, 'm) progress_former \<Rightarrow> ('p, 'm) pending_request list" where
  "batchable_arrivals s = filter (\<lambda>r. \<not> runs_alone r) (arrival_list s)"

definition pf_inv :: "('p, 'm) progress_former \<Rightarrow> bool" where
  "pf_inv s =
     (bf_inv s \<and>
      od_keys (arrivals s) = map oid (arrival_list s) \<and>
      mset (arrival_list s) = mset (pending s) \<and>
      (\<forall>x. reserved_request s = Some x \<longrightarrow> (\<exists>t. batchable_arrivals s = x # t)))"

lemma oldest_batchable_hd:
  "oldest_batchable s = (case batchable_arrivals s of [] \<Rightarrow> None | x # t \<Rightarrow> Some x)"
proof -
  have "find P xs = (case filter P xs of [] \<Rightarrow> None | x # t \<Rightarrow> Some x)"
    for P and xs :: "('a, 'b) pending_request list"
    by (induction xs) auto
  then show ?thesis
    by (simp add: oldest_batchable_def batchable_arrivals_def arrival_list_def)
qed

lemma pf_inv_new: "pf_inv (new_progress_former c)"
  by (simp add: pf_inv_def new_progress_former_def new_batch_former_def batch_former.defs
      bf_inv_def od_keys_def arrival_list_def)

lemma append_item_more [simp]: "batch_former.more (append_item it md arr now s) = batch_former.more s"
  by (simp add: append_item_def Let_def)

lemma append_item_progress [simp]:
  "arrivals (append_item it md arr now s) = arrivals s"
  "reserved_request (append_item it md arr now s) = reserved_request s"
  by (simp_all add: append_item_def Let_def)

lemma progress_append_fields [simp]:
  "pending (progress_append_item it md arr now s) = pending (append_item it md arr now s)"
  "config (progress_append_item it md arr now s) = config s"
  "reserved_request (progress_append_item it md arr now s) = reserved_request s"
  "last_batch_alone (progress_append_item it md arr now s) = last_batch_alone s"
  by (simp_all add: progress_append_item_def Let_def)

lemma arrivals_append:
  assumes "pf_inv s"
  shows "arrivals (progress_append_item it md arr now s) = arrivals s @
    [(next_oid s, \<lparr>oid = next_oid s, item = it, metadata = md, arrival_time = arr,
       runs_alone = item_runs_alone it\<rparr>)]"
proof -
  have "set (arrival_list s) = set (pending s)"
    using assms set_mset_cong by (auto simp: pf_inv_def)
  then have "\<not> od_mem (next_oid s) (arrivals s)"
    using assms by (auto simp: pf_inv_def bf_inv_def od_mem_def)
  then show ?thesis
    by (simp add: progress_append_item_def Let_def od_set_def)
qed

lemma bf_inv_arrivals_update [simp]: "bf_inv (s\<lparr>arrivals := a\<rparr>) = bf_inv s"
  by (simp add: bf_inv_def)

lemma pf_inv_append: "pf_inv s \<Longrightarrow> pf_inv (progress_append_item it md arr now s)"
proof -
  assume inv: "pf_inv s"
  note a = arrivals_append [OF inv, of it md arr now]
  have "bf_inv (progress_append_item it md arr now s)"
    using inv by (simp add: pf_inv_def progress_append_item_def Let_def bf_inv_append)
  with inv a show ?thesis
    by (auto simp: pf_inv_def arrival_list_def batchable_arrivals_def od_keys_def)
qed

section \<open>Extraction\<close>

lemma reservation_pending:
  assumes "pf_inv s" and "reserved_request s = Some x"
  shows "x \<in> set (pending s)" and "\<not> runs_alone x"
proof -
  from assms obtain t where "batchable_arrivals s = x # t" by (auto simp: pf_inv_def)
  then have "x \<in> set (batchable_arrivals s)" by simp
  then have "x \<in> set (arrival_list s)" "\<not> runs_alone x"
    by (simp_all add: batchable_arrivals_def)
  moreover have "set (arrival_list s) = set (pending s)"
    using assms(1) set_mset_cong by (auto simp: pf_inv_def)
  ultimately show "x \<in> set (pending s)" and "\<not> runs_alone x" by auto
qed

lemma rotate_reserved_facts:
  assumes inv: "pf_inv s"
    and p: "p = order_pending (last_batch_alone s) (pending s)"
    and rot: "rotate_reserved (reserved_request s) p = (p', limit)"
  shows "mset p' = mset p" and "p \<noteq> [] \<Longrightarrow> 0 < limit"
    and "reserved_turn (reserved_request s) p \<Longrightarrow> reserved_request s = Some x \<Longrightarrow> \<exists>t. p' = x # t"
    and "\<not> reserved_turn (reserved_request s) p \<Longrightarrow> p' = p \<and> limit = int (length p)"
proof -
  have "mset p' = mset p \<and> (p \<noteq> [] \<longrightarrow> 0 < limit) \<and>
    (reserved_turn (reserved_request s) p \<longrightarrow> (\<forall>x. reserved_request s = Some x \<longrightarrow> (\<exists>t. p' = x # t))) \<and>
    (\<not> reserved_turn (reserved_request s) p \<longrightarrow> p' = p \<and> limit = int (length p))"
  proof (cases "reserved_turn (reserved_request s) p")
    case True
    then obtain x where x: "reserved_request s = Some x" by (auto simp: reserved_turn_def)
    have xp: "x \<in> set p" "\<not> runs_alone x"
      using reservation_pending [OF inv x] p by auto
    have "filter (\<lambda>q. \<not> runs_alone q) p = takeWhile (\<lambda>q. \<not> runs_alone q) p"
      using True unfolding p reserved_turn_def by (intro order_pending_batchable_prefix) auto
    moreover have "distinct (map oid p)"
      using inv p distinct_map_mset_cong [of p "pending s" oid] by (simp add: pf_inv_def bf_inv_def)
    ultimately show ?thesis
      using rotate_reserved_turn [of x p p' limit] True rot xp x by simp
  next
    case False
    with rot show ?thesis by (auto simp: rotate_reserved_def split: option.splits)
  qed
  then show "mset p' = mset p" and "p \<noteq> [] \<Longrightarrow> 0 < limit"
    and "reserved_turn (reserved_request s) p \<Longrightarrow> reserved_request s = Some x \<Longrightarrow> \<exists>t. p' = x # t"
    and "\<not> reserved_turn (reserved_request s) p \<Longrightarrow> p' = p \<and> limit = int (length p)"
    by auto
qed

lemma progress_select_facts:
  assumes inv: "pf_inv s" and sel: "progress_select mx s = (ts, rest)"
  shows "mset (pending s) = mset ts + mset rest"
    and "\<exists>q. ts = greedy_take (config s) mx 0 0 q"
    and "pending s \<noteq> [] \<Longrightarrow> (\<And>k. mx = Some k \<Longrightarrow> 0 < k) \<Longrightarrow> ts \<noteq> []"
    and "reserved_turn (reserved_request s) (order_pending (last_batch_alone s) (pending s)) \<Longrightarrow>
      reserved_request s = Some x \<Longrightarrow> ts \<noteq> [] \<Longrightarrow> hd ts = x"
    and "\<not> reserved_turn (reserved_request s) (order_pending (last_batch_alone s) (pending s)) \<Longrightarrow>
      ts @ rest = order_pending (last_batch_alone s) (pending s)"
proof -
  let ?p = "order_pending (last_batch_alone s) (pending s)"
  obtain p' limit where rot: "rotate_reserved (reserved_request s) ?p = (p', limit)" by fastforce
  note r = rotate_reserved_facts [OF inv refl rot]
  from sel rot have ts: "ts = progress_take (config s) limit mx 0 0 p'" "rest = drop (length ts) p'"
    by (auto simp: progress_select_def Let_def)
  have app: "ts @ rest = p'" using ts progress_take_append_drop by metis
  then show "mset (pending s) = mset ts + mset rest"
    using r(1) by (metis mset_append mset_order_pending)
  show "\<exists>q. ts = greedy_take (config s) mx 0 0 q"
    using ts(1) progress_take_greedy by blast
  show "ts \<noteq> []" if ne: "pending s \<noteq> []" and k: "\<And>k. mx = Some k \<Longrightarrow> 0 < k"
  proof -
    from ne have "?p \<noteq> []" by (metis length_order_pending length_0_conv)
    with r(1) have "p' \<noteq> []" by auto
    moreover have "0 < nat limit" using r(2) \<open>?p \<noteq> []\<close> by simp
    ultimately have "take (nat limit) p' \<noteq> []" by simp
    then show ?thesis
      using greedy_take_nonempty [of "take (nat limit) p'" mx "config s"] k
      by (simp add: ts(1) progress_take_greedy)
  qed
  show "hd ts = x" if "reserved_turn (reserved_request s) ?p" "reserved_request s = Some x" "ts \<noteq> []"
    using r(3) [OF that(1,2)] app that(3) by (metis hd_append list.sel(1))
  show "ts @ rest = ?p" if "\<not> reserved_turn (reserved_request s) ?p"
    using r(4) [OF that] app by simp
qed

lemma fold_od_del:
  "fold (\<lambda>r d. od_del (oid r) d) ts d = filter (\<lambda>p. fst p \<notin> oid ` set ts) d"
proof (induction ts arbitrary: d)
  case Nil
  then show ?case by simp
next
  case (Cons t ts)
  then show ?case by (auto simp: od_del_def intro: filter_cong)
qed

lemma progress_extract_fields:
  assumes "progress_select mx s = (ts, rest)" and "progress_extract_batch mx s = (b, s')"
  shows "b = batch_of ts" and "pending s' = rest" and "config s' = config s"
    and "pending_cost s' = pending_cost s - requests_cost ts"
    and "last_batch_alone s' = (if ts = [] then last_batch_alone s else Some (runs_alone (hd ts)))"
    and "next_oid s' = next_oid s"
    and "first_request_time s' = (if rest = [] then None else first_request_time s)"
    and "last_submit_time s' = (if rest = [] then None else last_submit_time s)"
    and "arrivals s' = filter (\<lambda>p. fst p \<notin> oid ` set ts) (arrivals s)"
    and "reserved_request s' = (if rest = [] then None else next_reservation ts rest s)"
  using assms by (auto simp: progress_extract_batch_def Let_def fold_od_del split: if_splits)

lemma arrival_list_extract:
  assumes "pf_inv s" and "progress_select mx s = (ts, rest)" and "progress_extract_batch mx s = (b, s')"
  shows "arrival_list s' = filter (\<lambda>r. oid r \<notin> oid ` set ts) (arrival_list s)"
    and "od_keys (arrivals s') = map oid (arrival_list s')"
    and "mset (arrival_list s') = mset rest"
proof -
  note f = progress_extract_fields [OF assms(2,3)]
  have keys: "map fst (arrivals s) = map (\<lambda>p. oid (snd p)) (arrivals s)"
    using assms(1) by (simp add: pf_inv_def od_keys_def arrival_list_def comp_def)
  then have k: "fst p = oid (snd p)" if "p \<in> set (arrivals s)" for p
    using that by (simp add: map_eq_conv)
  have eq: "arrivals s' = filter (\<lambda>p. oid (snd p) \<notin> oid ` set ts) (arrivals s)"
    unfolding f(9) by (rule filter_cong) (auto simp: k)
  then show A: "arrival_list s' = filter (\<lambda>r. oid r \<notin> oid ` set ts) (arrival_list s)"
    by (simp add: arrival_list_def filter_map comp_def)
  show "od_keys (arrivals s') = map oid (arrival_list s')"
    using eq k by (auto simp: od_keys_def arrival_list_def map_eq_conv)
  have m: "mset (arrival_list s) = mset (ts @ rest)"
    using assms(1) progress_select_facts(1) [OF assms(1,2)] by (simp add: pf_inv_def)
  have "distinct (map oid (ts @ rest))"
    using assms(1) m distinct_map_mset_cong [of "pending s" "ts @ rest" oid]
    by (simp add: pf_inv_def bf_inv_def)
  then have "oid ` set ts \<inter> oid ` set rest = {}" by simp
  then have "filter (\<lambda>r. oid r \<notin> oid ` set ts) (ts @ rest) = rest"
    by (auto simp: filter_empty_conv filter_id_conv)
  then show "mset (arrival_list s') = mset rest"
    using m A by (metis mset_filter)
qed

lemma batchable_arrivals_extract:
  assumes "pf_inv s" and "progress_select mx s = (ts, rest)" and "progress_extract_batch mx s = (b, s')"
  shows "batchable_arrivals s' = filter (\<lambda>r. oid r \<notin> oid ` set ts) (batchable_arrivals s)"
  unfolding batchable_arrivals_def arrival_list_extract(1) [OF assms]
  by (simp add: conj_commute)

lemma oid_inj:
  assumes "bf_inv s" and "r \<in> set (pending s)" and "q \<in> set (pending s)" and "oid r = oid q"
  shows "r = q"
  using assms by (auto simp: bf_inv_def distinct_map inj_on_def)

text \<open>A turn of the flagged lane, or one that takes nothing, leaves every batchable request.\<close>

lemma batchable_not_taken:
  assumes inv: "pf_inv s" and sel: "progress_select mx s = (ts, rest)"
    and lane: "ts = [] \<or> runs_alone (hd ts)"
    and r: "r \<in> set (pending s)" "\<not> runs_alone r"
  shows "oid r \<notin> oid ` set ts"
proof
  assume "oid r \<in> oid ` set ts"
  then obtain q where q: "q \<in> set ts" "oid r = oid q" by auto
  then have "ts \<noteq> []" by auto
  with lane have hd: "hd ts \<in> set ts" "runs_alone (hd ts)" by auto
  obtain g where g: "ts = greedy_take (config s) mx 0 0 g"
    using progress_select_facts(2) [OF inv sel] by blast
  with hd greedy_take_alone [of "hd ts" "config s" mx g] have "ts = [hd ts]" by metis
  with q(1) have "q = hd ts" by (metis list.set(1) list.set(2) singletonD)
  with hd have "runs_alone q" by simp
  moreover have "q \<in> set (pending s)"
    using progress_select_facts(1) [OF inv sel] set_mset_cong [of "pending s" "ts @ rest"] q(1) by simp
  then have "r = q" using inv r(1) q(2) by (auto simp: pf_inv_def intro: oid_inj)
  ultimately show False using r(2) by simp
qed

text \<open>A batchable turn that is not reserved starts without a reservation.\<close>

lemma no_reservation_unless_turn:
  assumes inv: "pf_inv s" and sel: "progress_select mx s = (ts, rest)"
    and "ts \<noteq> []" "\<not> runs_alone (hd ts)"
    and turn: "\<not> reserved_turn (reserved_request s) (order_pending (last_batch_alone s) (pending s))"
  shows "reserved_request s = None"
proof -
  let ?p = "order_pending (last_batch_alone s) (pending s)"
  have "ts @ rest = ?p" by (rule progress_select_facts(5) [OF inv sel turn])
  with assms(3,4) have "?p \<noteq> []" "\<not> runs_alone (hd ?p)" by (metis Nil_is_append_conv, metis hd_append)
  with turn show ?thesis by (simp add: reserved_turn_def)
qed

lemma next_reservation_batched:
  assumes inv: "pf_inv s" and sel: "progress_select mx s = (ts, rest)"
    and "ts \<noteq> []" "\<not> runs_alone (hd ts)" and "rest \<noteq> []" and B: "batchable_arrivals s = x # t"
  shows "next_reservation ts rest s =
    (if reserved_request s = None \<and> oid x \<notin> oid ` set ts then Some x else None)"
proof (cases "reserved_turn (reserved_request s) (order_pending (last_batch_alone s) (pending s))")
  case True
  then have "reserved_request s \<noteq> None" by (simp add: reserved_turn_def)
  with True assms show ?thesis by (auto simp: next_reservation_def)
next
  case False
  with no_reservation_unless_turn [OF inv sel assms(3,4)] assms show ?thesis
    by (simp add: next_reservation_def oldest_batchable_hd)
qed

lemma pf_inv_extract:
  assumes inv: "pf_inv s" and ex: "progress_extract_batch mx s = (b, s')"
  shows "pf_inv s'"
proof -
  obtain ts rest where sel: "progress_select mx s = (ts, rest)" by fastforce
  note f = progress_extract_fields [OF sel ex] and a = arrival_list_extract [OF inv sel ex]
    and m = progress_select_facts(1) [OF inv sel] and B' = batchable_arrivals_extract [OF inv sel ex]
  have bf: "bf_inv s" using inv by (simp add: pf_inv_def)
  have setp: "set (pending s) = set ts \<union> set rest"
    using set_mset_cong [of "pending s" "ts @ rest"] m by simp
  have "requests_cost (pending s) = requests_cost (ts @ rest)"
    using m by (intro sum_list_mset_cong) simp
  moreover have "distinct (map oid (ts @ rest))"
    using m bf distinct_map_mset_cong [of "pending s" "ts @ rest" oid] by (simp add: bf_inv_def)
  ultimately have bf': "bf_inv s'"
    using bf f m setp by (auto simp: bf_inv_def)
  have "\<exists>t. batchable_arrivals s' = x # t" if x: "reserved_request s' = Some x" for x
  proof -
    from x f(10) have rest: "rest \<noteq> []" and nx: "next_reservation ts rest s = Some x"
      by (auto split: if_splits)
    show ?thesis
    proof (cases "ts \<noteq> [] \<and> \<not> runs_alone (hd ts)")
      case True
      have "batchable_arrivals s \<noteq> []"
      proof -
        have "hd ts \<in> set (arrival_list s)"
          using True setp inv set_mset_cong by (metis hd_in_set pf_inv_def UnI1)
        with True show ?thesis by (auto simp: batchable_arrivals_def filter_empty_conv)
      qed
      then obtain y t where y: "batchable_arrivals s = y # t" by (cases "batchable_arrivals s") auto
      with next_reservation_batched [OF inv sel _ _ rest y] True nx
      have "y = x" "oid x \<notin> oid ` set ts" by (auto split: if_splits)
      with y B' show ?thesis by simp
    next
      case False
      with nx have res: "reserved_request s = Some x" by (auto simp: next_reservation_def)
      with inv obtain t where y: "batchable_arrivals s = x # t" by (auto simp: pf_inv_def)
      have "oid x \<notin> oid ` set ts"
        using batchable_not_taken [OF inv sel] False reservation_pending [OF inv res] by blast
      with y B' show ?thesis by simp
    qed
  qed
  with bf' a f(2) show ?thesis by (simp add: pf_inv_def)
qed

lemma pf_inv_drain: "pf_inv s \<Longrightarrow> pf_inv (snd (progress_drain_pending s))"
  by (auto simp: pf_inv_def progress_drain_pending_def drain_pending_def bf_inv_def
      od_keys_def arrival_list_def batchable_arrivals_def)

lemma progress_within_limits:
  assumes inv: "pf_inv s"
  shows "within_limits (config s) (fst (progress_extract_batch mx s))"
proof -
  obtain ts rest where sel: "progress_select mx s = (ts, rest)" by fastforce
  have b: "fst (progress_extract_batch mx s) = batch_of ts"
    using progress_extract_fields(1) [OF sel] by (metis prod.collapse)
  obtain g where ts: "ts = greedy_take (config s) mx 0 0 g"
    using progress_select_facts(2) [OF inv sel] by blast
  have "set ts \<subseteq> set (pending s)"
    using progress_select_facts(1) [OF inv sel] set_mset_cong [of "pending s" "ts @ rest"] by simp
  then have flag: "\<And>r. r \<in> set ts \<Longrightarrow> item_runs_alone (item r) = runs_alone r"
    using inv by (auto simp: pf_inv_def bf_inv_def)
  show ?thesis unfolding b by (rule batch_of_within_limits [OF ts flag])
qed

interpretation pq: batch_queue
  "pending :: ('p, 'm) progress_former \<Rightarrow> ('p, 'm) pending_request list"
  config progress_append_item progress_extract_batch pf_inv
proof unfold_locales
  fix s :: "('p, 'm) progress_former" and mx
  obtain ts rest where sel: "progress_select mx s = (ts, rest)" by fastforce
  note f = progress_extract_fields [OF sel prod.collapse [symmetric]]
  show "config (snd (progress_extract_batch mx s)) = config s" by (rule f(3))
  assume inv: "pf_inv s"
  show "pf_inv (snd (progress_extract_batch mx s))"
    by (rule pf_inv_extract [OF inv prod.collapse [symmetric]])
  show "\<exists>ts. fst (progress_extract_batch mx s) = batch_of ts \<and>
      mset (pending s) = mset ts + mset (pending (snd (progress_extract_batch mx s)))"
    using f(1,2) progress_select_facts(1) [OF inv sel] by auto
  assume "pending s \<noteq> []" and "\<And>k. mx = Some k \<Longrightarrow> 0 < k"
  then have "ts \<noteq> []" by (rule progress_select_facts(3) [OF inv sel])
  then show "batch_items (fst (progress_extract_batch mx s)) \<noteq> []"
    by (simp add: f(1) batch_of_def)
qed (auto intro: pf_inv_append progress_within_limits)

section \<open>Bounded bypassing\<close>

fun progress_turns ::
    "nat \<Rightarrow> ('p, 'm) former_event list \<Rightarrow> ('p, 'm) progress_former \<Rightarrow> nat" where
  "progress_turns i [] s = 0"
| "progress_turns i (Submit it md arr now # es) s =
     progress_turns i es (progress_append_item it md arr now s)"
| "progress_turns i (Extract mx # es) s =
     (let (ts, rest) = progress_select mx s
      in if i \<in> oid ` set ts then 0
         else (if ts \<noteq> [] \<and> \<not> runs_alone (hd ts) then 1 else 0) +
              progress_turns i es (snd (progress_extract_batch mx s)))"

definition bypass_bound :: "nat \<Rightarrow> ('p, 'm) progress_former \<Rightarrow> nat" where
  "bypass_bound i s =
     2 * requests_ahead i (batchable_arrivals s) + (if reserved_request s = None then 1 else 0)"

lemma requests_ahead_filter:
  assumes "\<And>q. oid q = i \<Longrightarrow> P q"
  shows "requests_ahead i (filter P xs) \<le> requests_ahead i xs"
  using assms by (induction xs) (auto simp: requests_ahead_Cons requests_ahead_def)

lemma requests_ahead_drop_head:
  assumes "\<And>q. oid q = i \<Longrightarrow> P q" and "\<not> P x"
  shows "Suc (requests_ahead i (filter P (x # xs))) \<le> requests_ahead i (x # xs)"
proof -
  have "oid x \<noteq> i" using assms by blast
  with assms(2) requests_ahead_filter [of i P xs, OF assms(1)] show ?thesis
    by (simp add: requests_ahead_Cons)
qed

lemma bypass_bound_extract:
  assumes inv: "pf_inv s" and r: "r \<in> set (pending s)" "\<not> runs_alone r"
    and sel: "progress_select mx s = (ts, rest)" and out: "oid r \<notin> oid ` set ts"
    and ex: "progress_extract_batch mx s = (b, s')"
  shows "(if ts \<noteq> [] \<and> \<not> runs_alone (hd ts) then 1 else 0) + bypass_bound (oid r) s'
    \<le> bypass_bound (oid r) s"
proof -
  note f = progress_extract_fields [OF sel ex] and B' = batchable_arrivals_extract [OF inv sel ex]
  let ?P = "\<lambda>q. oid q \<notin> oid ` set ts"
  have setp: "set (pending s) = set ts \<union> set rest"
    using set_mset_cong [of "pending s" "ts @ rest"] progress_select_facts(1) [OF inv sel] by simp
  with r out have rest: "rest \<noteq> []" by auto
  have rB: "r \<in> set (batchable_arrivals s)"
    using r inv set_mset_cong by (auto simp: batchable_arrivals_def pf_inv_def)
  then obtain x t where B: "batchable_arrivals s = x # t" by (cases "batchable_arrivals s") auto
  have le: "requests_ahead (oid r) (filter ?P (x # t)) \<le> requests_ahead (oid r) (x # t)"
    using requests_ahead_filter [of "oid r" ?P "x # t"] out by simp
  show ?thesis
  proof (cases "ts \<noteq> [] \<and> \<not> runs_alone (hd ts)")
    case False
    then have "reserved_request s' = reserved_request s"
      using f(10) rest by (auto simp: next_reservation_def)
    with False le B B' show ?thesis by (auto simp: bypass_bound_def)
  next
    case True
    have res: "reserved_request s' =
        (if reserved_request s = None \<and> oid x \<notin> oid ` set ts then Some x else None)"
      using f(10) rest next_reservation_batched [OF inv sel _ _ rest B] True by simp
    have hdx: "oid x \<in> oid ` set ts" if "reserved_request s \<noteq> None"
    proof -
      from that inv B have x: "reserved_request s = Some x" by (auto simp: pf_inv_def)
      have turn: "reserved_turn (reserved_request s) (order_pending (last_batch_alone s) (pending s))"
        using no_reservation_unless_turn [OF inv sel] True that by blast
      have "hd ts = x" using progress_select_facts(4) [OF inv sel turn x] True by simp
      with True show ?thesis by (metis hd_in_set imageI)
    qed
    show ?thesis
    proof (cases "oid x \<in> oid ` set ts")
      case taken: True
      have "Suc (requests_ahead (oid r) (filter ?P (x # t))) \<le> requests_ahead (oid r) (x # t)"
        using requests_ahead_drop_head [of "oid r" ?P x t] out taken by simp
      with True res taken B B' show ?thesis by (auto simp: bypass_bound_def)
    next
      case False
      with hdx have "reserved_request s = None" by auto
      with True res False le B B' show ?thesis by (auto simp: bypass_bound_def)
    qed
  qed
qed

lemma progress_turns_bounded:
  assumes "pf_inv s" and "r \<in> set (pending s)" and "\<not> runs_alone r"
  shows "progress_turns (oid r) es s \<le> bypass_bound (oid r) s"
  using assms
proof (induction es arbitrary: s)
  case Nil
  then show ?case by simp
next
  case (Cons e es)
  show ?case
  proof (cases e)
    case (Submit it md arr now)
    let ?s = "progress_append_item it md arr now s"
    have "progress_turns (oid r) es ?s \<le> bypass_bound (oid r) ?s"
      using Cons.prems by (intro Cons.IH) (auto intro: pf_inv_append)
    moreover have "oid r \<in> oid ` set (batchable_arrivals s)"
      using Cons.prems set_mset_cong by (fastforce simp: batchable_arrivals_def pf_inv_def)
    then have "bypass_bound (oid r) ?s = bypass_bound (oid r) s"
      using arrivals_append [OF Cons.prems(1), of it md arr now]
      by (simp add: bypass_bound_def batchable_arrivals_def arrival_list_def requests_ahead_append)
    ultimately show ?thesis using Submit by simp
  next
    case (Extract mx)
    obtain ts rest where sel: "progress_select mx s = (ts, rest)" by fastforce
    obtain b s' where ex: "progress_extract_batch mx s = (b, s')" by fastforce
    show ?thesis
    proof (cases "oid r \<in> oid ` set ts")
      case True
      with Extract sel show ?thesis by simp
    next
      case False
      have "r \<in> set (pending s')"
        using progress_extract_fields(2) [OF sel ex] progress_select_facts(1) [OF Cons.prems(1) sel]
          set_mset_cong [of "pending s" "ts @ rest"] Cons.prems(2) False by auto
      then have "progress_turns (oid r) es s' \<le> bypass_bound (oid r) s'"
        using Cons.prems pf_inv_extract [OF Cons.prems(1) ex] by (intro Cons.IH)
      with bypass_bound_extract [OF Cons.prems sel False ex] Extract sel ex False show ?thesis by simp
    qed
  qed
qed

section \<open>Properties\<close>

text \<open>
  Whatever the order of submissions and extractions on a fresh
  \<^verbatim>\<open>ProgressBatchFormer\<close>, every submitted (item, metadata) pair is in exactly one of the
  batches handed out or still pending.
\<close>

theorem progress_exactly_once:
  "mset (submitted es) =
     mset (concat (map batch_pairs
       (fst (former_run progress_append_item progress_extract_batch es (new_progress_former c))))) +
     mset (request_pairs (pending
       (snd (former_run progress_append_item progress_extract_batch es (new_progress_former c)))))"
proof -
  have "pending (new_progress_former c :: ('a, 'b) progress_former) = []"
    by (simp add: new_progress_former_def new_batch_former_def batch_former.defs)
  with pq.exactly_once [OF pf_inv_new prod.collapse [symmetric], of c es] show ?thesis by simp
qed

text \<open>
  C33. Bounded bypassing: a batchable request with \<open>k\<close> older batchable requests pending is
  passed over by at most \<open>2 k + 1\<close> batchable batches, whatever else arrives and however
  the extractions are capped.
\<close>

theorem progress_bounded_bypass:
  assumes "pf_inv s" and "r \<in> set (pending s)" and "\<not> runs_alone r"
  shows "progress_turns (oid r) es s \<le> 2 * requests_ahead (oid r) (batchable_arrivals s) + 1"
  using progress_turns_bounded [OF assms, of es] by (simp add: bypass_bound_def split: if_splits)

text \<open>
  The reservation of a \<^verbatim>\<open>ProgressBatchFormer\<close> is, in every state reachable by
  submissions and extractions, a pending batchable request and the oldest of those, so the
  searches for it in the queue always succeed.
\<close>

theorem progress_reservation_valid:
  assumes "s = snd (former_run progress_append_item progress_extract_batch es (new_progress_former c))"
    and "reserved_request s = Some x"
  shows "x \<in> set (pending s) \<and> \<not> runs_alone x \<and> oldest_batchable s = Some x"
proof -
  have inv: "pf_inv s" using pq.invar_run [OF pf_inv_new, of es c] assms(1) by simp
  with assms(2) show ?thesis
    using reservation_pending [OF inv assms(2)] by (auto simp: pf_inv_def oldest_batchable_hd)
qed

definition demo_item :: "int \<Rightarrow> unit prepared_item" where
  "demo_item c = \<lparr>payload = (), cost = c, original_index = 0, item_runs_alone = False\<rparr>"

definition demo_progress :: "(unit, nat) progress_former" where
  "demo_progress = snd (former_run progress_append_item progress_extract_batch
     [Submit (demo_item 9) 0 0 0, Submit (demo_item 1) 1 0 0]
     (new_progress_former (Some (make_batch_config 9 8 15 None 15 (1 / 2)))))"

lemmas demo_progress_simps = demo_progress_def demo_item_def new_progress_former_def
  new_batch_former_def make_batch_config_def batch_former.defs progress_append_item_def
  append_item_def Let_def should_yield_batch_def batch_is_full_def batch_timeout_expired_def
  coalesce_expired_def capped_coalesce_ms_def effective_coalesce_ms_def od_set_def od_mem_def
  od_keys_def

lemma demo_progress_inv: "pf_inv demo_progress"
  unfolding demo_progress_def by (rule pq.invar_run [OF pf_inv_new])

theorem progress_bounded_bypass_witness:
  "\<exists>r \<in> set (pending demo_progress). \<not> runs_alone r \<and>
     progress_turns (oid r) [Extract None, Extract None] demo_progress
       \<le> 2 * requests_ahead (oid r) (batchable_arrivals demo_progress) + 1"
proof -
  let ?r = "hd (pending demo_progress)"
  have r: "?r \<in> set (pending demo_progress)" "\<not> runs_alone ?r"
    by (simp_all add: demo_progress_simps)
  from progress_bounded_bypass [OF demo_progress_inv r, of "[Extract None, Extract None]"] r
  show ?thesis by blast
qed

text \<open>One extraction of \<open>demo_progress\<close> takes the cheap request and reserves the older one.\<close>

definition demo_bypassed :: "(unit, nat) progress_former" where
  "demo_bypassed = snd (former_run progress_append_item progress_extract_batch
     [Submit (demo_item 9) 0 0 0, Submit (demo_item 1) 1 0 0, Extract None]
     (new_progress_former (Some (make_batch_config 9 8 15 None 15 (1 / 2)))))"

theorem progress_reservation_valid_witness:
  "\<exists>x. reserved_request demo_bypassed = Some x \<and> oid x = 0 \<and>
     x \<in> set (pending demo_bypassed) \<and> \<not> runs_alone x \<and> oldest_batchable demo_bypassed = Some x"
proof -
  have "\<exists>x. reserved_request demo_bypassed = Some x \<and> oid x = 0"
    by (simp add: demo_bypassed_def demo_progress_simps progress_extract_batch_def
        progress_select_def rotate_reserved_def order_pending_def next_reservation_def
        reserved_turn_def oldest_batchable_def od_del_def)
  then obtain x where x: "reserved_request demo_bypassed = Some x" "oid x = 0" by blast
  from progress_reservation_valid [OF demo_bypassed_def x(1)] x show ?thesis by blast
qed

end
