(* ===== verification/Work_Class_Scheduler.thy ===== *)
theory Work_Class_Scheduler
  imports Sie_Prelude "HOL-Library.Product_Lexorder" "HOL-Library.List_Lexorder"
    "HOL-Library.Char_ord"
begin

text \<open>
  The weighted-fair-queue scheduler of mixed worker pools:
  \<^verbatim>\<open>processors/work_class_scheduler.py\<close>. The class table is an ordered dictionary of
  class states; an \<^verbatim>\<open>asyncio.Future\<close> is an index into the list \<open>futures\<close> of future
  states. \<^verbatim>\<open>acquire\<close> is modelled up to its \<^verbatim>\<open>await\<close>: it returns \<open>None\<close> when the slot is
  granted at once and otherwise the future the caller waits on. Cancelling the waiting
  task cancels that future, which stays in the queue, as in the code.

  Shown: floors plus leases never exceed the pool, no class waits while it could be
  served, queues are first-in first-out, the shared slots are divided by weight, the
  idle flag is exact. Two weaknesses are shown too: a cancelled waiter's slot is lost,
  and a class without a floor can be locked out by the floors of the others.
\<close>

section \<open>State and operations\<close>

record work_class_config =
  weight :: real
  min_slots :: int

record fairness_config =
  total_slots :: int
  class_configs :: "(string, work_class_config) odict"

definition classify_work_class :: "string \<Rightarrow> string" where
  "classify_work_class op = (if op = ''generate'' then ''generation'' else ''embedding'')"

text \<open>The loop of \<^verbatim>\<open>validate\<close> over the classes, with its accumulator \<open>floor_sum\<close>.\<close>

fun validate_classes :: "int \<Rightarrow> (string, work_class_config) odict \<Rightarrow> int result" where
  "validate_classes floor_sum [] = Inr floor_sum"
| "validate_classes floor_sum ((name, c) # cs) =
     (if weight c \<le> 0 then Inl (ValueError ''weight must be > 0'')
      else if min_slots c < 0 then Inl (ValueError ''min_slots must be >= 0'')
      else validate_classes (floor_sum + min_slots c) cs)"

definition validate :: "fairness_config \<Rightarrow> unit result" where
  "validate fc =
     (if total_slots fc < 1 then Inl (ValueError ''total_slots must be >= 1'')
      else if class_configs fc = [] then Inl (ValueError ''at least one class'')
      else case validate_classes 0 (class_configs fc) of
             Inl e \<Rightarrow> Inl e
           | Inr floor_sum \<Rightarrow>
               if total_slots fc < floor_sum then Inl (ValueError ''sum(min_slots) exceeds total_slots'')
               else Inr ())"

datatype fut_state = Pending | Resolved | Cancelled

record class_state =
  cfg :: work_class_config
  leased :: int
  virtual_time :: real
  waiters :: "nat list"

record scheduler =
  sched_config :: fairness_config
  classes :: "(string, class_state) odict"
  idle :: bool
  futures :: "fut_state list"

definition new_scheduler :: "fairness_config \<Rightarrow> scheduler result" where
  "new_scheduler fc =
     (case validate fc of
        Inl e \<Rightarrow> Inl e
      | Inr _ \<Rightarrow> Inr \<lparr>sched_config = fc,
          classes = map (\<lambda>(n, c). (n, \<lparr>cfg = c, leased = 0, virtual_time = 0, waiters = []\<rparr>))
                      (class_configs fc),
          idle = True, futures = []\<rparr>)"

definition class_floor_gap :: "class_state \<Rightarrow> int" where
  "class_floor_gap st = max 0 (min_slots (cfg st) - leased st)"

definition reserved_for_others :: "string \<Rightarrow> scheduler \<Rightarrow> int" where
  "reserved_for_others c s =
     sum_list (map (\<lambda>p. class_floor_gap (snd p)) (filter (\<lambda>p. fst p \<noteq> c) (classes s)))"

definition total_leased :: "scheduler \<Rightarrow> int" where
  "total_leased s = sum_list (map (\<lambda>p. leased (snd p)) (classes s))"

datatype grant_kind = Floor | Shared

text \<open>Called for configured classes only; \<open>st\<close> is the class's own state.\<close>

definition kind_of_grant :: "string \<Rightarrow> class_state \<Rightarrow> scheduler \<Rightarrow> grant_kind option" where
  "kind_of_grant c st s =
     (if leased st < min_slots (cfg st) then Some Floor
      else if 0 < (total_slots (sched_config s) - total_leased s) - reserved_for_others c s
      then Some Shared else None)"

definition refresh_idle :: "scheduler \<Rightarrow> scheduler" where
  "refresh_idle s =
     s\<lparr>idle := (total_leased s = 0 \<and> list_all (\<lambda>p. waiters (snd p) = []) (classes s))\<rparr>"

definition grant :: "string \<Rightarrow> scheduler \<Rightarrow> scheduler" where
  "grant c s =
     s\<lparr>classes := od_update c
        (\<lambda>st. st\<lparr>leased := leased st + 1,
                 virtual_time :=
                   (if kind_of_grant c st s = Some Shared
                    then virtual_time st + 1 / weight (cfg st) else virtual_time st)\<rparr>)
        (classes s)\<rparr>"

definition resolve_one :: "string \<Rightarrow> scheduler \<Rightarrow> scheduler" where
  "resolve_one c s =
     (case map_of (classes s) c of
        None \<Rightarrow> s
      | Some st \<Rightarrow>
          let fut = hd (waiters st);
              s1 = s\<lparr>classes := od_update c (\<lambda>st. st\<lparr>waiters := tl (waiters st)\<rparr>) (classes s)\<rparr>;
              s2 = grant c s1
          in if futures s2 ! fut = Pending then s2\<lparr>futures := (futures s2)[fut := Resolved]\<rparr>
             else s2)"

text \<open>The class one turn of the pump serves: a floor slot first, else the most owed class.\<close>

definition floor_class :: "scheduler \<Rightarrow> string option" where
  "floor_class s =
     map_option fst (find (\<lambda>p. waiters (snd p) \<noteq> [] \<and>
       leased (snd p) < min_slots (cfg (snd p))) (classes s))"

definition eligible :: "scheduler \<Rightarrow> (real \<times> string) list" where
  "eligible s =
     map (\<lambda>p. (virtual_time (snd p), fst p))
       (filter (\<lambda>p. waiters (snd p) \<noteq> [] \<and> kind_of_grant (fst p) (snd p) s = Some Shared)
         (classes s))"

definition choose_class :: "scheduler \<Rightarrow> string option" where
  "choose_class s =
     (case floor_class s of
        Some c \<Rightarrow> Some c
      | None \<Rightarrow> (case sort (eligible s) of [] \<Rightarrow> None | (vt, c) # _ \<Rightarrow> Some c))"

definition total_queued :: "scheduler \<Rightarrow> nat" where
  "total_queued s = sum_list (map (\<lambda>p. length (waiters (snd p))) (classes s))"

text \<open>Every turn of the pump takes one waiter off a queue, so the loop ends.\<close>

lemma floor_class_SomeD:
  "floor_class s = Some c \<Longrightarrow>
    \<exists>st. (c, st) \<in> set (classes s) \<and> waiters st \<noteq> [] \<and> leased st < min_slots (cfg st)"
  unfolding floor_class_def by (auto simp: find_Some_iff) (metis nth_mem snd_conv)

lemma floor_class_NoneD:
  "floor_class s = None \<Longrightarrow> (c, st) \<in> set (classes s) \<Longrightarrow> waiters st \<noteq> [] \<Longrightarrow>
    min_slots (cfg st) \<le> leased st"
  unfolding floor_class_def by (force simp: find_None_iff)

lemma sort_Cons_hd: "sort xs = y # ys \<Longrightarrow> y \<in> set xs \<and> (\<forall>x \<in> set xs. y \<le> x)"
  using set_sort [of "\<lambda>x. x" xs] sorted_sort [of xs] by (cases "sort xs") auto

lemma choose_class_SomeE:
  assumes "choose_class s = Some c"
  obtains (floor) st where "(c, st) \<in> set (classes s)" "waiters st \<noteq> []"
      "leased st < min_slots (cfg st)"
    | (shared) st where "(c, st) \<in> set (classes s)" "waiters st \<noteq> []"
      "kind_of_grant c st s = Some Shared" "floor_class s = None"
      "\<forall>x \<in> set (eligible s). (virtual_time st, c) \<le> x"
proof (cases "floor_class s")
  case (Some c')
  with assms have "floor_class s = Some c" by (simp add: choose_class_def)
  then show ?thesis using floor_class_SomeD floor by blast
next
  case None
  with assms obtain vt ys where srt: "sort (eligible s) = (vt, c) # ys"
    by (auto simp: choose_class_def split: list.splits)
  from sort_Cons_hd [OF this] obtain st where
    "(c, st) \<in> set (classes s)" "waiters st \<noteq> []" "kind_of_grant c st s = Some Shared"
    "vt = virtual_time st" "\<forall>x \<in> set (eligible s). (virtual_time st, c) \<le> x"
    by (auto simp: eligible_def)
  with None show ?thesis using shared by blast
qed

lemma choose_class_waiting:
  "choose_class s = Some c \<Longrightarrow> \<exists>st. (c, st) \<in> set (classes s) \<and> waiters st \<noteq> []"
  by (elim choose_class_SomeE) blast+

lemma queued_od_update_le:
  assumes "\<And>st. length (waiters (f st)) \<le> length (waiters st)"
  shows "sum_list (map (\<lambda>p. length (waiters (snd p))) (od_update c f d)) \<le>
    sum_list (map (\<lambda>p. length (waiters (snd p))) d)"
  using assms by (induction d) (auto simp: od_update_def intro: add_mono)

lemma queued_pop_less:
  assumes "(c, st) \<in> set d" and "waiters st \<noteq> []"
  shows "sum_list (map (\<lambda>p. length (waiters (snd p)))
      (od_update c (\<lambda>st. st\<lparr>waiters := tl (waiters st)\<rparr>) d)) <
    sum_list (map (\<lambda>p. length (waiters (snd p))) d)"
  using assms
proof (induction d)
  case (Cons p d)
  let ?f = "\<lambda>st. st\<lparr>waiters := tl (waiters st)\<rparr>"
  have le: "sum_list (map (\<lambda>p. length (waiters (snd p))) (od_update c ?f d)) \<le>
    sum_list (map (\<lambda>p. length (waiters (snd p))) d)"
    by (rule queued_od_update_le) simp
  show ?case
  proof (cases "p = (c, st)")
    case True
    with le Cons.prems show ?thesis
      by (cases "waiters st") (auto simp: od_update_def)
  next
    case False
    with Cons show ?thesis
      by (cases p) (auto simp: od_update_def intro: add_le_less_mono)
  qed
qed simp

lemma total_queued_grant [simp]: "total_queued (grant c s) = total_queued s"
  by (simp add: total_queued_def grant_def map_od_update_same [of "\<lambda>st. length (waiters st)"])

lemma total_queued_resolve:
  assumes "choose_class s = Some c"
  shows "total_queued (resolve_one c s) < total_queued s"
proof -
  from choose_class_waiting [OF assms] obtain st where
    st: "(c, st) \<in> set (classes s)" "waiters st \<noteq> []" by blast
  then obtain st' where st': "map_of (classes s) c = Some st'"
    by (metis not_None_eq map_of_eq_None_iff fst_conv image_eqI)
  have "total_queued (grant c (s\<lparr>classes :=
      od_update c (\<lambda>st. st\<lparr>waiters := tl (waiters st)\<rparr>) (classes s)\<rparr>)) < total_queued s"
    unfolding total_queued_grant using queued_pop_less [OF st] by (simp add: total_queued_def)
  then show ?thesis
    using st' by (simp add: resolve_one_def Let_def total_queued_def)
qed

function pump :: "scheduler \<Rightarrow> scheduler" where
  "pump s = (case choose_class s of
               None \<Rightarrow> refresh_idle s
             | Some c \<Rightarrow> pump (resolve_one c s))"
  by auto
termination by (relation "measure total_queued") (auto intro: total_queued_resolve)

declare pump.simps [simp del]

definition acquire :: "string \<Rightarrow> scheduler \<Rightarrow> (nat option \<times> scheduler) result" where
  "acquire c s =
     (case map_of (classes s) c of
        None \<Rightarrow> Inl (ValueError ''unknown work class'')
      | Some st \<Rightarrow>
          if waiters st = [] \<and> kind_of_grant c st s \<noteq> None
          then Inr (None, refresh_idle (grant c s))
          else let fut = length (futures s);
                   s1 = s\<lparr>futures := futures s @ [Pending],
                          classes := od_update c (\<lambda>st. st\<lparr>waiters := waiters st @ [fut]\<rparr>) (classes s),
                          idle := False\<rparr>
               in Inr (Some fut, pump s1))"

definition release :: "string \<Rightarrow> scheduler \<Rightarrow> scheduler result" where
  "release c s =
     (case map_of (classes s) c of
        None \<Rightarrow> Inl (ValueError ''unknown work class'')
      | Some st \<Rightarrow>
          if leased st \<le> 0 then Inl (RuntimeError ''release without a held slot'')
          else Inr (refresh_idle (pump
                 (s\<lparr>classes := od_update c (\<lambda>st. st\<lparr>leased := leased st - 1\<rparr>) (classes s)\<rparr>))))"

text \<open>\<^verbatim>\<open>Task.cancel\<close> on a caller suspended in \<^verbatim>\<open>await fut\<close> cancels the future.\<close>

definition cancel_wait :: "nat \<Rightarrow> scheduler \<Rightarrow> scheduler" where
  "cancel_wait i s =
     (if i < length (futures s) \<and> futures s ! i = Pending
      then s\<lparr>futures := (futures s)[i := Cancelled]\<rparr> else s)"

definition drain_returns :: "scheduler \<Rightarrow> bool" where
  "drain_returns s = idle (refresh_idle s)"

record class_snapshot =
  snap_leased :: int
  snap_queued :: nat
  snap_min_slots :: int
  snap_weight :: real

definition saturation_snapshot ::
    "scheduler \<Rightarrow> int \<times> int \<times> nat \<times> (string, class_snapshot) odict" where
  "saturation_snapshot s =
     (total_slots (sched_config s), total_leased s, total_queued s,
      map (\<lambda>(n, st). (n, \<lparr>snap_leased = leased st, snap_queued = length (waiters st),
                          snap_min_slots = min_slots (cfg st), snap_weight = weight (cfg st)\<rparr>))
        (classes s))"

datatype sched_event = Acquire string | Release string | Cancel nat

primrec sched_step :: "sched_event \<Rightarrow> scheduler \<Rightarrow> scheduler" where
  "sched_step (Acquire c) s = (case acquire c s of Inl _ \<Rightarrow> s | Inr r \<Rightarrow> snd r)"
| "sched_step (Release c) s = (case release c s of Inl _ \<Rightarrow> s | Inr s' \<Rightarrow> s')"
| "sched_step (Cancel i) s = cancel_wait i s"

section \<open>The capacity invariant\<close>

text \<open>
  What the pool has promised: every class counts with its leases or its floor,
  whichever is larger.
\<close>

definition committed :: "scheduler \<Rightarrow> int" where
  "committed s = sum_list (map (\<lambda>p. max (leased (snd p)) (min_slots (cfg (snd p)))) (classes s))"

definition base_inv :: "scheduler \<Rightarrow> bool" where
  "base_inv s =
     (od_wf (classes s) \<and>
      (\<forall>p \<in> set (classes s). 0 < weight (cfg (snd p)) \<and> 0 \<le> min_slots (cfg (snd p)) \<and>
         0 \<le> leased (snd p)) \<and>
      committed s \<le> total_slots (sched_config s))"

abbreviation lookup :: "scheduler \<Rightarrow> string \<Rightarrow> class_state option" where
  "lookup s c \<equiv> map_of (classes s) c"

lemma committed_split:
  "committed s = total_leased s + sum_list (map (\<lambda>p. class_floor_gap (snd p)) (classes s))"
proof -
  have "max (leased st) (min_slots (cfg st)) = leased st + class_floor_gap st" for st
    by (simp add: class_floor_gap_def)
  then show ?thesis by (simp add: committed_def total_leased_def sum_list_addf)
qed

text \<open>Whether a shared slot is free does not depend on the class that asks for it.\<close>

lemma kind_of_grant_committed:
  assumes "od_wf (classes s)" and "lookup s c = Some st"
  shows "kind_of_grant c st s =
    (if leased st < min_slots (cfg st) then Some Floor
     else if committed s < total_slots (sched_config s) then Some Shared else None)"
proof (cases "leased st < min_slots (cfg st)")
  case False
  then have "class_floor_gap st = 0" by (simp add: class_floor_gap_def)
  then have "reserved_for_others c s = sum_list (map (\<lambda>p. class_floor_gap (snd p)) (classes s))"
    using sum_od_filter [OF assms, of class_floor_gap] by (simp add: reserved_for_others_def)
  with False show ?thesis by (auto simp: kind_of_grant_def committed_split)
qed (simp add: kind_of_grant_def)

lemma committed_update:
  assumes "od_wf (classes s)" and "lookup s c = Some st"
  shows "committed (s\<lparr>classes := od_update c f (classes s)\<rparr>) =
    committed s - max (leased st) (min_slots (cfg st)) + max (leased (f st)) (min_slots (cfg (f st)))"
  using sum_od_update [OF assms, of "\<lambda>st. max (leased st) (min_slots (cfg st))" f]
  by (simp add: committed_def)

lemma committed_frame [simp]:
  "committed (s\<lparr>idle := b\<rparr>) = committed s" "committed (s\<lparr>futures := fs\<rparr>) = committed s"
  by (simp_all add: committed_def)

lemma base_inv_frame [simp]:
  "base_inv (s\<lparr>idle := b\<rparr>) = base_inv s" "base_inv (s\<lparr>futures := fs\<rparr>) = base_inv s"
  by (simp_all add: base_inv_def)

lemma base_invD:
  assumes "base_inv s"
  shows "od_wf (classes s)" "committed s \<le> total_slots (sched_config s)"
    and "lookup s c = Some st \<Longrightarrow> 0 < weight (cfg st) \<and> 0 \<le> min_slots (cfg st) \<and> 0 \<le> leased st"
  using assms by (auto simp: base_inv_def dest!: map_of_SomeD)

lemma base_inv_update:
  assumes "base_inv s" and "lookup s c = Some st" and "cfg (f st) = cfg st" and "0 \<le> leased (f st)"
    and "committed s - max (leased st) (min_slots (cfg st)) +
      max (leased (f st)) (min_slots (cfg st)) \<le> total_slots (sched_config s)"
  shows "base_inv (s\<lparr>classes := od_update c f (classes s)\<rparr>)"
proof -
  let ?s = "s\<lparr>classes := od_update c f (classes s)\<rparr>"
  have wf: "od_wf (classes s)" by (rule base_invD(1) [OF assms(1)])
  have "0 < weight (cfg v) \<and> 0 \<le> min_slots (cfg v) \<and> 0 \<le> leased v"
    if "(n, v) \<in> set (classes ?s)" for n v
  proof -
    have "map_of (od_update c f (classes s)) n = Some v"
      using that wf by (simp add: od_wf_mem od_simps)
    then show ?thesis
      using assms(2-4) base_invD(3) [OF assms(1)]
      by (auto simp: map_of_od_update split: if_splits)
  qed
  then show ?thesis
    using wf assms(3,5) committed_update [OF wf assms(2), of f]
    by (auto simp: base_inv_def od_simps)
qed

lemma base_inv_lease:
  assumes "base_inv s" and "lookup s c = Some st" and "kind_of_grant c st s \<noteq> None"
    and "cfg (f st) = cfg st" and "leased (f st) = leased st + 1"
  shows "base_inv (s\<lparr>classes := od_update c f (classes s)\<rparr>)"
proof (rule base_inv_update [where f = f, OF assms(1,2,4)])
  show "0 \<le> leased (f st)" using base_invD(3) [OF assms(1,2)] assms(5) by simp
  show "committed s - max (leased st) (min_slots (cfg st)) +
      max (leased (f st)) (min_slots (cfg st)) \<le> total_slots (sched_config s)"
    using assms(3,5) base_invD(2) [OF assms(1)]
    by (auto simp: kind_of_grant_committed [OF base_invD(1) [OF assms(1)] assms(2)] split: if_splits)
qed

lemma base_inv_grant:
  "base_inv s \<Longrightarrow> lookup s c = Some st \<Longrightarrow> kind_of_grant c st s \<noteq> None \<Longrightarrow> base_inv (grant c s)"
  unfolding grant_def by (erule (2) base_inv_lease) simp_all

section \<open>One turn of the pump\<close>

text \<open>The effect of \<^verbatim>\<open>_resolve_one\<close> on the class it serves, in one update.\<close>

definition served :: "string \<Rightarrow> scheduler \<Rightarrow> class_state \<Rightarrow> class_state" where
  "served c s st =
     st\<lparr>waiters := tl (waiters st), leased := leased st + 1,
        virtual_time := (if kind_of_grant c st s = Some Shared
                         then virtual_time st + 1 / weight (cfg st) else virtual_time st)\<rparr>"

lemma od_update_twice: "od_update c g (od_update c f d) = od_update c (\<lambda>v. g (f v)) d"
  by (induction d) (auto simp: od_update_def)

lemma kind_of_grant_pop:
  "kind_of_grant c (st\<lparr>waiters := ws\<rparr>)
     (s\<lparr>classes := od_update c (\<lambda>st. st\<lparr>waiters := tl (waiters st)\<rparr>) (classes s)\<rparr>) =
   kind_of_grant c st s"
proof -
  let ?f = "\<lambda>st. st\<lparr>waiters := tl (waiters st)\<rparr>"
  have "filter (\<lambda>p. fst p \<noteq> c) (od_update c ?f d) = filter (\<lambda>p. fst p \<noteq> c) d"
    for d :: "(string, class_state) odict"
    by (induction d) (auto simp: od_update_def split: if_splits)
  then show ?thesis
    by (simp add: kind_of_grant_def reserved_for_others_def total_leased_def
        map_od_update_same [of leased])
qed

lemma resolve_one_classes:
  assumes "lookup s c = Some st"
  shows "classes (resolve_one c s) = od_update c (served c s) (classes s)"
    and "sched_config (resolve_one c s) = sched_config s"
  using assms
  by (simp_all add: resolve_one_def Let_def grant_def od_update_twice served_def [abs_def]
      kind_of_grant_pop cong: if_cong)

lemma served_simps [simp]:
  "cfg (served c s st) = cfg st" "leased (served c s st) = leased st + 1"
  "waiters (served c s st) = tl (waiters st)"
  by (simp_all add: served_def)

lemma choose_class_lookup:
  assumes "base_inv s" and "choose_class s = Some c"
  obtains st where "lookup s c = Some st" "waiters st \<noteq> []" "kind_of_grant c st s \<noteq> None"
  using assms(2)
proof (cases rule: choose_class_SomeE)
  case (floor st)
  with base_invD(1) [OF assms(1)] show ?thesis
    by (intro that [of st]) (auto simp: od_wf_mem kind_of_grant_def)
next
  case (shared st)
  with base_invD(1) [OF assms(1)] show ?thesis
    by (intro that [of st]) (auto simp: od_wf_mem)
qed

lemma base_inv_resolve:
  assumes "base_inv s" and "choose_class s = Some c"
  shows "base_inv (resolve_one c s)"
proof -
  from choose_class_lookup [OF assms] obtain st where
    st: "lookup s c = Some st" "kind_of_grant c st s \<noteq> None" by blast
  have "base_inv (s\<lparr>classes := od_update c (served c s) (classes s)\<rparr>)"
    by (rule base_inv_lease [OF assms(1) st]) simp_all
  then show ?thesis
    using resolve_one_classes [OF st(1)] by (simp add: base_inv_def committed_def)
qed

lemma kind_of_grant_frame [simp]:
  "kind_of_grant c st (s\<lparr>idle := b\<rparr>) = kind_of_grant c st s"
  "kind_of_grant c st (s\<lparr>futures := fs\<rparr>) = kind_of_grant c st s"
  by (simp_all add: kind_of_grant_def reserved_for_others_def total_leased_def)

lemma eligible_frame [simp]:
  "eligible (s\<lparr>idle := b\<rparr>) = eligible s" "eligible (s\<lparr>futures := fs\<rparr>) = eligible s"
  by (simp_all add: eligible_def)

lemma choose_class_frame [simp]:
  "choose_class (s\<lparr>idle := b\<rparr>) = choose_class s"
  "choose_class (s\<lparr>futures := fs\<rparr>) = choose_class s"
  by (simp_all add: choose_class_def floor_class_def cong: option.case_cong)

text \<open>What every turn keeps holds when the pump stops, and then no class can be served.\<close>

lemma pump_rule:
  assumes "P s" and "\<And>s c. P s \<Longrightarrow> choose_class s = Some c \<Longrightarrow> P (resolve_one c s)"
  obtains s' where "pump s = refresh_idle s'" "P s'" "choose_class s' = None"
  using assms(1)
proof (induction s arbitrary: thesis rule: pump.induct)
  case (1 s)
  show ?case
  proof (cases "choose_class s")
    case None
    with 1 show ?thesis by (simp add: pump.simps [of s])
  next
    case (Some c)
    from 1(1) [OF Some _ assms(2) [OF 1(3) Some]] obtain s' where
      "pump (resolve_one c s) = refresh_idle s'" "P s'" "choose_class s' = None" by blast
    with Some 1(2) show ?thesis by (simp add: pump.simps [of s])
  qed
qed

section \<open>Validation\<close>

lemma validate_classes_Inr:
  "validate_classes a cs = Inr t \<longleftrightarrow>
     (\<forall>p \<in> set cs. 0 < weight (snd p) \<and> 0 \<le> min_slots (snd p)) \<and>
     t = a + sum_list (map (\<lambda>p. min_slots (snd p)) cs)"
  by (induction a cs rule: validate_classes.induct) auto

lemma validate_Inr:
  "validate fc = Inr () \<longleftrightarrow>
     1 \<le> total_slots fc \<and> class_configs fc \<noteq> [] \<and>
     (\<forall>p \<in> set (class_configs fc). 0 < weight (snd p) \<and> 0 \<le> min_slots (snd p)) \<and>
     sum_list (map (\<lambda>p. min_slots (snd p)) (class_configs fc)) \<le> total_slots fc"
proof (cases "validate_classes 0 (class_configs fc)")
  case (Inl e)
  then have "\<not> (\<forall>p \<in> set (class_configs fc). 0 < weight (snd p) \<and> 0 \<le> min_slots (snd p))"
    using validate_classes_Inr [of 0 "class_configs fc"] by fastforce
  with Inl show ?thesis by (auto simp: validate_def)
next
  case (Inr t)
  with Inr show ?thesis
    using validate_classes_Inr [of 0 "class_configs fc" t] by (auto simp: validate_def)
qed

section \<open>The invariant of every run\<close>

definition fut_inv :: "scheduler \<Rightarrow> bool" where
  "fut_inv s =
     ((\<forall>p \<in> set (classes s). \<forall>i \<in> set (waiters (snd p)). i < length (futures s)) \<and>
      (\<forall>i < length (futures s). futures s ! i = Pending \<longrightarrow>
         (\<exists>p \<in> set (classes s). i \<in> set (waiters (snd p)))))"

definition sched_inv :: "scheduler \<Rightarrow> bool" where
  "sched_inv s =
     (base_inv s \<and> choose_class s = None \<and> idle s = idle (refresh_idle s) \<and> fut_inv s)"

lemma sort_Nil_iff: "sort xs = [] \<longleftrightarrow> xs = []"
  by (metis length_0_conv length_sort)

lemma choose_class_None:
  assumes "od_wf (classes s)"
  shows "choose_class s = None \<longleftrightarrow>
    (\<forall>c st. lookup s c = Some st \<longrightarrow> waiters st \<noteq> [] \<longrightarrow> kind_of_grant c st s = None)"
    (is "_ \<longleftrightarrow> ?settled")
proof
  assume none: "choose_class s = None"
  then have fl: "floor_class s = None" and el: "eligible s = []"
    by (auto simp: choose_class_def sort_Nil_iff split: option.splits list.splits)
  show ?settled
  proof (intro allI impI)
    fix c st assume c: "lookup s c = Some st" "waiters st \<noteq> []"
    then have mem: "(c, st) \<in> set (classes s)" by (auto dest: map_of_SomeD)
    with el c have "kind_of_grant c st s \<noteq> Some Shared"
      by (auto simp: eligible_def filter_empty_conv)
    with floor_class_NoneD [OF fl mem c(2)] show "kind_of_grant c st s = None"
      by (auto simp: kind_of_grant_def split: if_splits)
  qed
next
  assume st: ?settled
  show "choose_class s = None"
  proof (rule ccontr)
    assume "choose_class s \<noteq> None"
    then obtain c where "choose_class s = Some c" by blast
    then show False
    proof (cases rule: choose_class_SomeE)
      case (floor st)
      with st assms have "kind_of_grant c st s = None" by (auto simp: od_wf_mem)
      with floor show False by (simp add: kind_of_grant_def)
    next
      case (shared st)
      with st assms show False by (auto simp: od_wf_mem)
    qed
  qed
qed

lemma refresh_idle_frame [simp]:
  "classes (refresh_idle s) = classes s" "sched_config (refresh_idle s) = sched_config s"
  "futures (refresh_idle s) = futures s" "base_inv (refresh_idle s) = base_inv s"
  "choose_class (refresh_idle s) = choose_class s" "fut_inv (refresh_idle s) = fut_inv s"
  "refresh_idle (refresh_idle s) = refresh_idle s"
  by (simp_all add: refresh_idle_def fut_inv_def total_leased_def)

text \<open>Serving the head of a queue marks its future done and leaves the other queues.\<close>

lemma resolve_one_futures:
  assumes "lookup s c = Some st" "waiters st \<noteq> []"
  shows "futures (resolve_one c s) =
    (if futures s ! hd (waiters st) = Pending then (futures s)[hd (waiters st) := Resolved]
     else futures s)"
  using assms by (simp add: resolve_one_def Let_def grant_def)

lemma fut_inv_lookup:
  assumes "od_wf (classes s)"
  shows "fut_inv s \<longleftrightarrow>
    (\<forall>c st i. lookup s c = Some st \<longrightarrow> i \<in> set (waiters st) \<longrightarrow> i < length (futures s)) \<and>
    (\<forall>i < length (futures s). futures s ! i = Pending \<longrightarrow>
       (\<exists>c st. lookup s c = Some st \<and> i \<in> set (waiters st)))"
  by (simp add: fut_inv_def od_wf_ball [OF assms] od_wf_bex [OF assms]) blast

lemma fut_inv_update:
  assumes "\<And>st. waiters (f st) = waiters st"
  shows "fut_inv (s\<lparr>classes := od_update c f (classes s)\<rparr>) = fut_inv s"
proof -
  have fi: "fut_inv s \<longleftrightarrow>
      (\<forall>w \<in> set (map (\<lambda>p. waiters (snd p)) (classes s)). \<forall>i \<in> set w. i < length (futures s)) \<and>
      (\<forall>i < length (futures s). futures s ! i = Pending \<longrightarrow>
         (\<exists>w \<in> set (map (\<lambda>p. waiters (snd p)) (classes s)). i \<in> set w))" for s
    by (simp add: fut_inv_def)
  show ?thesis
    using map_od_update_same [of waiters f c "classes s", OF assms]
    by (simp add: fi del: list.set_map)
qed

lemma fut_inv_resolve:
  assumes "base_inv s" and "choose_class s = Some c" and "fut_inv s"
  shows "fut_inv (resolve_one c s)"
proof -
  have wf: "od_wf (classes s)" by (rule base_invD(1) [OF assms(1)])
  obtain st where st: "lookup s c = Some st" "waiters st \<noteq> []"
    using choose_class_lookup [OF assms(1,2)] by blast
  have wf': "od_wf (classes (resolve_one c s))"
    using wf by (simp add: resolve_one_classes [OF st(1)] od_simps)
  note inv = assms(3) [unfolded fut_inv_lookup [OF wf]]
  have len: "length (futures (resolve_one c s)) = length (futures s)"
    by (simp add: resolve_one_futures [OF st])
  have look: "lookup (resolve_one c s) x =
      (if x = c then Some (served c s st) else lookup s x)" for x
    using st(1) by (simp add: resolve_one_classes [OF st(1)] map_of_od_update)
  have tl: "set (tl (waiters st)) \<subseteq> set (waiters st)" by (cases "waiters st") auto
  show ?thesis
    unfolding fut_inv_lookup [OF wf'] len
  proof (intro conjI allI impI)
    fix x v i assume "lookup (resolve_one c s) x = Some v" "i \<in> set (waiters v)"
    then show "i < length (futures s)"
      using inv st tl by (auto simp: look split: if_splits)
  next
    fix i assume i: "i < length (futures s)" "futures (resolve_one c s) ! i = Pending"
    then have ne: "futures s ! i = Pending" "i \<noteq> hd (waiters st)"
      by (cases "i = hd (waiters st)"; auto simp: resolve_one_futures [OF st] split: if_splits)+
    with inv i obtain x v where v: "lookup s x = Some v" "i \<in> set (waiters v)" by blast
    with ne st have "i \<in> set (tl (waiters st))" if "x = c"
      using that by (cases "waiters st") auto
    with v show "\<exists>x v. lookup (resolve_one c s) x = Some v \<and> i \<in> set (waiters v)"
      by (cases "x = c") (auto simp: look intro!: exI [of _ x])
  qed
qed

lemma sched_inv_pump:
  assumes "base_inv s" and "fut_inv s"
  shows "sched_inv (pump s)"
proof (rule pump_rule [of "\<lambda>s. base_inv s \<and> fut_inv s" s])
  fix s' assume "pump s = refresh_idle s'" "base_inv s' \<and> fut_inv s'" "choose_class s' = None"
  then show ?thesis by (simp add: sched_inv_def)
qed (use assms in \<open>auto intro: base_inv_resolve fut_inv_resolve\<close>)

lemma sched_inv_release:
  assumes "sched_inv s" and "release c s = Inr s'"
  shows "sched_inv s'"
proof -
  let ?f = "\<lambda>st. st\<lparr>leased := leased st - 1\<rparr>"
  let ?s1 = "s\<lparr>classes := od_update c ?f (classes s)\<rparr>"
  from assms(2) obtain st where st: "lookup s c = Some st" "0 < leased st"
    and s': "s' = refresh_idle (pump ?s1)"
    by (auto simp: release_def split: option.splits if_splits)
  have b: "base_inv s" and f: "fut_inv s" using assms(1) by (simp_all add: sched_inv_def)
  have "base_inv ?s1"
    using base_inv_update [OF b st(1), of ?f] st(2) base_invD(2) [OF b] by simp
  moreover have "fut_inv ?s1"
    using f by (subst fut_inv_update) simp_all
  ultimately have "sched_inv (pump ?s1)" by (rule sched_inv_pump)
  then show ?thesis by (simp add: s' sched_inv_def)
qed

lemma settledD:
  assumes "sched_inv s" and "lookup s c = Some st" and "waiters st \<noteq> []"
  shows "min_slots (cfg st) \<le> leased st" and "total_slots (sched_config s) \<le> committed s"
    and "kind_of_grant c st s = None"
proof -
  have wf: "od_wf (classes s)" using assms(1) by (simp add: sched_inv_def base_inv_def)
  show k: "kind_of_grant c st s = None"
    using assms choose_class_None [OF wf] by (simp add: sched_inv_def)
  show "min_slots (cfg st) \<le> leased st" "total_slots (sched_config s) \<le> committed s"
    using k by (simp_all add: kind_of_grant_committed [OF wf assms(2)] split: if_splits)
qed

lemma sched_inv_fast_grant:
  assumes inv: "sched_inv s" and c: "lookup s c = Some st" "waiters st = []"
    and kind: "kind_of_grant c st s \<noteq> None"
  shows "sched_inv (refresh_idle (grant c s))"
proof -
  have b: "base_inv s" using inv by (simp add: sched_inv_def)
  have b': "base_inv (grant c s)" using b c kind by (rule_tac base_inv_grant) auto
  have le: "committed s \<le> committed (grant c s)"
    unfolding grant_def by (subst committed_update [OF base_invD(1) [OF b] c(1)]) simp
  have "kind_of_grant x v (grant c s) = None"
    if x: "lookup (grant c s) x = Some v" "waiters v \<noteq> []" for x v
  proof -
    from x c have x': "x \<noteq> c" "lookup s x = Some v"
      by (auto simp: grant_def map_of_od_update split: if_splits)
    have "sched_config (grant c s) = sched_config s" by (simp add: grant_def)
    with settledD [OF inv x'(2) x(2)] le show ?thesis
      by (simp add: kind_of_grant_committed [OF base_invD(1) [OF b'] x(1)])
  qed
  then have "choose_class (grant c s) = None"
    using choose_class_None [OF base_invD(1) [OF b']] by blast
  moreover have "fut_inv (grant c s)"
    using inv unfolding grant_def sched_inv_def by (subst fut_inv_update) simp_all
  ultimately show ?thesis using b' by (simp add: sched_inv_def)
qed

text \<open>The state in which a queued caller starts the pump.\<close>

definition enqueue_waiter :: "string \<Rightarrow> scheduler \<Rightarrow> scheduler" where
  "enqueue_waiter c s =
     s\<lparr>futures := futures s @ [Pending],
       classes := od_update c (\<lambda>st. st\<lparr>waiters := waiters st @ [length (futures s)]\<rparr>) (classes s),
       idle := False\<rparr>"

lemma acquire_cases:
  assumes "acquire c s = Inr r"
  obtains (fast) st where "lookup s c = Some st" "waiters st = []" "kind_of_grant c st s \<noteq> None"
      "r = (None, refresh_idle (grant c s))"
    | (queued) st where "lookup s c = Some st" "r = (Some (length (futures s)), pump (enqueue_waiter c s))"
  using assms
  by (auto simp: acquire_def Let_def enqueue_waiter_def split: option.splits if_splits)

lemma enqueue_inv:
  assumes "base_inv s" and "fut_inv s" and c: "lookup s c = Some st"
  shows "base_inv (enqueue_waiter c s)" and "fut_inv (enqueue_waiter c s)"
proof -
  let ?f = "\<lambda>st. st\<lparr>waiters := waiters st @ [length (futures s)]\<rparr>"
  have wf: "od_wf (classes s)" by (rule base_invD(1) [OF assms(1)])
  have "base_inv (s\<lparr>classes := od_update c ?f (classes s)\<rparr>)"
    using base_inv_update [OF assms(1) c, of ?f] base_invD(2,3) [OF assms(1)] c by simp
  then show b: "base_inv (enqueue_waiter c s)"
    by (simp add: enqueue_waiter_def base_inv_def committed_def)
  have look: "lookup (enqueue_waiter c s) x = (if x = c then Some (?f st) else lookup s x)" for x
    using c by (simp add: enqueue_waiter_def map_of_od_update)
  note inv = assms(2) [unfolded fut_inv_lookup [OF wf]]
  have len: "length (futures (enqueue_waiter c s)) = Suc (length (futures s))"
    by (simp add: enqueue_waiter_def)
  show "fut_inv (enqueue_waiter c s)"
    unfolding fut_inv_lookup [OF base_invD(1) [OF b]] len
  proof (intro conjI allI impI)
    fix x v i assume "lookup (enqueue_waiter c s) x = Some v" "i \<in> set (waiters v)"
    with inv c show "i < Suc (length (futures s))"
      by (auto simp: look less_Suc_eq split: if_splits)
  next
    fix i assume i: "i < Suc (length (futures s))" "futures (enqueue_waiter c s) ! i = Pending"
    show "\<exists>x v. lookup (enqueue_waiter c s) x = Some v \<and> i \<in> set (waiters v)"
    proof (cases "i = length (futures s)")
      case True
      then show ?thesis by (intro exI [of _ c]) (simp add: look)
    next
      case False
      with i inv obtain x v where "lookup s x = Some v" "i \<in> set (waiters v)"
        by (auto simp: enqueue_waiter_def nth_append less_Suc_eq)
      with c show ?thesis by (intro exI [of _ x]) (auto simp: look)
    qed
  qed
qed

lemma sched_inv_acquire:
  assumes "sched_inv s" and "acquire c s = Inr r"
  shows "sched_inv (snd r)"
  using assms(2)
proof (cases rule: acquire_cases)
  case (fast st)
  with sched_inv_fast_grant [OF assms(1)] show ?thesis by simp
next
  case (queued st)
  with assms(1) enqueue_inv [OF _ _ queued(1)] show ?thesis
    by (auto simp: sched_inv_def [of s] intro: sched_inv_pump)
qed

lemma sched_inv_cancel: "sched_inv s \<Longrightarrow> sched_inv (cancel_wait i s)"
  by (auto simp: sched_inv_def cancel_wait_def refresh_idle_def total_leased_def fut_inv_def
      nth_list_update split: if_splits)

interpretation sched: step_invariant sched_step sched_inv
proof
  fix s e assume "sched_inv s"
  then show "sched_inv (sched_step e s)"
    by (cases e) (auto dest: sched_inv_acquire sched_inv_release intro: sched_inv_cancel split: sum.splits)
qed

lemma new_scheduler_inv:
  assumes "new_scheduler fc = Inr s" and "od_wf (class_configs fc)"
  shows "sched_inv s"
proof -
  let ?new = "\<lambda>(n, c). (n, \<lparr>cfg = c, leased = 0, virtual_time = 0, waiters = []\<rparr>)"
  from assms(1) have v: "validate fc = Inr ()"
    and s: "s = \<lparr>sched_config = fc, classes = map ?new (class_configs fc), idle = True, futures = []\<rparr>"
    by (auto simp: new_scheduler_def split: sum.splits)
  have st: "\<exists>c. (n, c) \<in> set (class_configs fc) \<and>
      st = \<lparr>cfg = c, leased = 0, virtual_time = 0, waiters = []\<rparr>" if "(n, st) \<in> set (classes s)" for n st
    using that by (auto simp: s)
  have keys: "od_keys (classes s) = od_keys (class_configs fc)"
    by (simp add: s od_keys_def split_def comp_def)
  have "committed s = sum_list (map (\<lambda>p. max 0 (min_slots (snd p))) (class_configs fc))"
    by (simp add: committed_def s split_def comp_def)
  also have "\<dots> = sum_list (map (\<lambda>p. min_slots (snd p)) (class_configs fc))"
    using v by (intro arg_cong [where f = sum_list] map_cong) (auto simp: validate_Inr)
  finally have "base_inv s"
    using v st assms(2) keys by (fastforce simp: base_inv_def od_wf_def validate_Inr s)
  moreover have "choose_class s = None"
    using choose_class_None [of s] st assms(2) keys
    by (fastforce simp: od_wf_def dest: map_of_SomeD)
  moreover have "total_leased s = 0" and "list_all (\<lambda>p. waiters (snd p) = []) (classes s)"
    using st by (auto simp: s total_leased_def list_all_iff split_def comp_def)
  ultimately show ?thesis by (simp add: sched_inv_def refresh_idle_def fut_inv_def s list_all_iff)
qed

section \<open>Weighted fairness\<close>

definition vtime :: "scheduler \<Rightarrow> string \<Rightarrow> real" where
  "vtime s c = (case lookup s c of None \<Rightarrow> 0 | Some st \<Rightarrow> virtual_time st)"

definition class_weight :: "scheduler \<Rightarrow> string \<Rightarrow> real" where
  "class_weight s c = (case lookup s c of None \<Rightarrow> 1 | Some st \<Rightarrow> weight (cfg st))"

definition backlogged :: "string \<Rightarrow> scheduler \<Rightarrow> bool" where
  "backlogged c s = (case lookup s c of None \<Rightarrow> False | Some st \<Rightarrow> waiters st \<noteq> [])"

primrec backlogged_throughout :: "string \<Rightarrow> sched_event list \<Rightarrow> scheduler \<Rightarrow> bool" where
  "backlogged_throughout c [] s = backlogged c s"
| "backlogged_throughout c (e # es) s =
     (backlogged c s \<and> backlogged_throughout c es (sched_step e s))"

lemma backlogged_throughout_hd: "backlogged_throughout c es s \<Longrightarrow> backlogged c s"
  by (cases es) auto

text \<open>Class \<open>a\<close> is ahead of class \<open>b\<close> by at most \<open>M\<close>, which covers one turn of \<open>a\<close>.\<close>

definition ahead_at_most :: "string \<Rightarrow> string \<Rightarrow> real \<Rightarrow> scheduler \<Rightarrow> bool" where
  "ahead_at_most a b M s =
     (lookup s a \<noteq> None \<and> 1 / class_weight s a \<le> M \<and>
      (backlogged b s \<longrightarrow> vtime s a - vtime s b \<le> M))"

lemmas fair_defs = ahead_at_most_def vtime_def class_weight_def backlogged_def

lemma fair_refresh [simp]: "ahead_at_most a b M (refresh_idle s) = ahead_at_most a b M s"
  by (simp add: fair_defs)

lemma fair_update:
  assumes "ahead_at_most a b M s" and "backlogged b s"
    and "\<And>st. virtual_time (f st) = virtual_time st" and "\<And>st. cfg (f st) = cfg st"
    and "classes s' = od_update c f (classes s)"
  shows "ahead_at_most a b M s'"
  using assms by (auto simp: fair_defs map_of_od_update split: option.splits if_splits)

lemma most_owed_first:
  assumes "base_inv s" and "choose_class s = Some a" and "lookup s a = Some sa"
    and "kind_of_grant a sa s = Some Shared" and "lookup s b = Some sb" and "waiters sb \<noteq> []"
  shows "virtual_time sa \<le> virtual_time sb"
  using assms(2)
proof (cases rule: choose_class_SomeE)
  case (floor st)
  with assms(3) base_invD(1) [OF assms(1)] have "st = sa" by (simp add: od_wf_mem)
  with floor assms(4) show ?thesis by (simp add: kind_of_grant_def)
next
  case (shared st)
  have wf: "od_wf (classes s)" by (rule base_invD(1) [OF assms(1)])
  from shared assms(3) wf have st: "st = sa" by (simp add: od_wf_mem)
  have mem: "(b, sb) \<in> set (classes s)" using assms(5) by (rule map_of_SomeD)
  from shared(3) st have "committed s < total_slots (sched_config s)"
    by (simp add: kind_of_grant_committed [OF wf assms(3)] split: if_splits)
  then have "kind_of_grant b sb s = Some Shared"
    using floor_class_NoneD [OF shared(4) mem assms(6)]
    by (simp add: kind_of_grant_committed [OF wf assms(5)])
  with mem assms(6) have "(virtual_time sb, b) \<in> set (eligible s)"
    by (force simp: eligible_def)
  with shared(5) st show ?thesis by (auto simp: less_eq_prod_def)
qed

lemma fair_resolve:
  assumes "base_inv s" and "choose_class s = Some c" and "a \<noteq> b" and "ahead_at_most a b M s"
  shows "ahead_at_most a b M (resolve_one c s)"
proof -
  obtain st where st: "lookup s c = Some st" "waiters st \<noteq> []"
    using choose_class_lookup [OF assms(1,2)] by blast
  have look: "lookup (resolve_one c s) x =
      (if x = c then Some (served c s st) else lookup s x)" for x
    using st(1) by (simp add: resolve_one_classes [OF st(1)] map_of_od_update)
  have w: "0 < weight (cfg st)" using base_invD(3) [OF assms(1) st(1)] by simp
  obtain sa where sa: "lookup s a = Some sa" "1 / weight (cfg sa) \<le> M"
    using assms(4) by (auto simp: fair_defs)
  have main: "vtime (resolve_one c s) a - vtime (resolve_one c s) b \<le> M"
    if "backlogged b (resolve_one c s)"
  proof -
    from that st obtain sb where sb: "lookup s b = Some sb" "waiters sb \<noteq> []"
      by (auto simp: backlogged_def look split: option.splits if_splits)
    with assms(4) sa have le: "virtual_time sa - virtual_time sb \<le> M" by (simp add: fair_defs)
    show ?thesis
    proof (cases "a = c")
      case True
      with sa st have [simp]: "sa = st" by simp
      have "virtual_time st \<le> virtual_time sb" if "kind_of_grant c st s = Some Shared"
        using most_owed_first [OF assms(1,2) st(1) that sb] .
      with True assms(3) sb sa le show ?thesis
        by (auto simp: vtime_def look served_def)
    next
      case False
      with sa have "vtime (resolve_one c s) a = virtual_time sa" by (simp add: vtime_def look)
      moreover have "virtual_time sb \<le> vtime (resolve_one c s) b"
        using sb st w by (auto simp: vtime_def look served_def)
      ultimately show ?thesis using le by linarith
    qed
  qed
  show ?thesis
    using sa main st by (auto simp: ahead_at_most_def class_weight_def look)
qed

lemma fair_pump:
  assumes "base_inv s" and "a \<noteq> b" and "ahead_at_most a b M s"
  shows "ahead_at_most a b M (pump s)"
proof (rule pump_rule [of "\<lambda>s. base_inv s \<and> ahead_at_most a b M s" s])
  fix s' assume "pump s = refresh_idle s'" "base_inv s' \<and> ahead_at_most a b M s'"
  then show ?thesis by simp
qed (use assms in \<open>auto intro: base_inv_resolve fair_resolve\<close>)

lemma fair_step:
  assumes inv: "sched_inv s" and ab: "a \<noteq> b" and b: "backlogged b s" and fair: "ahead_at_most a b M s"
  shows "ahead_at_most a b M (sched_step e s)"
proof (cases e)
  case (Acquire c)
  show ?thesis
  proof (cases "acquire c s")
    case (Inr r)
    then show ?thesis
    proof (cases rule: acquire_cases)
      case (fast st)
      obtain sb where sb: "lookup s b = Some sb" "waiters sb \<noteq> []"
        using b by (auto simp: backlogged_def split: option.splits)
      have wf: "od_wf (classes s)" using inv by (simp add: sched_inv_def base_inv_def)
      have "kind_of_grant c st s \<noteq> Some Shared"
        using settledD(2) [OF inv sb] by (simp add: kind_of_grant_committed [OF wf fast(1)])
      then have "lookup (grant c s) x =
          (if x = c then Some (st\<lparr>leased := leased st + 1\<rparr>) else lookup s x)" for x
        using fast by (auto simp: grant_def map_of_od_update)
      with fair fast sb show ?thesis
        by (auto simp: Inr Acquire fair_defs split: option.splits if_splits)
    next
      case (queued st)
      have "ahead_at_most a b M (enqueue_waiter c s)"
        by (rule fair_update [OF fair b]) (auto simp: enqueue_waiter_def)
      moreover have "base_inv (enqueue_waiter c s)"
        using inv enqueue_inv(1) [OF _ _ queued(1)] by (simp add: sched_inv_def)
      ultimately show ?thesis using ab queued by (simp add: Inr Acquire fair_pump)
    qed
  qed (use fair Acquire in simp)
next
  case (Release c)
  show ?thesis
  proof (cases "release c s")
    case (Inr s')
    let ?f = "\<lambda>st. st\<lparr>leased := leased st - 1\<rparr>"
    let ?s1 = "s\<lparr>classes := od_update c ?f (classes s)\<rparr>"
    from Inr obtain st where st: "lookup s c = Some st" "0 < leased st"
      and s': "s' = refresh_idle (pump ?s1)"
      by (auto simp: release_def split: option.splits if_splits)
    have bi: "base_inv s" using inv by (simp add: sched_inv_def)
    have "base_inv ?s1"
      using base_inv_update [OF bi st(1), of ?f] st(2) base_invD(2) [OF bi] by simp
    moreover have "ahead_at_most a b M ?s1"
      by (rule fair_update [OF fair b, of ?f]) auto
    ultimately show ?thesis using ab by (simp add: Release Inr s' fair_pump)
  qed (use fair Release in simp)
next
  case (Cancel i)
  then show ?thesis using fair by (simp add: cancel_wait_def fair_defs)
qed

lemma fair_run:
  assumes "sched_inv s" and "a \<noteq> b" and "backlogged_throughout b es s" and "ahead_at_most a b M s"
  shows "ahead_at_most a b M (store_run sched_step es s)"
  using assms
proof (induction es arbitrary: s)
  case (Cons e es)
  then have "ahead_at_most a b M (sched_step e s)" by (intro fair_step) auto
  with Cons show ?case by (auto intro: sched.invar_step)
qed simp

section \<open>Order within a class\<close>

text \<open>
  Since state \<open>s\<close>, the class with state \<open>st\<close> has had the first \<open>k\<close> of its waiters served:
  they are off the queue, in queue order, with one lease each, and none is left waiting.
\<close>

definition served_from :: "scheduler \<Rightarrow> class_state \<Rightarrow> nat \<Rightarrow> class_state \<Rightarrow> bool" where
  "served_from s' st k st' =
     (k \<le> length (waiters st) \<and> waiters st' = drop k (waiters st) \<and>
      leased st' = leased st + int k \<and> cfg st' = cfg st \<and>
      list_all (\<lambda>i. futures s' ! i \<noteq> Pending) (take k (waiters st)))"

lemma served_from_resolve:
  assumes inv: "base_inv s'" "fut_inv s'" "choose_class s' = Some d"
    and c: "lookup s' c = Some st'" "served_from s' st k st'"
  shows "\<exists>k st''. lookup (resolve_one d s') c = Some st'' \<and> served_from (resolve_one d s') st k st''"
proof -
  obtain sd where sd: "lookup s' d = Some sd" "waiters sd \<noteq> []"
    using choose_class_lookup [OF inv(1,3)] by blast
  have look: "lookup (resolve_one d s') x =
      (if x = d then Some (served d s' sd) else lookup s' x)" for x
    using sd(1) by (simp add: resolve_one_classes [OF sd(1)] map_of_od_update)
  have bound: "hd (waiters sd) < length (futures s')"
    using inv(2) sd fut_inv_lookup [OF base_invD(1) [OF inv(1)]] by (meson hd_in_set)
  have fut: "futures (resolve_one d s') ! i \<noteq> Pending"
    if "futures s' ! i \<noteq> Pending \<or> i = hd (waiters sd)" for i
    using that bound by (auto simp: resolve_one_futures [OF sd] nth_list_update)
  show ?thesis
  proof (cases "c = d")
    case True
    with c sd have ws: "waiters sd = drop k (waiters st)" "st' = sd" "k < length (waiters st)"
      by (auto simp: served_from_def)
    then have hd: "hd (waiters sd) = waiters st ! k" by (simp add: hd_drop_conv_nth)
    have "served_from (resolve_one d s') st (Suc k) (served d s' sd)"
      using c ws hd fut
      by (auto simp: served_from_def take_Suc_conv_app_nth list_all_iff drop_Suc drop_tl)
    with True look show ?thesis by auto
  next
    case False
    with c look fut have "served_from (resolve_one d s') st k st'"
      by (auto simp: served_from_def list_all_iff)
    with False look c show ?thesis by auto
  qed
qed

lemma pump_fifo:
  assumes "base_inv s" and "fut_inv s" and "lookup s c = Some st"
  shows "\<exists>k st'. lookup (pump s) c = Some st' \<and> served_from (pump s) st k st'"
proof (rule pump_rule [of "\<lambda>s'. base_inv s' \<and> fut_inv s' \<and>
    (\<exists>k st'. lookup s' c = Some st' \<and> served_from s' st k st')" s])
  show "base_inv s \<and> fut_inv s \<and> (\<exists>k st'. lookup s c = Some st' \<and> served_from s st k st')"
    using assms by (auto simp: served_from_def intro: exI [of _ 0])
next
  fix s' d
  assume "base_inv s' \<and> fut_inv s' \<and> (\<exists>k st'. lookup s' c = Some st' \<and> served_from s' st k st')"
    and "choose_class s' = Some d"
  then show "base_inv (resolve_one d s') \<and> fut_inv (resolve_one d s') \<and>
      (\<exists>k st'. lookup (resolve_one d s') c = Some st' \<and> served_from (resolve_one d s') st k st')"
    by (blast intro: base_inv_resolve fut_inv_resolve dest: served_from_resolve)
next
  fix s' assume "pump s = refresh_idle s'"
    and "base_inv s' \<and> fut_inv s' \<and> (\<exists>k st'. lookup s' c = Some st' \<and> served_from s' st k st')"
  then show ?thesis by (simp add: served_from_def)
qed

section \<open>The configuration is constant\<close>

definition configs :: "scheduler \<Rightarrow> (string, work_class_config) odict" where
  "configs s = map (\<lambda>p. (fst p, cfg (snd p))) (classes s)"

lemma configs_update:
  assumes "\<And>st. cfg (f st) = cfg st"
  shows "map (\<lambda>p. (fst p, cfg (snd p))) (od_update c f d) = map (\<lambda>p. (fst p, cfg (snd p))) d"
  using assms by (induction d) (auto simp: od_update_def)

lemma configs_refresh [simp]: "configs (refresh_idle s) = configs s"
  by (simp add: configs_def)

lemma configs_resolve [simp]:
  "configs (resolve_one c s) = configs s" "sched_config (resolve_one c s) = sched_config s"
proof (atomize (full), cases "lookup s c")
  case None
  then show "configs (resolve_one c s) = configs s \<and> sched_config (resolve_one c s) = sched_config s"
    by (simp add: resolve_one_def)
next
  case (Some st)
  then show "configs (resolve_one c s) = configs s \<and> sched_config (resolve_one c s) = sched_config s"
    by (simp add: resolve_one_classes configs_def configs_update)
qed

lemma configs_pump: "configs (pump s) = configs s \<and> sched_config (pump s) = sched_config s"
  by (rule pump_rule [of "\<lambda>s'. configs s' = configs s \<and> sched_config s' = sched_config s" s]) auto

lemma configs_step:
  "configs (sched_step e s) = configs s \<and> sched_config (sched_step e s) = sched_config s"
proof (cases e)
  case (Acquire c)
  have "configs (enqueue_waiter c s) = configs s \<and> sched_config (enqueue_waiter c s) = sched_config s"
    "configs (grant c s) = configs s \<and> sched_config (grant c s) = sched_config s"
    by (simp_all add: enqueue_waiter_def grant_def configs_def configs_update)
  with Acquire show ?thesis
    by (auto simp: configs_pump split: sum.splits elim!: acquire_cases)
next
  case (Release c)
  let ?s1 = "s\<lparr>classes := od_update c (\<lambda>st. st\<lparr>leased := leased st - 1\<rparr>) (classes s)\<rparr>"
  have "configs ?s1 = configs s" by (simp add: configs_def configs_update)
  with Release configs_pump [of ?s1] show ?thesis
    by (auto simp: release_def split: sum.splits option.splits if_splits)
qed (simp add: cancel_wait_def configs_def)

lemma configs_run:
  "configs (store_run sched_step es s) = configs s \<and>
   sched_config (store_run sched_step es s) = sched_config s"
  by (induction es arbitrary: s) (simp_all add: configs_step)

lemma new_scheduler_configs:
  "new_scheduler fc = Inr s \<Longrightarrow> configs s = class_configs fc \<and> sched_config s = fc"
  by (auto simp: new_scheduler_def configs_def split_def comp_def split: sum.splits)

lemma committed_ge_floors: "sum_list (map (\<lambda>p. min_slots (snd p)) (configs s)) \<le> committed s"
  by (auto simp: configs_def committed_def comp_def intro!: sum_list_mono)

lemma committed_idle:
  assumes "base_inv s" and "total_leased s = 0"
  shows "committed s = sum_list (map (\<lambda>p. min_slots (snd p)) (configs s))"
    and "lookup s c = Some st \<Longrightarrow> leased st = 0"
proof -
  have nn: "\<forall>p \<in> set (classes s). 0 \<le> leased (snd p)" using assms(1) by (simp add: base_inv_def)
  have z: "leased (snd p) = 0" if "p \<in> set (classes s)" for p
    using sum_list_ge_member [OF that, of "\<lambda>p. leased (snd p)"] nn that assms(2)
    by (simp add: total_leased_def order_antisym)
  then show "lookup s c = Some st \<Longrightarrow> leased st = 0" by (auto dest!: map_of_SomeD)
  show "committed s = sum_list (map (\<lambda>p. min_slots (snd p)) (configs s))"
    unfolding committed_def configs_def map_map comp_def
    using z assms(1) by (intro arg_cong [where f = sum_list] map_cong) (auto simp: base_inv_def)
qed

text \<open>
  A class without a floor, in a pool whose floors take every slot, is never served: the
  floors of the others are committed even while they are idle.
\<close>

definition locked_out :: "string \<Rightarrow> scheduler \<Rightarrow> bool" where
  "locked_out c s =
     (total_slots (sched_config s) \<le> sum_list (map (\<lambda>p. min_slots (snd p)) (configs s)) \<and>
      (case lookup s c of None \<Rightarrow> False | Some st \<Rightarrow> min_slots (cfg st) = 0 \<and> leased st = 0))"

lemma locked_out_kind:
  assumes "base_inv s" and "locked_out c s" and "lookup s c = Some st"
  shows "kind_of_grant c st s = None"
  using assms committed_ge_floors [of s]
  by (simp add: locked_out_def kind_of_grant_committed [OF base_invD(1) [OF assms(1)] assms(3)])

lemma locked_out_update:
  assumes "locked_out c s" and "classes s' = od_update d f (classes s)"
    and "sched_config s' = sched_config s" and "\<And>st. cfg (f st) = cfg st"
    and "d = c \<Longrightarrow> leased (f st) = leased st" and "lookup s c = Some st"
  shows "locked_out c s'"
  using assms by (auto simp: locked_out_def configs_def configs_update map_of_od_update
      split: option.splits)

lemma locked_out_lookup: "locked_out c s \<Longrightarrow> \<exists>st. lookup s c = Some st \<and> leased st = 0"
  by (auto simp: locked_out_def split: option.splits)

lemma locked_out_pump:
  assumes "base_inv s" and "locked_out c s"
  shows "locked_out c (pump s)"
proof (rule pump_rule [of "\<lambda>s. base_inv s \<and> locked_out c s" s])
  fix s d assume s: "base_inv s \<and> locked_out c s" and d: "choose_class s = Some d"
  obtain sd where sd: "lookup s d = Some sd" "kind_of_grant d sd s \<noteq> None"
    using choose_class_lookup [OF _ d] s by blast
  then have "d \<noteq> c" using locked_out_kind [of s c sd] s by auto
  moreover obtain st where "lookup s c = Some st" using locked_out_lookup [of c s] s by blast
  ultimately have "locked_out c (resolve_one d s)"
    by (intro locked_out_update [where st = st, OF _ resolve_one_classes(1) [OF sd(1)]])
      (simp_all add: s)
  with s d show "base_inv (resolve_one d s) \<and> locked_out c (resolve_one d s)"
    by (simp add: base_inv_resolve)
qed (use assms in \<open>auto simp: locked_out_def\<close>)

lemma grant_classes:
  "classes (grant c s) =
     od_update c (\<lambda>st. st\<lparr>leased := leased st + 1,
       virtual_time := (if kind_of_grant c st s = Some Shared
                        then virtual_time st + 1 / weight (cfg st) else virtual_time st)\<rparr>) (classes s)"
  by (simp add: grant_def)

lemma enqueue_classes:
  "classes (enqueue_waiter c s) =
     od_update c (\<lambda>st. st\<lparr>waiters := waiters st @ [length (futures s)]\<rparr>) (classes s)"
  by (simp add: enqueue_waiter_def)

lemma locked_out_step:
  assumes inv: "sched_inv s" and out: "locked_out c s"
  shows "locked_out c (sched_step e s)"
proof -
  obtain st where st: "lookup s c = Some st" "leased st = 0" using locked_out_lookup [OF out] by blast
  have b: "base_inv s" using inv by (simp add: sched_inv_def)
  have acq: "locked_out c (snd r)" if "acquire d s = Inr r" for d r
    using that
  proof (cases rule: acquire_cases)
    case (fast sd)
    then have "d \<noteq> c" using locked_out_kind [OF b out, of sd] by auto
    then have "locked_out c (grant d s)"
      by (intro locked_out_update [where st = st, OF out grant_classes _ _ _ st(1)])
        (simp_all add: grant_def)
    with fast show ?thesis by (simp add: locked_out_def)
  next
    case (queued sd)
    have "locked_out c (enqueue_waiter d s)"
      by (intro locked_out_update [where st = st, OF out enqueue_classes _ _ _ st(1)])
        (simp_all add: enqueue_waiter_def)
    moreover have "base_inv (enqueue_waiter d s)"
      using inv enqueue_inv(1) [OF _ _ queued(1)] by (simp add: sched_inv_def)
    ultimately show ?thesis using queued by (simp add: locked_out_pump)
  qed
  have rel: "locked_out c s'" if "release d s = Inr s'" for d s'
  proof -
    let ?f = "\<lambda>st. st\<lparr>leased := leased st - 1\<rparr>"
    let ?s1 = "s\<lparr>classes := od_update d ?f (classes s)\<rparr>"
    from that obtain sd where sd: "lookup s d = Some sd" "0 < leased sd"
      and s': "s' = refresh_idle (pump ?s1)"
      by (auto simp: release_def split: option.splits if_splits)
    have "base_inv ?s1"
      using base_inv_update [OF b sd(1), of ?f] sd(2) base_invD(2) [OF b] by simp
    moreover have "d \<noteq> c" using sd st by auto
    then have "locked_out c ?s1"
      by (intro locked_out_update [where st = st and d = d and f = ?f, OF out _ _ _ _ st(1)]) simp_all
    ultimately show ?thesis using locked_out_pump [of ?s1 c] by (simp add: s' locked_out_def)
  qed
  have can: "locked_out c (cancel_wait i s)" for i
    using out by (simp add: cancel_wait_def locked_out_def configs_def)
  show ?thesis
  proof (cases e)
    case (Acquire d)
    then show ?thesis using out acq [of d] by (cases "acquire d s") simp_all
  next
    case (Release d)
    then show ?thesis using out rel [of d] by (cases "release d s") simp_all
  qed (simp add: can)
qed

section \<open>Properties\<close>

abbreviation sched_after :: "sched_event list \<Rightarrow> scheduler \<Rightarrow> scheduler" where
  "sched_after es s \<equiv> store_run sched_step es s"

text \<open>
  C12. In every run of a scheduler with a validated configuration (acquisitions, releases
  and cancelled waiters in any order), the slots leased or reserved as a floor never
  exceed \<^verbatim>\<open>total_slots\<close>; in particular no more slots are leased than the pool has.
\<close>

theorem sched_capacity:
  assumes "new_scheduler fc = Inr s0" and "od_wf (class_configs fc)"
  shows "committed (sched_after es s0) \<le> total_slots fc \<and>
    total_leased (sched_after es s0) \<le> total_slots fc"
proof -
  let ?s = "sched_after es s0"
  have "base_inv ?s"
    using sched.invar_run [OF new_scheduler_inv [OF assms]] by (simp add: sched_inv_def)
  moreover have "sched_config ?s = fc"
    using configs_run [of es s0] new_scheduler_configs [OF assms(1)] by simp
  moreover have "total_leased ?s \<le> committed ?s"
    unfolding total_leased_def committed_def by (rule sum_list_mono) simp
  ultimately show ?thesis using base_invD(2) by fastforce
qed

text \<open>
  The scheduler is work conserving: after every operation of a run, a class with
  waiters has its floor filled and no shared slot is free for it. Capacity never stands
  idle while a class that may use it waits.
\<close>

theorem sched_work_conserving:
  assumes "new_scheduler fc = Inr s0" and "od_wf (class_configs fc)"
    and "map_of (classes (sched_after es s0)) c = Some st" and "waiters st \<noteq> []"
  shows "min_slots (cfg st) \<le> leased st \<and>
    total_slots fc - total_leased (sched_after es s0) \<le> reserved_for_others c (sched_after es s0)"
proof -
  have inv: "sched_inv (sched_after es s0)"
    by (rule sched.invar_run [OF new_scheduler_inv [OF assms(1,2)]])
  have "sched_config (sched_after es s0) = fc"
    using configs_run [of es s0] new_scheduler_configs [OF assms(1)] by simp
  with settledD(1,3) [OF inv assms(3,4)] show ?thesis
    by (simp add: kind_of_grant_def split: if_splits)
qed

text \<open>
  The floor is a guarantee: in every reachable state a class that holds fewer slots
  than its \<^verbatim>\<open>min_slots\<close> is granted a slot at once, without queueing.
\<close>

theorem sched_floor_immediate:
  assumes "new_scheduler fc = Inr s0" and "od_wf (class_configs fc)"
    and "map_of (classes (sched_after es s0)) c = Some st" and "leased st < min_slots (cfg st)"
  shows "\<exists>s'. acquire c (sched_after es s0) = Inr (None, s')"
proof -
  have inv: "sched_inv (sched_after es s0)"
    by (rule sched.invar_run [OF new_scheduler_inv [OF assms(1,2)]])
  have "waiters st = []" using settledD(1) [OF inv assms(3)] assms(4) by fastforce
  with assms(3,4) show ?thesis by (simp add: acquire_def kind_of_grant_def)
qed

text \<open>
  C36. Weighted fairness: while class \<open>b\<close> has waiters throughout a run, the virtual time
  of any other class \<open>a\<close> (shared grants divided by weight) gets ahead of that of \<open>b\<close> by
  at most one grant of \<open>a\<close>, or by what it was ahead before.
\<close>

theorem sched_fair_share:
  assumes "new_scheduler fc = Inr s0" and "od_wf (class_configs fc)" and "s = sched_after es0 s0"
    and "map_of (classes s) a \<noteq> None" and "a \<noteq> b" and "backlogged_throughout b es s"
  shows "vtime (sched_after es s) a - vtime (sched_after es s) b
    \<le> max (vtime s a - vtime s b) (1 / class_weight s a)"
proof -
  let ?M = "max (vtime s a - vtime s b) (1 / class_weight s a)"
  have inv: "sched_inv s"
    unfolding assms(3) by (rule sched.invar_run [OF new_scheduler_inv [OF assms(1,2)]])
  have "ahead_at_most a b ?M s" using assms(4) by (auto simp: ahead_at_most_def)
  from fair_run [OF inv assms(5,6) this]
  have "ahead_at_most a b ?M (sched_after es s)" .
  moreover have "backlogged b (sched_after es s)"
    using assms(6) by (induction es arbitrary: s) auto
  ultimately show ?thesis by (simp add: ahead_at_most_def)
qed

text \<open>
  A release serves the waiters of every class in the order in which they queued: of
  each queue a prefix is taken, with one lease per future taken, and no future of the
  prefix is left pending.
\<close>

theorem sched_release_fifo:
  assumes "sched_inv s" and "release d s = Inr s'" and "map_of (classes s) c = Some st"
  shows "\<exists>k st'. map_of (classes s') c = Some st' \<and> k \<le> length (waiters st) \<and>
    waiters st' = drop k (waiters st) \<and>
    leased st' = leased st - (if c = d then 1 else 0) + int k \<and>
    list_all (\<lambda>i. futures s' ! i \<noteq> Pending) (take k (waiters st))"
proof -
  let ?f = "\<lambda>st. st\<lparr>leased := leased st - 1\<rparr>"
  let ?s1 = "s\<lparr>classes := od_update d ?f (classes s)\<rparr>"
  from assms(2) obtain sd where sd: "map_of (classes s) d = Some sd" "0 < leased sd"
    and s': "s' = refresh_idle (pump ?s1)"
    by (auto simp: release_def split: option.splits if_splits)
  have b: "base_inv s" and f: "fut_inv s" using assms(1) by (simp_all add: sched_inv_def)
  have "base_inv ?s1"
    using base_inv_update [OF b sd(1), of ?f] sd(2) base_invD(2) [OF b] by simp
  moreover have "fut_inv ?s1" using f by (subst fut_inv_update) simp_all
  moreover have "map_of (classes ?s1) c = Some (if c = d then ?f st else st)"
    using assms(3) by (auto simp: map_of_od_update)
  ultimately obtain k st' where "map_of (classes (pump ?s1)) c = Some st'"
      "served_from (pump ?s1) (if c = d then ?f st else st) k st'"
    using pump_fifo by blast
  then show ?thesis
    unfolding s' served_from_def by (intro exI [of _ k] exI [of _ st']) (simp split: if_splits)
qed

text \<open>
  No deadlock: if every class has a floor or the floors leave a shared slot, then in
  every reachable state in which no slot is leased nobody waits.
\<close>

theorem sched_no_deadlock:
  assumes "new_scheduler fc = Inr s0" and "od_wf (class_configs fc)"
    and "list_all (\<lambda>p. 0 < min_slots (snd p)) (class_configs fc) \<or>
      sum_list (map (\<lambda>p. min_slots (snd p)) (class_configs fc)) < total_slots fc"
    and "total_leased (sched_after es s0) = 0"
    and "map_of (classes (sched_after es s0)) c = Some st"
  shows "waiters st = []"
proof (rule ccontr)
  let ?s = "sched_after es s0"
  assume w: "waiters st \<noteq> []"
  have inv: "sched_inv ?s" by (rule sched.invar_run [OF new_scheduler_inv [OF assms(1,2)]])
  then have b: "base_inv ?s" by (simp add: sched_inv_def)
  have conf: "configs ?s = class_configs fc" "sched_config ?s = fc"
    using configs_run [of es s0] new_scheduler_configs [OF assms(1)] by simp_all
  have "(c, cfg st) \<in> set (configs ?s)"
    using map_of_SomeD [OF assms(5)] by (force simp: configs_def)
  then have "(c, cfg st) \<in> set (class_configs fc)" by (simp add: conf)
  moreover have "min_slots (cfg st) \<le> 0"
    using settledD(1) [OF inv assms(5) w] committed_idle(2) [OF b assms(4,5)] by simp
  moreover have "total_slots fc \<le> sum_list (map (\<lambda>p. min_slots (snd p)) (class_configs fc))"
    using settledD(2) [OF inv assms(5) w] committed_idle(1) [OF b assms(4)] conf by simp
  ultimately show False using assms(3) by (auto simp: list_all_iff)
qed

text \<open>
  A class without a floor in a pool whose floors add up to \<^verbatim>\<open>total_slots\<close> is accepted
  by \<^verbatim>\<open>validate\<close> and never granted a slot, whatever the others do, even when the pool is
  completely idle.
\<close>

theorem zero_floor_locked_out:
  assumes "new_scheduler fc = Inr s0" and "od_wf (class_configs fc)"
    and "map_of (class_configs fc) c = Some cc" and "min_slots cc = 0"
    and "sum_list (map (\<lambda>p. min_slots (snd p)) (class_configs fc)) = total_slots fc"
  shows "map_option leased (map_of (classes (sched_after es s0)) c) = Some 0"
proof -
  have s0: "classes s0 = map (\<lambda>(n, c). (n, \<lparr>cfg = c, leased = 0, virtual_time = 0, waiters = []\<rparr>))
      (class_configs fc)"
    using assms(1) by (auto simp: new_scheduler_def split: sum.splits)
  have "map_of (classes s0) c =
      map_option (\<lambda>c. \<lparr>cfg = c, leased = 0, virtual_time = 0, waiters = []\<rparr>) (map_of (class_configs fc) c)"
    unfolding s0 by (simp add: map_of_map)
  then have "locked_out c s0"
    using assms(3-5) new_scheduler_configs [OF assms(1)] by (simp add: locked_out_def)
  then have "locked_out c (sched_after es s0)"
    by (rule sched.bounded_run [OF new_scheduler_inv [OF assms(1,2)]]) (rule locked_out_step)
  then show ?thesis using locked_out_lookup by fastforce
qed

text \<open>
  A slot can be lost. In a pool of one slot, a second caller queues and is then
  cancelled, and the first releases. The pump hands the slot to the cancelled future, so
  the slot stays leased with nobody holding or waiting for it: \<^verbatim>\<open>drain\<close> does not return and
  the next caller queues with nobody left to release.
\<close>

theorem cancelled_waiter_loses_slot:
  "case new_scheduler \<lparr>total_slots = 1, class_configs = [(''embedding'', \<lparr>weight = 1, min_slots = 0\<rparr>)]\<rparr> of
     Inl _ \<Rightarrow> False
   | Inr s0 \<Rightarrow>
       let s = sched_after [Acquire ''embedding'', Acquire ''embedding'', Cancel 0,
                            Release ''embedding''] s0
       in futures s = [Cancelled] \<and> total_queued s = 0 \<and> total_leased s = 1 \<and>
          \<not> drain_returns s \<and> map_option fst (case acquire ''embedding'' s of Inl _ \<Rightarrow> None | Inr r \<Rightarrow> Some r)
            = Some (Some 1)"
  by code_simp

subsection \<open>Witnesses\<close>

definition demo_fairness :: fairness_config where
  "demo_fairness = \<lparr>total_slots = 3,
     class_configs = [(''generation'', \<lparr>weight = 2, min_slots = 1\<rparr>),
                      (''embedding'', \<lparr>weight = 1, min_slots = 1\<rparr>)]\<rparr>"

definition demo_sched :: scheduler where
  "demo_sched = \<lparr>sched_config = demo_fairness,
     classes = [(''generation'', \<lparr>cfg = \<lparr>weight = 2, min_slots = 1\<rparr>, leased = 0,
                   virtual_time = 0, waiters = []\<rparr>),
                (''embedding'', \<lparr>cfg = \<lparr>weight = 1, min_slots = 1\<rparr>, leased = 0,
                   virtual_time = 0, waiters = []\<rparr>)],
     idle = True, futures = []\<rparr>"

definition demo_busy :: "sched_event list" where
  "demo_busy = [Acquire ''generation'', Acquire ''generation'', Acquire ''embedding'',
     Acquire ''embedding'', Acquire ''embedding'', Acquire ''generation'']"

lemma demo_new: "new_scheduler demo_fairness = Inr demo_sched"
  by (simp add: new_scheduler_def demo_fairness_def demo_sched_def validate_def)

lemma demo_wf: "od_wf (class_configs demo_fairness)"
  by (simp add: demo_fairness_def od_wf_def od_keys_def)

lemma demo_busy_state:
  "sched_after demo_busy demo_sched = \<lparr>sched_config = demo_fairness,
     classes = [(''generation'', \<lparr>cfg = \<lparr>weight = 2, min_slots = 1\<rparr>, leased = 2,
                   virtual_time = 1 / 2, waiters = [2]\<rparr>),
                (''embedding'', \<lparr>cfg = \<lparr>weight = 1, min_slots = 1\<rparr>, leased = 1,
                   virtual_time = 0, waiters = [0, 1]\<rparr>)],
     idle = False, futures = [Pending, Pending, Pending]\<rparr>"
  by code_simp

theorem sched_capacity_witness:
  "committed (sched_after demo_busy demo_sched) \<le> 3 \<and> total_leased (sched_after demo_busy demo_sched) \<le> 3"
  using sched_capacity [OF demo_new demo_wf] by (simp add: demo_fairness_def)

theorem sched_work_conserving_witness:
  "reserved_for_others ''embedding'' (sched_after demo_busy demo_sched) \<ge>
     3 - total_leased (sched_after demo_busy demo_sched)"
proof -
  obtain st where "map_of (classes (sched_after demo_busy demo_sched)) ''embedding'' = Some st"
      "waiters st \<noteq> []"
    by (simp add: demo_busy_state)
  from sched_work_conserving [OF demo_new demo_wf this] show ?thesis by (simp add: demo_fairness_def)
qed

theorem sched_floor_immediate_witness:
  "\<exists>s'. acquire ''embedding'' (sched_after [] demo_sched) = Inr (None, s')"
proof -
  obtain st where "map_of (classes (sched_after [] demo_sched)) ''embedding'' = Some st"
      "leased st < min_slots (cfg st)"
    by (simp add: demo_sched_def)
  from sched_floor_immediate [OF demo_new demo_wf this] show ?thesis .
qed

theorem sched_fair_share_witness:
  "let s = sched_after demo_busy demo_sched; s' = sched_after [Release ''generation''] s
   in vtime s' ''generation'' - vtime s' ''embedding'' \<le> 1 / 2"
proof -
  let ?s = "sched_after demo_busy demo_sched"
  have "map_of (classes ?s) ''generation'' \<noteq> None" "''generation'' \<noteq> ''embedding''"
    by (simp_all add: demo_busy_state)
  moreover have "backlogged_throughout ''embedding'' [Release ''generation''] ?s"
    unfolding demo_busy_state by code_simp
  ultimately have "vtime (sched_after [Release ''generation''] ?s) ''generation'' -
      vtime (sched_after [Release ''generation''] ?s) ''embedding''
    \<le> max (vtime ?s ''generation'' - vtime ?s ''embedding'') (1 / class_weight ?s ''generation'')"
    by (rule sched_fair_share [OF demo_new demo_wf refl])
  also have "\<dots> = 1 / 2" by (simp add: demo_busy_state vtime_def class_weight_def)
  finally show ?thesis by (simp add: Let_def)
qed

theorem sched_release_fifo_witness:
  "\<exists>s' k st'. release ''generation'' (sched_after demo_busy demo_sched) = Inr s' \<and>
     map_of (classes s') ''embedding'' = Some st' \<and> waiters st' = drop k [0, 1]"
proof -
  let ?s = "sched_after demo_busy demo_sched"
  have inv: "sched_inv ?s" by (rule sched.invar_run [OF new_scheduler_inv [OF demo_new demo_wf]])
  obtain s' where s': "release ''generation'' ?s = Inr s'"
    by (simp add: release_def demo_busy_state)
  obtain st where "map_of (classes ?s) ''embedding'' = Some st" "waiters st = [0, 1]"
    by (simp add: demo_busy_state)
  with sched_release_fifo [OF inv s' this(1)] s' show ?thesis by fastforce
qed

theorem sched_no_deadlock_witness:
  "total_queued (sched_after [Acquire ''generation'', Release ''generation''] demo_sched) = 0"
proof -
  let ?s = "sched_after [Acquire ''generation'', Release ''generation''] demo_sched"
  have "list_all (\<lambda>p. 0 < min_slots (snd p)) (class_configs demo_fairness) \<or>
      sum_list (map (\<lambda>p. min_slots (snd p)) (class_configs demo_fairness)) < total_slots demo_fairness"
    by (simp add: demo_fairness_def)
  moreover have "total_leased ?s = 0" by code_simp
  ultimately have "waiters st = []" if "map_of (classes ?s) c = Some st" for c st
    by (rule sched_no_deadlock [OF demo_new demo_wf _ _ that])
  moreover have "od_wf (classes ?s)"
    using sched.invar_run [OF new_scheduler_inv [OF demo_new demo_wf]] base_invD(1)
    unfolding sched_inv_def by blast
  ultimately have "\<forall>p \<in> set (classes ?s). waiters (snd p) = []" by (simp add: od_wf_ball)
  then show ?thesis by (simp add: total_queued_def)
qed

theorem zero_floor_locked_out_witness:
  "let fc = \<lparr>total_slots = 2, class_configs = [(''generation'', \<lparr>weight = 1, min_slots = 2\<rparr>),
               (''embedding'', \<lparr>weight = 1, min_slots = 0\<rparr>)]\<rparr>
   in case new_scheduler fc of
        Inl _ \<Rightarrow> False
      | Inr s0 \<Rightarrow> map_option leased (map_of (classes (sched_after
          [Acquire ''embedding'', Acquire ''embedding''] s0)) ''embedding'') = Some 0"
proof -
  let ?fc = "\<lparr>total_slots = 2, class_configs = [(''generation'', \<lparr>weight = 1, min_slots = 2\<rparr>),
               (''embedding'', \<lparr>weight = 1, min_slots = 0\<rparr>)]\<rparr>"
  obtain s0 where s0: "new_scheduler ?fc = Inr s0" by (simp add: new_scheduler_def validate_def)
  have "od_wf (class_configs ?fc)" by (simp add: od_wf_def od_keys_def)
  from zero_floor_locked_out [OF s0 this, of "''embedding''" "\<lparr>weight = 1, min_slots = 0\<rparr>"
      "[Acquire ''embedding'', Acquire ''embedding'']"]
  show ?thesis using s0 by (simp add: Let_def)
qed

end
