(* ===== verification/Py_Text.thy ===== *)
theory Py_Text
  imports Sie_Prelude
begin

text \<open>
  The string operations of Python the components use, on ASCII strings: stripping and
  case mapping, affix tests, and the number readers \<^verbatim>\<open>int(text)\<close> and \<^verbatim>\<open>float(text)\<close> with
  their grammar (surrounding whitespace, a sign, digit groups joined by single
  underscores, the special values). Printing a natural number in decimal and reading it
  back is the identity.
\<close>

section \<open>Characters\<close>

definition char_code :: "char \<Rightarrow> nat" where
  "char_code c = of_char c"

definition is_space :: "char \<Rightarrow> bool" where
  "is_space c = (char_code c = 32 \<or> (9 \<le> char_code c \<and> char_code c \<le> 13)
     \<or> (28 \<le> char_code c \<and> char_code c \<le> 31))"

definition is_digit :: "char \<Rightarrow> bool" where
  "is_digit c = (48 \<le> char_code c \<and> char_code c \<le> 57)"

definition digit_val :: "char \<Rightarrow> nat" where
  "digit_val c = char_code c - 48"

definition lower_char :: "char \<Rightarrow> char" where
  "lower_char c =
     (if 65 \<le> char_code c \<and> char_code c \<le> 90 then char_of (char_code c + 32) else c)"

definition upper_char :: "char \<Rightarrow> char" where
  "upper_char c =
     (if 97 \<le> char_code c \<and> char_code c \<le> 122 then char_of (char_code c - 32) else c)"

definition py_lower :: "string \<Rightarrow> string" where
  "py_lower s = map lower_char s"

definition py_upper :: "string \<Rightarrow> string" where
  "py_upper s = map upper_char s"

definition py_lstrip :: "string \<Rightarrow> string" where
  "py_lstrip s = dropWhile is_space s"

definition py_strip :: "string \<Rightarrow> string" where
  "py_strip s = rev (dropWhile is_space (rev (dropWhile is_space s)))"

definition py_startswith :: "string \<Rightarrow> string \<Rightarrow> bool" where
  "py_startswith pre s = (take (length pre) s = pre)"

definition py_endswith :: "string \<Rightarrow> string \<Rightarrow> bool" where
  "py_endswith suf s = (length suf \<le> length s \<and> drop (length s - length suf) s = suf)"

text \<open>\<^verbatim>\<open>s.split(sep)\<close> for a one-character separator.\<close>

fun py_split :: "char \<Rightarrow> string \<Rightarrow> string list" where
  "py_split sep [] = [[]]"
| "py_split sep (c # cs) =
     (if c = sep then [] # py_split sep cs
      else case py_split sep cs of [] \<Rightarrow> [[c]] | w # ws \<Rightarrow> (c # w) # ws)"

text \<open>\<^verbatim>\<open>sub in s\<close>.\<close>

fun py_contains :: "string \<Rightarrow> string \<Rightarrow> bool" where
  "py_contains sub [] = (sub = [])"
| "py_contains sub (c # cs) = (py_startswith sub (c # cs) \<or> py_contains sub cs)"

section \<open>Reading numbers\<close>

fun digit_rest :: "string \<Rightarrow> nat list \<times> string" where
  "digit_rest [] = ([], [])"
| "digit_rest (c # cs) =
     (if is_digit c then let (ds, r) = digit_rest cs in (digit_val c # ds, r)
      else if c = CHR ''_'' \<and> cs \<noteq> [] \<and> is_digit (hd cs) then digit_rest cs
      else ([], c # cs))"

definition digit_part :: "string \<Rightarrow> nat list \<times> string" where
  "digit_part s = (if s \<noteq> [] \<and> is_digit (hd s) then digit_rest s else ([], s))"

definition digits_value :: "nat list \<Rightarrow> nat" where
  "digits_value ds = foldl (\<lambda>a d. 10 * a + d) 0 ds"

definition read_sign :: "string \<Rightarrow> int \<times> string" where
  "read_sign s =
     (case s of [] \<Rightarrow> (1, [])
      | c # cs \<Rightarrow> if c = CHR ''-'' then (- 1, cs) else if c = CHR ''+'' then (1, cs) else (1, s))"

definition py_read_int :: "string \<Rightarrow> int option" where
  "py_read_int s =
     (let (sg, body) = read_sign (py_strip s); (ds, r) = digit_part body
      in if ds = [] \<or> r \<noteq> [] then None else Some (sg * int (digits_value ds)))"

datatype py_float = Finite real | Infinite int | NaN

definition read_exponent :: "string \<Rightarrow> int option" where
  "read_exponent s =
     (case s of
        [] \<Rightarrow> Some 0
      | c # cs \<Rightarrow>
          if c = CHR ''e'' \<or> c = CHR ''E''
          then let (sg, body) = read_sign cs; (ds, r) = digit_part body
               in if ds = [] \<or> r \<noteq> [] then None else Some (sg * int (digits_value ds))
          else None)"

definition read_decimal :: "int \<Rightarrow> string \<Rightarrow> py_float option" where
  "read_decimal sg body =
     (let (ip, r) = digit_part body;
          (fp, r') = (if r \<noteq> [] \<and> hd r = CHR ''.'' then digit_part (tl r) else ([], r))
      in if ip = [] \<and> fp = [] then None
         else case read_exponent r' of
                None \<Rightarrow> None
              | Some e \<Rightarrow> Some (Finite (real_of_int sg * real (digits_value (ip @ fp))
                            * 10 powi (e - int (length fp)))))"

definition py_read_float :: "string \<Rightarrow> py_float option" where
  "py_read_float s =
     (let (sg, body) = read_sign (py_strip s); low = py_lower body
      in if low = ''inf'' \<or> low = ''infinity'' then Some (Infinite sg)
         else if low = ''nan'' then Some NaN
         else read_decimal sg body)"

section \<open>Printing and reading back\<close>

definition digit_char :: "nat \<Rightarrow> char" where
  "digit_char d = char_of (48 + d)"

fun show_nat :: "nat \<Rightarrow> string" where
  "show_nat n = (if n < 10 then [digit_char n] else show_nat (n div 10) @ [digit_char (n mod 10)])"

declare show_nat.simps [simp del]

lemma digit_char_simps:
  assumes "d < 10"
  shows "is_digit (digit_char d)" "digit_val (digit_char d) = d"
    "\<not> is_space (digit_char d)" "digit_char d \<noteq> CHR ''-''" "digit_char d \<noteq> CHR ''+''"
proof -
  have c: "char_code (digit_char d) = 48 + d"
    using assms by (simp add: char_code_def digit_char_def)
  then show "is_digit (digit_char d)" "digit_val (digit_char d) = d" "\<not> is_space (digit_char d)"
    using assms by (simp_all add: is_digit_def digit_val_def is_space_def)
  show "digit_char d \<noteq> CHR ''-''" "digit_char d \<noteq> CHR ''+''"
    using c by (auto simp: char_code_def)
qed

lemma show_nat_digits: "\<forall>c \<in> set (show_nat n). \<exists>d < 10. c = digit_char d"
proof (induction n rule: show_nat.induct)
  case (1 n)
  then show ?case by (subst show_nat.simps) (auto intro: exI [of _ "n mod 10"])
qed

lemma show_nat_nonempty [simp]: "show_nat n \<noteq> []"
  by (subst show_nat.simps) simp

lemma digit_rest_digits:
  assumes "\<forall>c \<in> set s. is_digit c" and "r = [] \<or> (\<not> is_digit (hd r) \<and> hd r \<noteq> CHR ''_'')"
  shows "digit_rest (s @ r) = (map digit_val s, r)"
  using assms
proof (induction s)
  case Nil
  then show ?case by (cases r) auto
qed simp

lemma digits_value_snoc: "digits_value (ds @ [d]) = 10 * digits_value ds + d"
  by (simp add: digits_value_def)

lemma digits_value_show: "digits_value (map digit_val (show_nat n)) = n"
proof (induction n rule: show_nat.induct)
  case (1 n)
  show ?case
  proof (cases "n < 10")
    case True
    then have "show_nat n = [digit_char n]" by (simp add: show_nat.simps [of n])
    with True show ?thesis by (simp add: digits_value_def digit_char_simps)
  next
    case False
    then have "show_nat n = show_nat (n div 10) @ [digit_char (n mod 10)]"
      by (simp add: show_nat.simps [of n])
    with 1 [OF False] show ?thesis by (simp add: digits_value_snoc digit_char_simps)
  qed
qed

lemma dropWhile_hd: "s \<noteq> [] \<Longrightarrow> \<not> P (hd s) \<Longrightarrow> dropWhile P s = s"
  by (cases s) auto

lemma py_strip_id:
  "s \<noteq> [] \<Longrightarrow> \<not> is_space (hd s) \<Longrightarrow> \<not> is_space (last s) \<Longrightarrow> py_strip s = s"
  by (simp add: py_strip_def dropWhile_hd hd_rev)

lemma show_nat_props:
  "\<forall>c \<in> set (show_nat n). is_digit c" "\<forall>c \<in> set (show_nat n). \<not> is_space c"
  "hd (show_nat n) \<noteq> CHR ''-''" "hd (show_nat n) \<noteq> CHR ''+''"
proof -
  have d: "\<exists>d < 10. c = digit_char d" if "c \<in> set (show_nat n)" for c
    using show_nat_digits [of n] that by (rule bspec)
  show "\<forall>c \<in> set (show_nat n). is_digit c" "\<forall>c \<in> set (show_nat n). \<not> is_space c"
    by (auto dest!: d simp: digit_char_simps)
  obtain e where "e < 10" "hd (show_nat n) = digit_char e"
    using d [OF hd_in_set [OF show_nat_nonempty]] by blast
  then show "hd (show_nat n) \<noteq> CHR ''-''" "hd (show_nat n) \<noteq> CHR ''+''"
    by (simp_all add: digit_char_simps)
qed

lemma strip_show_nat [simp]: "py_strip (show_nat n) = show_nat n"
  using show_nat_props(2) [of n] by (intro py_strip_id) auto

lemma read_sign_show_nat [simp]: "read_sign (show_nat n) = (1, show_nat n)"
proof (cases "show_nat n")
  case (Cons c cs)
  then show ?thesis using show_nat_props(3,4) [of n] by (simp add: read_sign_def)
qed simp

lemma digit_part_show_nat:
  assumes "r = [] \<or> (\<not> is_digit (hd r) \<and> hd r \<noteq> CHR ''_'')"
  shows "digit_part (show_nat n @ r) = (map digit_val (show_nat n), r)"
proof -
  have "is_digit (hd (show_nat n @ r))" using show_nat_props(1) [of n] by simp
  then show ?thesis
    using digit_rest_digits [OF show_nat_props(1) assms] by (simp add: digit_part_def)
qed

lemma py_read_int_show: "py_read_int (show_nat n) = Some (int n)"
  using digit_part_show_nat [of "[]" n] by (simp add: py_read_int_def digits_value_show)

lemma lower_show_nat: "hd (py_lower (show_nat n)) = hd (show_nat n)"
proof -
  have "is_digit (hd (show_nat n))" using show_nat_props(1) [of n] by simp
  then show ?thesis by (simp add: py_lower_def hd_map lower_char_def is_digit_def)
qed

lemma py_read_float_show: "py_read_float (show_nat n) = Some (Finite (real n))"
proof -
  have d: "is_digit (hd (py_lower (show_nat n)))"
    using show_nat_props(1) [of n] by (simp add: lower_show_nat)
  have ne: "py_lower (show_nat n) \<noteq> t" if "\<not> is_digit (hd t)" for t
    using d that by auto
  have "py_lower (show_nat n) \<noteq> ''inf''" "py_lower (show_nat n) \<noteq> ''infinity''"
    "py_lower (show_nat n) \<noteq> ''nan''"
    by (rule ne, simp add: is_digit_def char_code_def)+
  moreover have "read_decimal 1 (show_nat n) = Some (Finite (real n))"
    using digit_part_show_nat [of "[]" n]
    by (simp add: read_decimal_def read_exponent_def digits_value_show)
  ultimately show ?thesis by (simp add: py_read_float_def Let_def)
qed

end
