(* ===== verification/Memory.thy ===== *)
theory Memory
  imports Py_Text
begin

text \<open>
  Device memory accounting and the choice of eviction victims: \<^verbatim>\<open>core/memory.py\<close> and the
  pure decision of \<^verbatim>\<open>core/residency.py\<close>. The answers of \<^verbatim>\<open>torch\<close> and \<^verbatim>\<open>psutil\<close> are the
  record \<open>device_env\<close>, an argument of every operation that queries a device. Shown: the
  budget reader scales by the unit it is given, the manager is a least-recently-used
  store (an instance of \<open>lru_store\<close>), so the victim it names is the longest unused model,
  and in synthetic mode the pressure test is an exact function of the registered models.
\<close>

section \<open>Memory budgets\<close>

definition size_suffixes :: "(string \<times> int) list" where
  "size_suffixes =
     [(''KIB'', 1024), (''MIB'', 1024 ^ 2), (''GIB'', 1024 ^ 3), (''TIB'', 1024 ^ 4),
      (''KB'', 1000), (''MB'', 1000 ^ 2), (''GB'', 1000 ^ 3), (''TB'', 1000 ^ 4)]"

text \<open>\<^verbatim>\<open>int(float(number) * multiplier)\<close>: the three kinds of float behave differently.\<close>

definition scaled_int :: "py_float option \<Rightarrow> int \<Rightarrow> int result" where
  "scaled_int f m =
     (case f of
        None \<Rightarrow> Inl (ValueError ''could not convert string to float'')
      | Some (Finite x) \<Rightarrow> Inr (py_int (x * real_of_int m))
      | Some (Infinite _) \<Rightarrow> Inl OverflowError
      | Some NaN \<Rightarrow> Inl (ValueError ''cannot convert float NaN to integer''))"

definition parse_plain_int :: "string \<Rightarrow> int result" where
  "parse_plain_int text =
     (case py_read_int text of
        Some n \<Rightarrow> Inr n
      | None \<Rightarrow> Inl (ValueError ''invalid SIE_FAKE_MEMORY_BUDGET value''))"

definition parse_memory_budget :: "string \<Rightarrow> int result" where
  "parse_memory_budget value =
     (let text = py_strip value; upper = py_upper text
      in case find (\<lambda>(suffix, m). py_endswith suffix upper) size_suffixes of
           None \<Rightarrow> parse_plain_int text
         | Some (suffix, m) \<Rightarrow>
             (case scaled_int (py_read_float (py_strip (take (length text - length suffix) text))) m of
                Inl (ValueError _) \<Rightarrow> parse_plain_int text
              | r \<Rightarrow> r))"

section \<open>Statistics and trackers\<close>

record memory_stats =
  used_bytes :: int
  total_bytes :: int
  stats_device :: string

definition usage_ratio :: "memory_stats \<Rightarrow> real" where
  "usage_ratio st =
     (if total_bytes st = 0 then 0 else real_of_int (used_bytes st) / real_of_int (total_bytes st))"

definition available_bytes :: "memory_stats \<Rightarrow> int" where
  "available_bytes st = max 0 (total_bytes st - used_bytes st)"

record device_env =
  cuda_mem_info :: "int \<Rightarrow> (int \<times> int) option"
  mps_allocated :: "int option"
  mps_recommended :: "int result option"
  virtual_memory :: "(int \<times> int) option"

datatype tracker = CUDATracker int | MPSTracker | CPUTracker | SyntheticTracker int

definition mps_total :: "device_env \<Rightarrow> int" where
  "mps_total env =
     (let tot = (case mps_recommended env of Some (Inr t) \<Rightarrow> t | _ \<Rightarrow> 0)
      in if tot \<noteq> 0 then tot
         else case virtual_memory env of Some (used, t) \<Rightarrow> t | None \<Rightarrow> 32 * 1024 ^ 3)"

fun tracker_stats :: "device_env \<Rightarrow> int \<Rightarrow> tracker \<Rightarrow> memory_stats" where
  "tracker_stats env declared (CUDATracker i) =
     (case cuda_mem_info env i of
        None \<Rightarrow> \<lparr>used_bytes = 0, total_bytes = 0, stats_device = ''cuda''\<rparr>
      | Some (free, tot) \<Rightarrow>
          \<lparr>used_bytes = tot - free, total_bytes = tot, stats_device = ''cuda''\<rparr>)"
| "tracker_stats env declared MPSTracker =
     (case mps_allocated env of
        None \<Rightarrow> \<lparr>used_bytes = 0, total_bytes = 0, stats_device = ''mps''\<rparr>
      | Some used \<Rightarrow> \<lparr>used_bytes = used, total_bytes = mps_total env, stats_device = ''mps''\<rparr>)"
| "tracker_stats env declared CPUTracker =
     (case virtual_memory env of
        None \<Rightarrow> \<lparr>used_bytes = 0, total_bytes = 0, stats_device = ''cpu''\<rparr>
      | Some (used, tot) \<Rightarrow> \<lparr>used_bytes = used, total_bytes = tot, stats_device = ''cpu''\<rparr>)"
| "tracker_stats env declared (SyntheticTracker budget) =
     \<lparr>used_bytes = declared, total_bytes = budget, stats_device = ''synthetic''\<rparr>"

definition create_memory_tracker :: "string option \<Rightarrow> bool \<Rightarrow> string \<Rightarrow> tracker result" where
  "create_memory_tracker budget_raw has_declared device =
     (case (budget_raw, has_declared) of
        (Some raw, True) \<Rightarrow>
          (case parse_memory_budget raw of
             Inl e \<Rightarrow> Inl e
           | Inr budget \<Rightarrow>
               if budget \<le> 0 then Inl (ValueError ''synthetic memory budget must be positive'')
               else Inr (SyntheticTracker budget))
      | _ \<Rightarrow>
          (let device_lower = py_lower device
           in if py_startswith ''cuda'' device_lower
              then if CHR '':'' \<in> set device_lower
                   then case py_read_int (py_split CHR '':'' device_lower ! 1) of
                          None \<Rightarrow> Inl (ValueError ''invalid literal for int()'')
                        | Some i \<Rightarrow> Inr (CUDATracker i)
                   else Inr (CUDATracker 0)
              else if device_lower = ''mps'' then Inr MPSTracker
              else Inr CPUTracker))"

section \<open>The memory manager\<close>

record model_memory_info =
  model_name :: string
  model_device :: string
  loaded_at :: real
  last_used_at :: real
  estimated_bytes :: "int option"

record memory_config =
  pressure_threshold :: real
  min_free_bytes :: "int option"
  memory_check_interval_s :: real

definition default_memory_config :: memory_config where
  "default_memory_config =
     \<lparr>pressure_threshold = 95 / 100, min_free_bytes = None, memory_check_interval_s = 1\<rparr>"

record memory_manager =
  mm_device :: string
  mm_config :: memory_config
  models :: "(string, model_memory_info) odict"
  mm_tracker :: tracker

definition new_memory_manager ::
    "string option \<Rightarrow> string \<Rightarrow> memory_config option \<Rightarrow> memory_manager result" where
  "new_memory_manager budget_raw device c =
     (case create_memory_tracker budget_raw True device of
        Inl e \<Rightarrow> Inl e
      | Inr t \<Rightarrow> Inr \<lparr>mm_device = device,
          mm_config = (case c of Some c \<Rightarrow> c | None \<Rightarrow> default_memory_config),
          models = [], mm_tracker = t\<rparr>)"

definition declared_used_bytes :: "memory_manager \<Rightarrow> int" where
  "declared_used_bytes m =
     sum_list (map (\<lambda>p. case estimated_bytes (snd p) of None \<Rightarrow> 0 | Some b \<Rightarrow> b) (models m))"

definition loaded_models :: "memory_manager \<Rightarrow> string list" where
  "loaded_models m = od_keys (models m)"

definition get_stats :: "device_env \<Rightarrow> memory_manager \<Rightarrow> memory_stats" where
  "get_stats env m = tracker_stats env (declared_used_bytes m) (mm_tracker m)"

text \<open>The two clock readings are those of the fields \<open>loaded_at\<close> and \<open>last_used_at\<close>.\<close>

definition register_model ::
    "string \<Rightarrow> int option \<Rightarrow> real \<Rightarrow> real \<Rightarrow> memory_manager \<Rightarrow> memory_manager" where
  "register_model name est t0 t1 m =
     (let info = \<lparr>model_name = name, model_device = mm_device m, loaded_at = t0,
                  last_used_at = t1, estimated_bytes = est\<rparr>
      in m\<lparr>models := od_move_to_end name (od_set name info (models m))\<rparr>)"

definition unregister_model :: "string \<Rightarrow> memory_manager \<Rightarrow> memory_manager" where
  "unregister_model name m =
     (if od_mem name (models m) then m\<lparr>models := od_del name (models m)\<rparr> else m)"

definition touch :: "string \<Rightarrow> real \<Rightarrow> memory_manager \<Rightarrow> memory_manager" where
  "touch name now m =
     (if od_mem name (models m)
      then m\<lparr>models := od_move_to_end name
              (od_update name (\<lambda>info. info\<lparr>last_used_at := now\<rparr>) (models m))\<rparr>
      else m)"

definition get_model_info :: "string \<Rightarrow> memory_manager \<Rightarrow> model_memory_info option" where
  "get_model_info name m = map_of (models m) name"

definition check_pressure :: "device_env \<Rightarrow> memory_manager \<Rightarrow> bool" where
  "check_pressure env m =
     (let stats = get_stats env m
      in if pressure_threshold (mm_config m) < usage_ratio stats then True
         else case min_free_bytes (mm_config m) of
                None \<Rightarrow> False
              | Some b \<Rightarrow> available_bytes stats < b)"

definition get_lru_model :: "string set \<Rightarrow> memory_manager \<Rightarrow> string option" where
  "get_lru_model exclude m = find (\<lambda>n. py_lower n \<notin> exclude) (od_keys (models m))"

definition get_idle_models ::
    "real \<Rightarrow> real \<Rightarrow> string set \<Rightarrow> memory_manager \<Rightarrow> string list result" where
  "get_idle_models idle_threshold_s ref exclude m =
     (if idle_threshold_s < 0 then Inl (ValueError ''idle_threshold_s must be >= 0'')
      else let idle = map (\<lambda>p. (last_used_at (snd p), fst p))
                 (filter (\<lambda>p. py_lower (fst p) \<notin> exclude \<and>
                    idle_threshold_s \<le> ref - last_used_at (snd p)) (models m))
           in Inr (map snd (sort_key fst idle)))"

text \<open>The device is queried twice, so the two readings may differ.\<close>

definition should_evict_for_load ::
    "device_env \<Rightarrow> device_env \<Rightarrow> int option \<Rightarrow> memory_manager \<Rightarrow> bool" where
  "should_evict_for_load env env' required m =
     (let stats = get_stats env m
      in if check_pressure env' m then True
         else case required of
                None \<Rightarrow> False
              | Some r \<Rightarrow> available_bytes stats < r)"

section \<open>Choosing a victim\<close>

datatype eviction_result = EVICTED | NO_CANDIDATE | LOCK_TIMEOUT | UNLOAD_FAILED

fun select_eviction_candidate ::
    "string list \<Rightarrow> string \<Rightarrow> (string \<Rightarrow> bool) \<Rightarrow> string set \<Rightarrow> string set \<Rightarrow> string set \<Rightarrow> string option"
where
  "select_eviction_candidate [] exclude_name is_pinned loaded unloading releasing = None"
| "select_eviction_candidate (c # cs) exclude_name is_pinned loaded unloading releasing =
     (if c = exclude_name \<or> is_pinned c \<or> c \<notin> loaded \<or> c \<in> unloading \<or> py_lower c \<in> releasing
      then select_eviction_candidate cs exclude_name is_pinned loaded unloading releasing
      else Some c)"

section \<open>The manager as a least-recently-used store\<close>

datatype memory_event =
    Register string "int option" real real
  | Unregister string
  | Touch string real

primrec memory_step :: "memory_event \<Rightarrow> memory_manager \<Rightarrow> memory_manager" where
  "memory_step (Register n est t0 t1) m = register_model n est t0 t1 m"
| "memory_step (Unregister n) m = unregister_model n m"
| "memory_step (Touch n t) m = touch n t m"

primrec memory_used :: "memory_event \<Rightarrow> memory_manager \<Rightarrow> string option" where
  "memory_used (Register n est t0 t1) m = Some n"
| "memory_used (Unregister n) m = None"
| "memory_used (Touch n t) m = (if od_mem n (models m) then Some n else None)"

definition mm_inv :: "memory_manager \<Rightarrow> bool" where
  "mm_inv m = od_wf (models m)"

lemma models_register:
  "models (register_model n est t0 t1 m) = od_del n (models m) @
     [(n, \<lparr>model_name = n, model_device = mm_device m, loaded_at = t0, last_used_at = t1,
           estimated_bytes = est\<rparr>)]"
  by (simp add: register_model_def od_set_move)

lemma models_touch:
  "models (touch n t m) =
     (case map_of (models m) n of
        None \<Rightarrow> models m
      | Some info \<Rightarrow> od_del n (models m) @ [(n, info\<lparr>last_used_at := t\<rparr>)])"
  by (auto simp: touch_def od_mem_map_of od_update_move split: option.splits)

lemma models_unregister: "models (unregister_model n m) = od_del n (models m)"
  by (auto simp: unregister_model_def od_del_def od_mem_def od_keys_def intro!: filter_True [symmetric])

lemmas models_step = models_register models_touch models_unregister

lemma keys_snoc: "od_keys (d @ [(k, v)]) = od_keys d @ [k]"
  by (simp add: od_keys_def)

interpretation mm: lru_store memory_step mm_inv loaded_models memory_used
proof
  fix m e assume m: "mm_inv m"
  show "mm_inv (memory_step e m)"
    using m by (cases e)
      (auto simp: mm_inv_def od_wf_def models_step keys_snoc od_simps split: option.splits)
  show "distinct (loaded_models m)" using m by (simp add: mm_inv_def od_wf_def loaded_models_def)
  show "loaded_models (memory_step e m) = filter (\<lambda>x. x \<in> set (loaded_models (memory_step e m)))
      (filter (\<lambda>x. x \<noteq> k) (loaded_models m) @ [k])" if "memory_used e m = Some k" for k
    using that by (cases e)
      (auto simp: loaded_models_def models_step keys_snoc od_simps od_mem_map_of
        split: if_splits option.splits intro!: filter_cong)
  show "loaded_models (memory_step e m) =
      filter (\<lambda>x. x \<in> set (loaded_models (memory_step e m))) (loaded_models m)"
    if "memory_used e m = None"
    using that by (cases e)
      (auto simp: loaded_models_def models_step od_simps od_mem_map_of
        split: if_splits option.splits intro: filter_cong)
qed

text \<open>The models that were registered and not removed since; a use changes nothing.\<close>

primrec residents :: "memory_event list \<Rightarrow> string set \<Rightarrow> string set" where
  "residents [] R = R"
| "residents (e # es) R =
     residents es (case e of Register n est t0 t1 \<Rightarrow> insert n R | Unregister n \<Rightarrow> R - {n} | Touch n t \<Rightarrow> R)"

lemma residents_run: "set (loaded_models (store_run memory_step es m)) = residents es (set (loaded_models m))"
proof (induction es arbitrary: m)
  case (Cons e es)
  have "set (loaded_models (memory_step e m)) = residents [e] (set (loaded_models m))"
    using od_mem_map_of [of _ "models m"]
    by (cases e) (auto simp: loaded_models_def models_step keys_snoc od_simps od_mem_def split: option.splits)
  then show ?case by (simp add: Cons.IH)
qed simp

text \<open>With a clock that does not run backwards the recency order is the order of last use.\<close>

fun event_clock :: "real \<Rightarrow> memory_event list \<Rightarrow> bool" where
  "event_clock now [] = True"
| "event_clock now (Register n est t0 t1 # es) = (now \<le> t1 \<and> event_clock t1 es)"
| "event_clock now (Unregister n # es) = event_clock now es"
| "event_clock now (Touch n t # es) = (now \<le> t \<and> event_clock t es)"

definition clock_inv :: "real \<Rightarrow> memory_manager \<Rightarrow> bool" where
  "clock_inv now m =
     (od_wf (models m) \<and> sorted (map (\<lambda>p. last_used_at (snd p)) (models m)) \<and>
      (\<forall>p \<in> set (models m). last_used_at (snd p) \<le> now))"

lemma sorted_map_filter: "sorted (map f xs) \<Longrightarrow> sorted (map f (filter P xs))"
  by (induction xs) auto

lemma clock_inv_use:
  assumes "clock_inv now m" and "now \<le> t" and "last_used_at info = t"
    and "models m' = od_del n (models m) @ [(n, info)]"
  shows "clock_inv t m'"
proof -
  have "od_wf (od_del n (models m) @ [(n, info)])"
    using assms(1) by (simp add: clock_inv_def od_wf_def keys_snoc od_simps)
  moreover have "sorted (map (\<lambda>p. last_used_at (snd p)) (od_del n (models m)))"
    using assms(1) by (simp add: clock_inv_def od_del_def sorted_map_filter)
  moreover have "\<forall>p \<in> set (od_del n (models m)). last_used_at (snd p) \<le> t"
    using assms(1,2) by (force simp: clock_inv_def od_del_def)
  ultimately show ?thesis
    using assms(3,4) by (auto simp: clock_inv_def sorted_append)
qed

lemma clock_inv_run:
  assumes "clock_inv now m" and "event_clock now es"
  shows "\<exists>t. clock_inv t (store_run memory_step es m)"
  using assms
proof (induction now es arbitrary: m rule: event_clock.induct)
  case (2 now n est t0 t1 es)
  have "clock_inv t1 (register_model n est t0 t1 m)"
    by (rule clock_inv_use [OF 2(2) _ _ models_register]) (use 2(3) in auto)
  with 2 show ?case by auto
next
  case (3 now n es)
  have "clock_inv now (unregister_model n m)"
    using 3(2) by (auto simp: clock_inv_def models_unregister od_wf_ops)
      (auto simp: od_del_def sorted_map_filter)
  with 3 show ?case by auto
next
  case (4 now n t es)
  have "clock_inv t (touch n t m)"
  proof (cases "map_of (models m) n")
    case None
    with 4(2,3) show ?thesis by (force simp: clock_inv_def models_touch)
  next
    case (Some info)
    then show ?thesis
      by (intro clock_inv_use [OF 4(2), of t "info\<lparr>last_used_at := t\<rparr>" _ n])
        (use 4(3) in \<open>auto simp: models_touch\<close>)
  qed
  with 4 show ?case by auto
qed auto

lemma first_is_oldest:
  assumes "clock_inv now m" and "find P (loaded_models m) = Some n"
    and "map_of (models m) n = Some info" and "map_of (models m) k = Some info'" and "P k"
  shows "last_used_at info \<le> last_used_at info'"
proof -
  obtain i where i: "i < length (models m)" "fst (models m ! i) = n"
    "\<forall>j < i. \<not> P (fst (models m ! j))"
    using assms(2) by (auto simp: loaded_models_def find_Some_iff od_keys_def)
  obtain j where j: "j < length (models m)" "models m ! j = (k, info')"
    using map_of_SomeD [OF assms(4)] by (metis in_set_conv_nth)
  have "models m ! i = (n, info)"
    using assms(1,3) i by (metis clock_inv_def nth_mem od_wf_mem option.inject prod.collapse)
  moreover have "i \<le> j" using i(3) j assms(5) by (metis fst_conv not_le)
  ultimately show ?thesis
    using assms(1) i j sorted_nth_mono [of "map (\<lambda>p. last_used_at (snd p)) (models m)" i j]
    by (simp add: clock_inv_def)
qed

text \<open>The eligibility test of \<^verbatim>\<open>select_eviction_candidate\<close>.\<close>

definition evictable ::
    "string \<Rightarrow> (string \<Rightarrow> bool) \<Rightarrow> string set \<Rightarrow> string set \<Rightarrow> string set \<Rightarrow> string \<Rightarrow> bool" where
  "evictable self is_pinned loaded unloading releasing c =
     (c \<noteq> self \<and> \<not> is_pinned c \<and> c \<in> loaded \<and> c \<notin> unloading \<and> py_lower c \<notin> releasing)"

lemma select_eviction_find:
  "select_eviction_candidate cs self pin loaded unl rel = find (evictable self pin loaded unl rel) cs"
  by (induction cs) (auto simp: evictable_def)

lemma idle_models_in_order:
  assumes "clock_inv now m" and "0 \<le> thr"
  shows "get_idle_models thr ref exclude m =
    Inr (map fst (filter (\<lambda>p. py_lower (fst p) \<notin> exclude \<and> thr \<le> ref - last_used_at (snd p)) (models m)))"
proof -
  have "sorted (map fst (map (\<lambda>p. (last_used_at (snd p), fst p))
      (filter (\<lambda>p. py_lower (fst p) \<notin> exclude \<and> thr \<le> ref - last_used_at (snd p)) (models m))))"
    using assms(1) by (simp add: clock_inv_def comp_def sorted_map_filter)
  from sorted_key_idem [OF this] show ?thesis
    using assms(2) by (simp add: get_idle_models_def Let_def comp_def)
qed

lemma new_manager_inv:
  assumes "new_memory_manager raw dev c = Inr m"
  shows "models m = []" and "mm_inv m" and "clock_inv t m"
  using assms by (auto simp: new_memory_manager_def mm_inv_def clock_inv_def split: sum.splits)

lemma tracker_run [simp]: "mm_tracker (store_run memory_step es m) = mm_tracker m"
proof (induction es arbitrary: m)
  case (Cons e es)
  then show ?case
    by (cases e) (simp_all add: register_model_def unregister_model_def touch_def)
qed simp

section \<open>Reading budgets\<close>

lemma endswith_rev: "py_endswith suf s \<longleftrightarrow> take (length suf) (rev s) = rev suf"
proof -
  have "length suf \<le> length s" if "drop (length s - length suf) s = suf"
    using arg_cong [OF that, of length] by simp
  then show ?thesis by (auto simp: py_endswith_def take_rev)
qed

lemma endswith_shapes:
  "py_endswith [a, b, c] (xs @ [x, y, z]) = (a = x \<and> b = y \<and> c = z)"
  "py_endswith [b, c] (xs @ [x, y, z]) = (b = y \<and> c = z)"
  "py_endswith [b, c] (xs @ [y, z]) = (b = y \<and> c = z)"
  "b \<noteq> y \<Longrightarrow> \<not> py_endswith [a, b, c] (xs @ [y, z])"
  by (auto simp: endswith_rev)

lemma unit_of_suffix:
  assumes "(suf, m) \<in> set size_suffixes"
  shows "find (\<lambda>(suffix, m). py_endswith suffix (xs @ suf)) size_suffixes = Some (suf, m)"
  using assms unfolding size_suffixes_def list.set insert_iff empty_iff
  by (elim disjE) (simp_all add: endswith_shapes)

lemma upper_char_space: "upper_char c = CHR ''B'' \<Longrightarrow> \<not> is_space c"
  by (auto simp: upper_char_def is_space_def char_code_def split: if_splits)

lemma parse_budget_unit:
  assumes suf: "(py_upper unit, m) \<in> set size_suffixes"
  shows "parse_memory_budget (show_nat n @ unit) = Inr (int n * m)"
proof -
  have up: "last (py_upper unit) = CHR ''B''" "py_upper unit \<noteq> []"
    using suf by (auto simp: size_suffixes_def)
  then have last: "last (py_upper unit) = CHR ''B''" "unit \<noteq> []"
    by (auto simp: py_upper_def)
  then have "\<not> is_space (last unit)"
    by (intro upper_char_space) (simp add: py_upper_def last_map)
  moreover have "\<not> is_space (hd (show_nat n))" using show_nat_props(2) [of n] by simp
  ultimately have strip: "py_strip (show_nat n @ unit) = show_nat n @ unit"
    using last by (intro py_strip_id) simp_all
  have "find (\<lambda>(suffix, m). py_endswith suffix (py_upper (show_nat n @ unit))) size_suffixes
      = Some (py_upper unit, m)"
    using unit_of_suffix [OF suf] by (simp add: py_upper_def)
  moreover have "length (py_upper unit) = length unit" by (simp add: py_upper_def)
  moreover have "py_int (real n * real_of_int m) = int n * m"
    using py_int_of_int [of "int n * m"] by simp
  ultimately show ?thesis
    by (simp add: parse_memory_budget_def strip Let_def py_read_float_show scaled_int_def)
qed

section \<open>Properties\<close>

text \<open>
  C37. The manager refines the recency specification: after any sequence of
  registrations, uses and removals, \<^verbatim>\<open>loaded_models\<close> lists exactly the models registered and not
  removed since, each once, in the order of their last registration or use.
\<close>

theorem memory_recency_order:
  assumes "new_memory_manager raw dev c = Inr m"
  shows "in_recency_order (loaded_models (store_run memory_step es m))
    (store_uses memory_step memory_used es m) \<and>
    set (loaded_models (store_run memory_step es m)) = residents es {} \<and> distinct (loaded_models (store_run memory_step es m))"
proof -
  have m: "loaded_models m = []" using new_manager_inv(1) [OF assms] by (simp add: loaded_models_def od_keys_def)
  show ?thesis
    using mm.recency_run [OF new_manager_inv(2) [OF assms], of es] residents_run [of es m] m
      mm.distinct_keys [OF mm.invar_run [OF new_manager_inv(2) [OF assms]], of es] by simp
qed

text \<open>
  The victim of an eviction is the longest unused of the eligible models: with a
  clock that does not run backwards, the candidate that \<^verbatim>\<open>select_eviction_candidate\<close>
  takes from the manager's order is eligible and no eligible resident model was used
  before it.
\<close>

theorem eviction_victim_oldest:
  assumes "new_memory_manager raw dev c = Inr m0" and "event_clock t es"
    and "m = store_run memory_step es m0"
    and "select_eviction_candidate (loaded_models m) self pin loaded unl rel = Some n"
    and "map_of (models m) n = Some info" and "map_of (models m) k = Some info'"
    and "evictable self pin loaded unl rel k"
  shows "evictable self pin loaded unl rel n \<and> last_used_at info \<le> last_used_at info'"
proof -
  obtain t' where "clock_inv t' m"
    using clock_inv_run [OF new_manager_inv(3) [OF assms(1)] assms(2)] assms(3) by blast
  moreover have f: "find (evictable self pin loaded unl rel) (loaded_models m) = Some n"
    using assms(4) by (simp add: select_eviction_find)
  ultimately show ?thesis
    using first_is_oldest [OF _ f assms(5,6)] assms(7) by (auto simp: find_Some_iff)
qed

text \<open>
  With a clock that does not run backwards, \<^verbatim>\<open>get_idle_models\<close> returns exactly the
  resident models outside the exclusion set that have been unused for the threshold, and
  its sort by last use leaves the least-recently-used order unchanged.
\<close>

theorem idle_models_exact:
  assumes "new_memory_manager raw dev c = Inr m0" and "event_clock t es"
    and "m = store_run memory_step es m0" and "0 \<le> thr"
  shows "get_idle_models thr ref exclude m =
    Inr (map fst (filter (\<lambda>p. py_lower (fst p) \<notin> exclude \<and> thr \<le> ref - last_used_at (snd p)) (models m)))"
  using clock_inv_run [OF new_manager_inv(3) [OF assms(1)] assms(2)] assms(3,4)
  by (auto intro: idle_models_in_order)

text \<open>
  A decimal number followed by one of the units, in any mix of upper and lower case,
  is read as the number times the unit's bytes.
\<close>

theorem parse_budget_units:
  assumes "(py_upper unit, bytes) \<in> set size_suffixes"
  shows "parse_memory_budget (show_nat n @ unit) = Inr (int n * bytes)"
  using parse_budget_unit [OF assms] .

text \<open>
  An infinite number with a unit is not reported as the documented \<^verbatim>\<open>ValueError\<close>: the
  conversion \<^verbatim>\<open>int(float('inf') * multiplier)\<close> raises \<^verbatim>\<open>OverflowError\<close>, which the
  \<^verbatim>\<open>except ValueError\<close> does not catch.
\<close>

theorem parse_budget_infinite: "parse_memory_budget ''infGiB'' = Inl OverflowError"
  by code_simp

text \<open>
  In synthetic mode the statistics never depend on the device: total is the parsed
  budget and used the sum of the declared footprints, in every reachable state.
\<close>

theorem synthetic_stats_exact:
  assumes "new_memory_manager (Some raw) dev c = Inr m0" and "m = store_run memory_step es m0"
  shows "\<exists>budget > 0. parse_memory_budget raw = Inr budget \<and>
    get_stats env m = \<lparr>used_bytes = declared_used_bytes m, total_bytes = budget, stats_device = ''synthetic''\<rparr>"
proof -
  obtain b where "0 < b" "parse_memory_budget raw = Inr b" "mm_tracker m0 = SyntheticTracker b"
    using assms(1)
    by (auto simp: new_memory_manager_def create_memory_tracker_def split: sum.splits if_splits)
  then show ?thesis using assms(2) by (auto simp: get_stats_def)
qed

subsection \<open>Witnesses\<close>

definition demo_events :: "memory_event list" where
  "demo_events = [Register ''a'' (Some 10) 1 1, Register ''b'' None 2 2, Touch ''a'' 3]"

definition demo_manager :: memory_manager where
  "demo_manager = \<lparr>mm_device = ''cpu'', mm_config = default_memory_config, models = [],
     mm_tracker = SyntheticTracker 2048\<rparr>"

lemma demo_manager_new: "new_memory_manager (Some ''2KiB'') ''cpu'' None = Inr demo_manager"
proof -
  have two: "show_nat 2 = ''2''" by code_simp
  have "py_upper ''KiB'' = ''KIB''" by code_simp
  then have "parse_memory_budget ''2KiB'' = Inr 2048"
    using parse_budget_unit [of "''KiB''" 1024 2] by (simp add: two size_suffixes_def)
  then show ?thesis
    by (simp add: new_memory_manager_def create_memory_tracker_def demo_manager_def)
qed

lemma demo_run:
  "models (store_run memory_step demo_events demo_manager) =
     [(''b'', \<lparr>model_name = ''b'', model_device = ''cpu'', loaded_at = 2, last_used_at = 2, estimated_bytes = None\<rparr>),
      (''a'', \<lparr>model_name = ''a'', model_device = ''cpu'', loaded_at = 1, last_used_at = 3, estimated_bytes = Some 10\<rparr>)]"
  by (simp add: demo_events_def demo_manager_def register_model_def touch_def od_set_def od_mem_def
      od_keys_def od_move_to_end_def od_del_def od_update_def Let_def)

theorem memory_recency_order_witness:
  "in_recency_order (loaded_models (store_run memory_step demo_events demo_manager)) [''a'', ''b'', ''a''] \<and>
   set (loaded_models (store_run memory_step demo_events demo_manager)) = {''b'', ''a''}"
  using memory_recency_order [OF demo_manager_new, of demo_events]
  by (simp add: demo_events_def demo_manager_def register_model_def od_set_def od_mem_def
      od_keys_def od_move_to_end_def od_del_def Let_def)

theorem eviction_victim_oldest_witness:
  "let m = store_run memory_step demo_events demo_manager
   in select_eviction_candidate (loaded_models m) ''c'' (\<lambda>_. False) {''a'', ''b''} {} {} = Some ''b'' \<and>
      evictable ''c'' (\<lambda>_. False) {''a'', ''b''} {} {} ''b''"
proof -
  let ?m = "store_run memory_step demo_events demo_manager"
  have clock: "event_clock 0 demo_events" by (simp add: demo_events_def)
  have sel: "select_eviction_candidate (loaded_models ?m) ''c'' (\<lambda>_. False) {''a'', ''b''} {} {} = Some ''b''"
    by (simp add: loaded_models_def od_keys_def demo_run)
  obtain info info' where "map_of (models ?m) ''b'' = Some info" "map_of (models ?m) ''a'' = Some info'"
    by (simp add: demo_run)
  from eviction_victim_oldest [OF demo_manager_new clock refl sel this] sel
  show ?thesis by (simp add: evictable_def Let_def)
qed

theorem idle_models_exact_witness:
  "get_idle_models 5 7 {} (store_run memory_step demo_events demo_manager) = Inr [''b'']"
proof -
  have clock: "event_clock 0 demo_events" by (simp add: demo_events_def)
  from idle_models_exact [OF demo_manager_new clock refl, of 5 7 "{}"] show ?thesis
    by (simp add: demo_run)
qed

theorem parse_budget_units_witness: "parse_memory_budget (show_nat 32 @ ''gib'') = Inr (32 * 1024 ^ 3)"
proof -
  have "py_upper ''gib'' = ''GIB''" by code_simp
  then show ?thesis
    using parse_budget_units [of "''gib''" "1024 ^ 3" 32] by (simp add: size_suffixes_def)
qed

theorem synthetic_stats_exact_witness:
  "\<exists>budget > 0. get_stats \<lparr>cuda_mem_info = \<lambda>_. None, mps_allocated = None, mps_recommended = None,
      virtual_memory = None\<rparr> (store_run memory_step demo_events demo_manager) =
    \<lparr>used_bytes = 10, total_bytes = budget, stats_device = ''synthetic''\<rparr>"
  using synthetic_stats_exact [OF demo_manager_new refl, of "\<lparr>cuda_mem_info = \<lambda>_. None,
      mps_allocated = None, mps_recommended = None, virtual_memory = None\<rparr>" demo_events]
  by (auto simp: declared_used_bytes_def demo_run)

end
