(* ===== verification/Grammar_Cache.thy ===== *)
theory Grammar_Cache
  imports Sie_Prelude
begin

text \<open>
  The bounded cache of compiled grammars: \<^verbatim>\<open>processors/grammar_cache.py\<close>. Every method runs
  under the cache's lock and is one function. A miss is \<open>None\<close>. Shown: the cache is a
  least-recently-used store (an instance of \<open>lru_store\<close>) that never exceeds its size, and
  an entry survives until \<^verbatim>\<open>maxsize\<close> distinct other keys have been used after it.
\<close>

section \<open>State and operations\<close>

type_synonym grammar_key = "string \<times> string \<times> string"

record 'v grammar_lru =
  maxsize :: nat
  gdata :: "(grammar_key, 'v) odict"

definition new_grammar_lru :: "int \<Rightarrow> 'v grammar_lru result" where
  "new_grammar_lru n =
     (if n \<le> 0 then Inl (ValueError ''GrammarLRU maxsize must be positive'')
      else Inr \<lparr>maxsize = nat n, gdata = []\<rparr>)"

definition cache_get :: "grammar_key \<Rightarrow> 'v grammar_lru \<Rightarrow> 'v option \<times> 'v grammar_lru" where
  "cache_get k g =
     (case map_of (gdata g) k of
        None \<Rightarrow> (None, g)
      | Some v \<Rightarrow> (Some v, g\<lparr>gdata := od_move_to_end k (gdata g)\<rparr>))"

definition cache_put :: "grammar_key \<Rightarrow> 'v \<Rightarrow> 'v grammar_lru \<Rightarrow> 'v grammar_lru" where
  "cache_put k v g =
     (if od_mem k (gdata g) then g\<lparr>gdata := od_move_to_end k (od_set k v (gdata g))\<rparr>
      else let d = od_set k v (gdata g)
           in if maxsize g < length d then g\<lparr>gdata := od_popitem_first d\<rparr> else g\<lparr>gdata := d\<rparr>)"

definition cache_len :: "'v grammar_lru \<Rightarrow> nat" where
  "cache_len g = length (gdata g)"

definition cache_clear :: "'v grammar_lru \<Rightarrow> 'v grammar_lru" where
  "cache_clear g = g\<lparr>gdata := []\<rparr>"

datatype 'v cache_event = Get grammar_key | Put grammar_key 'v | Clear

primrec cache_step :: "'v cache_event \<Rightarrow> 'v grammar_lru \<Rightarrow> 'v grammar_lru" where
  "cache_step (Get k) g = snd (cache_get k g)"
| "cache_step (Put k v) g = cache_put k v g"
| "cache_step Clear g = cache_clear g"

primrec cache_used :: "'v cache_event \<Rightarrow> 'v grammar_lru \<Rightarrow> grammar_key option" where
  "cache_used (Get k) g = (if od_mem k (gdata g) then Some k else None)"
| "cache_used (Put k v) g = Some k"
| "cache_used Clear g = None"

section \<open>The recency contract\<close>

abbreviation cache_keys :: "'v grammar_lru \<Rightarrow> grammar_key list" where
  "cache_keys g \<equiv> od_keys (gdata g)"

definition cache_inv :: "'v grammar_lru \<Rightarrow> bool" where
  "cache_inv g = (od_wf (gdata g) \<and> 0 < maxsize g \<and> length (gdata g) \<le> maxsize g)"

lemma keys_get: "cache_keys (snd (cache_get k g)) =
    (if od_mem k (gdata g) then filter (\<lambda>x. x \<noteq> k) (cache_keys g) @ [k] else cache_keys g)"
  by (auto simp: cache_get_def od_mem_map_of od_simps split: option.splits)

lemma keys_put: "cache_keys (cache_put k v g) =
    (if od_mem k (gdata g) then filter (\<lambda>x. x \<noteq> k) (cache_keys g) @ [k]
     else if maxsize g < Suc (length (gdata g)) then tl (cache_keys g @ [k]) else cache_keys g @ [k])"
  by (simp add: cache_put_def od_set_move od_simps Let_def)
    (simp add: od_keys_def od_set_def od_del_def filter_map comp_def)

lemma keys_length: "length (cache_keys g) = length (gdata g)"
  by (simp add: od_keys_def)

lemma maxsize_step [simp]: "maxsize (cache_step e g) = maxsize g"
  by (cases e) (simp_all add: cache_get_def cache_put_def cache_clear_def Let_def split: option.splits)

lemma length_filter_other: "distinct xs \<Longrightarrow> k \<in> set xs \<Longrightarrow> Suc (length (filter (\<lambda>x. x \<noteq> k) xs)) = length xs"
  by (induction xs) (auto simp: filter_neq_idle)

lemma cache_inv_step: "cache_inv g \<Longrightarrow> cache_inv (cache_step e g)"
proof -
  assume g: "cache_inv g"
  then have d: "distinct (cache_keys g)" "length (cache_keys g) \<le> maxsize g" "0 < maxsize g"
    by (simp_all add: cache_inv_def od_wf_def keys_length)
  have use: "distinct (filter (\<lambda>x. x \<noteq> k) (cache_keys g) @ [k])"
    "length (filter (\<lambda>x. x \<noteq> k) (cache_keys g) @ [k]) \<le> maxsize g" if "od_mem k (gdata g)" for k
    using d length_filter_other [OF d(1), of k] that by (simp_all add: od_mem_def)
  have "distinct (cache_keys (cache_step e g)) \<and> length (cache_keys (cache_step e g)) \<le> maxsize g"
  proof (cases e)
    case (Get k)
    then show ?thesis using d use [of k] by (auto simp: keys_get)
  next
    case (Put k v)
    show ?thesis
    proof (cases "od_mem k (gdata g)")
      case True
      then show ?thesis using Put use [OF True] by (simp add: keys_put)
    next
      case False
      then have "distinct (cache_keys g @ [k])" using d by (simp add: od_mem_def)
      then show ?thesis using Put False d by (auto simp: keys_put distinct_tl keys_length)
    qed
  qed (simp add: cache_clear_def od_keys_def)
  then show "cache_inv (cache_step e g)"
    using d(3) by (simp add: cache_inv_def od_wf_def keys_length)
qed

lemma tl_filter: "distinct xs \<Longrightarrow> tl xs = filter (\<lambda>x. x \<in> set (tl xs)) xs"
  by (cases xs) (auto intro!: filter_True [symmetric])

interpretation gc: lru_store cache_step cache_inv "cache_keys :: 'v grammar_lru \<Rightarrow> grammar_key list" cache_used
proof
  fix g :: "'v grammar_lru" and e assume g: "cache_inv g"
  then show "cache_inv (cache_step e g)" by (rule cache_inv_step)
  show d: "distinct (cache_keys g)" using g by (simp add: cache_inv_def od_wf_def)
  show "cache_keys (cache_step e g) = filter (\<lambda>x. x \<in> set (cache_keys (cache_step e g)))
      (filter (\<lambda>x. x \<noteq> k) (cache_keys g) @ [k])" if "cache_used e g = Some k" for k
  proof (cases "od_mem k (gdata g)")
    case True
    with that show ?thesis
      by (cases e) (auto simp: keys_get keys_put split: if_splits intro!: filter_cong)
  next
    case False
    then have "k \<notin> set (cache_keys g)" by (simp add: od_mem_def)
    then have "filter (\<lambda>x. x \<noteq> k) (cache_keys g) = cache_keys g" "distinct (cache_keys g @ [k])"
      using d by (auto simp: filter_neq_idle)
    with False that show ?thesis
      using tl_filter [of "cache_keys g @ [k]"]
      by (cases e) (auto simp: keys_put split: if_splits)
  qed
  show "cache_keys (cache_step e g) =
      filter (\<lambda>x. x \<in> set (cache_keys (cache_step e g))) (cache_keys g)" if "cache_used e g = None"
    using that by (cases e) (auto simp: keys_get cache_clear_def od_keys_def [of "[]"] split: if_splits)
qed

section \<open>How long an entry stays\<close>

text \<open>The keys used more recently than \<open>k\<close>.\<close>

definition after_key :: "'k \<Rightarrow> 'k list \<Rightarrow> 'k set" where
  "after_key k ks = set (tl (dropWhile (\<lambda>x. x \<noteq> k) ks))"

lemma after_key_snoc:
  "k \<in> set ks \<Longrightarrow> after_key k (ks @ [j]) = insert j (after_key k ks)"
  by (induction ks) (auto simp: after_key_def)

lemma after_key_filter: "j \<noteq> k \<Longrightarrow> after_key k (filter (\<lambda>x. x \<noteq> j) ks) \<subseteq> after_key k ks"
  by (induction ks) (auto simp: after_key_def)

lemma after_key_last: "k \<notin> set ks \<Longrightarrow> after_key k (ks @ [k]) = {}"
  by (induction ks) (auto simp: after_key_def)

primrec event_key :: "'v cache_event \<Rightarrow> grammar_key set" where
  "event_key (Get k) = {k}"
| "event_key (Put k v) = {k}"
| "event_key Clear = {}"

primrec keeps :: "grammar_key \<Rightarrow> 'v cache_event \<Rightarrow> bool" where
  "keeps k (Get j) = True"
| "keeps k (Put j v) = (j \<noteq> k)"
| "keeps k Clear = False"

definition fresh_since :: "grammar_key \<Rightarrow> 'v \<Rightarrow> grammar_key set \<Rightarrow> 'v grammar_lru \<Rightarrow> bool" where
  "fresh_since k v U g = (map_of (gdata g) k = Some v \<and> after_key k (cache_keys g) \<subseteq> U)"

lemma after_key_move:
  assumes "k \<in> set ks" and "after_key k ks \<subseteq> U" and "j \<noteq> k" and "j \<in> U"
  shows "after_key k (filter (\<lambda>x. x \<noteq> j) ks @ [j]) \<subseteq> U"
  using assms after_key_filter [OF assms(3), of ks] by (subst after_key_snoc) auto

lemma hd_after_key: "distinct ks \<Longrightarrow> ks \<noteq> [] \<Longrightarrow> card (after_key (hd ks) ks) = length ks - 1"
  by (cases ks) (auto simp: after_key_def distinct_card)

lemma after_key_tl: "ks \<noteq> [] \<Longrightarrow> hd ks \<noteq> k \<Longrightarrow> after_key k (tl ks) = after_key k ks"
  by (cases ks) (auto simp: after_key_def)

lemma fresh_since_put_new:
  assumes inv: "cache_inv g" and fr: "fresh_since k v U g" and jk: "j \<noteq> k" "j \<in> U"
    and U: "finite U" "card U < maxsize g" and new: "\<not> od_mem j (gdata g)"
  shows "fresh_since k v U (cache_put j w g)"
proof -
  let ?ks = "cache_keys g"
  have k: "k \<in> set ?ks" "map_of (gdata g) k = Some v" "after_key k ?ks \<subseteq> U"
    using fr by (auto simp: fresh_since_def od_keys_def map_of_eq_None_iff [symmetric]) (metis fst_conv image_eqI map_of_SomeD)
  have d: "distinct (?ks @ [j])" using inv new by (simp add: cache_inv_def od_wf_def od_mem_def)
  have aft: "after_key k (?ks @ [j]) \<subseteq> U" using k jk by (simp add: after_key_snoc)
  show ?thesis
  proof (cases "maxsize g < Suc (length (gdata g))")
    case False
    then show ?thesis
      using aft jk k new keys_put [of j w g] by (simp add: fresh_since_def cache_put_def Let_def od_set_def map_add_def)
  next
    case True
    have "hd ?ks \<noteq> k"
    proof
      assume "hd ?ks = k"
      then have "hd (?ks @ [j]) = k" using k by (cases ?ks) auto
      then have "card (after_key k (?ks @ [j])) = length ?ks"
        using hd_after_key [OF d] by simp
      moreover have "card (after_key k (?ks @ [j])) \<le> card U" by (rule card_mono [OF U(1) aft])
      ultimately show False using True U(2) by (simp add: keys_length)
    qed
    then have h: "hd (?ks @ [j]) \<noteq> k" using k by (cases ?ks) auto
    have "after_key k (tl (?ks @ [j])) \<subseteq> U" using aft after_key_tl [OF _ h] by simp
    moreover have "map_of (tl (gdata g @ [(j, w)])) k = Some v"
      using k h jk by (cases "gdata g") (auto simp: od_keys_def map_add_def)
    ultimately show ?thesis
      using True new keys_put [of j w g]
      by (simp add: fresh_since_def cache_put_def Let_def od_set_def od_popitem_first_def)
  qed
qed

lemma fresh_since_step:
  assumes inv: "cache_inv g" and fr: "fresh_since k v U g" and ev: "keeps k e"
    and U: "finite U" "card U < maxsize g" and sub: "event_key e - {k} \<subseteq> U"
  shows "fresh_since k v U (cache_step e g)"
proof -
  let ?ks = "cache_keys g"
  have k: "k \<in> set ?ks" "map_of (gdata g) k = Some v" "after_key k ?ks \<subseteq> U"
    using fr by (auto simp: fresh_since_def od_keys_def) (metis fst_conv image_eqI map_of_SomeD)
  show ?thesis
  proof (cases e)
    case (Get j)
    have val: "map_of (gdata (snd (cache_get j g))) k = Some v"
      using k by (simp add: cache_get_def map_of_od_move split: option.splits)
    show ?thesis
    proof (cases "j = k")
      case True
      then have "after_key k (cache_keys (snd (cache_get j g))) = {}"
        using k by (simp add: keys_get od_mem_def after_key_last)
      then show ?thesis using Get val by (simp add: fresh_since_def)
    next
      case False
      then have "j \<in> U" using sub Get by auto
      with False k have "after_key k (cache_keys (snd (cache_get j g))) \<subseteq> U"
        by (simp add: keys_get after_key_move)
      then show ?thesis using Get val by (simp add: fresh_since_def)
    qed
  next
    case (Put j w)
    then have j: "j \<noteq> k" "j \<in> U" using ev sub by auto
    show ?thesis
    proof (cases "od_mem j (gdata g)")
      case True
      then have "after_key k (cache_keys (cache_put j w g)) \<subseteq> U"
        using k j by (simp add: keys_put after_key_move)
      moreover have "map_of (gdata (cache_put j w g)) k = Some v"
        using True k j by (simp add: cache_put_def map_of_od_move map_of_od_set)
      ultimately show ?thesis using Put by (simp add: fresh_since_def)
    next
      case False
      then show ?thesis using fresh_since_put_new [OF inv fr j U] Put by simp
    qed
  qed (use ev in simp)
qed

lemma fresh_since_run:
  assumes "cache_inv g" and "fresh_since k v U g" and "finite U" and "card U < maxsize g"
    and "\<forall>e \<in> set es. keeps k e \<and> event_key e - {k} \<subseteq> U"
  shows "fresh_since k v U (store_run cache_step es g)"
  using assms
proof (induction es arbitrary: g)
  case (Cons e es)
  then have "fresh_since k v U (cache_step e g)" by (intro fresh_since_step) auto
  with Cons show ?case by (simp add: cache_inv_step)
qed simp

lemma put_fresh:
  assumes "cache_inv g"
  shows "fresh_since k v {} (cache_put k v g)"
proof (cases "od_mem k (gdata g)")
  case True
  then show ?thesis
    by (simp add: fresh_since_def keys_put after_key_last) (simp add: cache_put_def map_of_od_move map_of_od_set)
next
  case False
  then have nk: "k \<notin> set (cache_keys g)" by (simp add: od_mem_def)
  have none: "map_of (gdata g) k = None" using False by (simp add: od_mem_map_of)
  have "after_key k (tl (cache_keys g @ [k])) = {}"
    using nk by (cases "cache_keys g") (auto simp: after_key_last, simp add: after_key_def)
  moreover have "map_of (tl (gdata g @ [(k, v)])) k = Some v" if "maxsize g < Suc (length (gdata g))"
    using that none assms by (cases "gdata g") (auto simp: cache_inv_def map_add_def split: if_splits)
  ultimately show ?thesis
    using False nk none keys_put [of k v g]
    by (auto simp: fresh_since_def after_key_last cache_put_def Let_def od_set_def od_popitem_first_def
        map_add_def)
qed

section \<open>Properties\<close>

text \<open>
  In every run of a cache created with a positive size, the cache never holds more
  than \<^verbatim>\<open>maxsize\<close> entries, and they stand in the order of their last use, so the entry
  that \<^verbatim>\<open>popitem(last=False)\<close> drops is the least recently used one.
\<close>

theorem grammar_cache_bounded_lru:
  assumes "new_grammar_lru n = Inr g"
  shows "int (cache_len (store_run cache_step es g)) \<le> n \<and>
    in_recency_order (od_keys (gdata (store_run cache_step es g))) (store_uses cache_step cache_used es g)"
proof -
  have g: "cache_inv g" "gdata g = []" "int (maxsize g) = n"
    using assms by (auto simp: new_grammar_lru_def cache_inv_def split: if_splits)
  have "maxsize (store_run cache_step es g) = maxsize g" by (induction es arbitrary: g) auto
  moreover have "cache_inv (store_run cache_step es g)" by (rule gc.invar_run [OF g(1)])
  ultimately show ?thesis
    using gc.recency_run [OF g(1), of es] g(2,3) by (simp add: cache_inv_def cache_len_def od_keys_def)
qed

text \<open>
  A stored value stays available: after \<^verbatim>\<open>put(k, v)\<close> on any reachable cache, as long as
  fewer than \<^verbatim>\<open>maxsize\<close> distinct other keys are looked up or stored, the cache is not
  cleared and \<open>k\<close> is not overwritten, \<^verbatim>\<open>get(k)\<close> returns \<open>v\<close>.
\<close>

theorem grammar_cache_hit:
  assumes "new_grammar_lru n = Inr g0" and "g = store_run cache_step es0 g0"
    and "\<forall>e \<in> set es. keeps k e" and "int (card (\<Union> (event_key ` set es) - {k})) < n"
  shows "fst (cache_get k (store_run cache_step es (cache_put k v g))) = Some v"
proof -
  let ?U = "\<Union> (event_key ` set es) - {k}" and ?g = "cache_put k v g"
  have "cache_inv g0" "int (maxsize g0) = n"
    using assms(1) by (auto simp: new_grammar_lru_def cache_inv_def split: if_splits)
  moreover have "maxsize (store_run cache_step es0 g0) = maxsize g0"
    by (induction es0 arbitrary: g0) auto
  ultimately have g: "cache_inv g" "int (maxsize g) = n"
    using gc.invar_run assms(2) by auto
  have "finite (event_key e)" for e :: "'a cache_event" by (cases e) auto
  then have "finite ?U" by auto
  moreover have "cache_inv ?g" "maxsize ?g = maxsize g"
    using cache_inv_step [OF g(1), of "Put k v"] maxsize_step [of "Put k v" g] by simp_all
  moreover have "fresh_since k v ?U ?g" using put_fresh [OF g(1)] by (auto simp: fresh_since_def)
  ultimately have "fresh_since k v ?U (store_run cache_step es ?g)"
    using assms(3,4) g(2) by (intro fresh_since_run) auto
  then show ?thesis by (simp add: fresh_since_def cache_get_def)
qed

theorem grammar_cache_bounded_lru_witness:
  "\<exists>g. new_grammar_lru 2 = Inr g \<and>
     int (cache_len (store_run cache_step [Put (''t'', ''a'', ''o'') True, Put (''t'', ''b'', ''o'') True,
       Put (''t'', ''c'', ''o'') True] g)) \<le> 2"
proof -
  obtain g :: "bool grammar_lru" where g: "new_grammar_lru 2 = Inr g" by (simp add: new_grammar_lru_def)
  then show ?thesis using grammar_cache_bounded_lru [OF g] by blast
qed

theorem grammar_cache_hit_witness:
  "\<exists>g. new_grammar_lru 2 = Inr g \<and>
     fst (cache_get (''t'', ''a'', ''o'') (store_run cache_step [Put (''t'', ''b'', ''o'') False]
       (cache_put (''t'', ''a'', ''o'') True g))) = Some True"
proof -
  obtain g :: "bool grammar_lru" where g: "new_grammar_lru 2 = Inr g" by (simp add: new_grammar_lru_def)
  then show ?thesis
    using grammar_cache_hit [OF g, of g "[]" "[Put (''t'', ''b'', ''o'') False]" "(''t'', ''a'', ''o'')" True]
    by simp
qed

end
