(* ===== verification/Disk_Cache.thy ===== *)
theory Disk_Cache
  imports Py_Text "HOL-Library.Sublist"
begin

text \<open>
  The disk cache of model weights: \<^verbatim>\<open>core/disk_cache.py\<close>. The filesystem and
  \<^verbatim>\<open>huggingface_hub\<close> are not part of the repository: a state \<open>'w\<close> of the outside world and
  the record \<open>disk_env\<close> of the calls the manager makes on it are arguments. A call that
  raises is \<open>None\<close>. Shown: the model being downloaded and the pinned models are never
  evicted, the eviction loop ends, and if every deletion succeeds it removes exactly the
  shortest least-recently-used prefix that relieves the pressure.
\<close>

section \<open>Data\<close>

record disk_stats =
  disk_used :: int
  disk_total :: int

definition disk_usage_ratio :: "disk_stats \<Rightarrow> real" where
  "disk_usage_ratio st =
     (if disk_total st = 0 then 0 else real_of_int (disk_used st) / real_of_int (disk_total st))"

definition disk_available_bytes :: "disk_stats \<Rightarrow> int" where
  "disk_available_bytes st = max 0 (disk_total st - disk_used st)"

record cached_model_info =
  repo_id :: string
  size_bytes :: int
  last_accessed :: real
  commit_hashes :: "string list"

text \<open>The fields of a cache scan that the manager reads.\<close>

record hf_revision =
  commit_hash :: string
  blob_accesses :: "real list"

record hf_repo =
  hf_repo_type :: string
  hf_repo_id :: string
  size_on_disk :: int
  repo_last_accessed :: real
  revisions :: "hf_revision list"

type_synonym hf_scan = "hf_repo list"

record 'w disk_env =
  query_disk_usage :: "'w \<Rightarrow> (int \<times> int) option"
  scan_cache_dir :: "'w \<Rightarrow> hf_scan option"
  expected_freed_size :: "hf_scan \<Rightarrow> string list \<Rightarrow> int option"
  execute_delete :: "hf_scan \<Rightarrow> string list \<Rightarrow> 'w \<Rightarrow> 'w \<times> bool"

section \<open>Operations\<close>

definition disk_get_stats :: "'w disk_env \<Rightarrow> 'w \<Rightarrow> disk_stats" where
  "disk_get_stats env w =
     (case query_disk_usage env w of
        Some (used, tot) \<Rightarrow> \<lparr>disk_used = used, disk_total = tot\<rparr>
      | None \<Rightarrow> \<lparr>disk_used = 0, disk_total = 0\<rparr>)"

definition disk_check_pressure :: "'w disk_env \<Rightarrow> real \<Rightarrow> 'w \<Rightarrow> bool" where
  "disk_check_pressure env threshold w = (threshold < disk_usage_ratio (disk_get_stats env w))"

definition model_of_repo :: "hf_repo \<Rightarrow> cached_model_info" where
  "model_of_repo r =
     (let newest = foldl max 0 (concat (map blob_accesses (revisions r)))
      in \<lparr>repo_id = hf_repo_id r, size_bytes = size_on_disk r,
          last_accessed = (if newest = 0 then repo_last_accessed r else newest),
          commit_hashes = map commit_hash (revisions r)\<rparr>)"

definition models_from_scan :: "hf_scan \<Rightarrow> cached_model_info list" where
  "models_from_scan info =
     sort_key last_accessed (map model_of_repo (filter (\<lambda>r. hf_repo_type r = ''model'') info))"

definition get_cached_models :: "'w disk_env \<Rightarrow> 'w \<Rightarrow> cached_model_info list" where
  "get_cached_models env w =
     (case scan_cache_dir env w of None \<Rightarrow> [] | Some info \<Rightarrow> models_from_scan info)"

definition disk_lru_model :: "'w disk_env \<Rightarrow> string set \<Rightarrow> 'w \<Rightarrow> cached_model_info option" where
  "disk_lru_model env exclude w = find (\<lambda>m. repo_id m \<notin> exclude) (get_cached_models env w)"

definition evict_model ::
    "'w disk_env \<Rightarrow> cached_model_info \<Rightarrow> hf_scan option \<Rightarrow> 'w \<Rightarrow> int \<times> 'w" where
  "evict_model env m info w =
     (if commit_hashes m = [] then (0, w)
      else case (case info of Some i \<Rightarrow> Some i | None \<Rightarrow> scan_cache_dir env w) of
             None \<Rightarrow> (0, w)
           | Some i \<Rightarrow>
               (case expected_freed_size env i (commit_hashes m) of
                  None \<Rightarrow> (0, w)
                | Some n \<Rightarrow>
                    if n = 0 then (0, w)
                    else let (w', ok) = execute_delete env i (commit_hashes m) w
                         in (if ok then size_bytes m else 0, w')))"

text \<open>
  The body of the eviction loop, entered under pressure: the inner loop moves the cursor
  to the next candidate outside \<open>exclude\<close>; the list argument is the candidates from the
  cursor on.
\<close>

function evict_loop ::
    "'w disk_env \<Rightarrow> real \<Rightarrow> string set \<Rightarrow> hf_scan option \<Rightarrow> cached_model_info list \<Rightarrow> 'w \<Rightarrow>
     string list \<times> 'w" where
  "evict_loop env threshold exclude info candidates w =
     (case dropWhile (\<lambda>c. repo_id c \<in> exclude) candidates of
        [] \<Rightarrow> ([], w)
      | c # rest \<Rightarrow>
          let (freed, w1) = evict_model env c info w;
              (evicted, w2) = (if disk_check_pressure env threshold w1
                               then evict_loop env threshold exclude info rest w1 else ([], w1))
          in (if 0 < freed then repo_id c # evicted else evicted, w2))"
  by pat_completeness auto
termination
proof (relation "measure (\<lambda>(env, threshold, exclude, info, candidates, w). length candidates)")
  fix env :: "'w disk_env" and threshold exclude info candidates c rest
  assume "dropWhile (\<lambda>c. repo_id c \<in> exclude) candidates = c # rest"
  then have "Suc (length rest) \<le> length candidates"
    using length_dropWhile_le [of "\<lambda>c. repo_id c \<in> exclude" candidates] by simp
  then show "((env, threshold, exclude, info, rest, w'), env, threshold, exclude, info, candidates, w)
      \<in> measure (\<lambda>(env, threshold, exclude, info, candidates, w). length candidates)" for w w'
    by simp
qed simp

declare evict_loop.simps [simp del]

definition exclusions :: "string set option \<Rightarrow> string \<Rightarrow> string set" where
  "exclusions pinned model_id = {model_id} \<union> (case pinned of None \<Rightarrow> {} | Some ps \<Rightarrow> ps)"

definition ensure_space_before_download ::
    "'w disk_env \<Rightarrow> real \<Rightarrow> string set option \<Rightarrow> string \<Rightarrow> 'w \<Rightarrow> string list \<times> 'w" where
  "ensure_space_before_download env threshold pinned model_id w =
     (if disk_check_pressure env threshold w
      then let info = scan_cache_dir env w;
               candidates = (case info of None \<Rightarrow> [] | Some i \<Rightarrow> models_from_scan i)
           in evict_loop env threshold (exclusions pinned model_id) info candidates w
      else ([], w))"

text \<open>The directory whose modification time \<^verbatim>\<open>touch\<close> renews.\<close>

fun replace_slash :: "string \<Rightarrow> string" where
  "replace_slash [] = []"
| "replace_slash (c # cs) = (if c = CHR ''/'' then ''--'' @ replace_slash cs else c # replace_slash cs)"

definition cache_dir_name :: "string \<Rightarrow> string" where
  "cache_dir_name model_id = ''models--'' @ replace_slash model_id"

section \<open>The eviction loop\<close>

definition open_candidates :: "string set \<Rightarrow> cached_model_info list \<Rightarrow> cached_model_info list" where
  "open_candidates exclude cs = filter (\<lambda>c. repo_id c \<notin> exclude) cs"

lemma open_candidates_drop:
  "open_candidates exclude (dropWhile (\<lambda>c. repo_id c \<in> exclude) cs) = open_candidates exclude cs"
  by (induction cs) (auto simp: open_candidates_def)

lemma dropWhile_Cons_open:
  assumes "dropWhile (\<lambda>c. repo_id c \<in> exclude) cs = c # rest"
  shows "open_candidates exclude cs = c # open_candidates exclude rest" and "repo_id c \<notin> exclude"
proof -
  show "repo_id c \<notin> exclude" using hd_dropWhile [of "\<lambda>c. repo_id c \<in> exclude" cs] assms by simp
  then show "open_candidates exclude cs = c # open_candidates exclude rest"
    using open_candidates_drop [of exclude cs] assms by (simp add: open_candidates_def)
qed

lemma evict_loop_done:
  assumes "dropWhile (\<lambda>c. repo_id c \<in> exclude) cs = []"
  shows "evict_loop env thr exclude info cs w = ([], w)"
  by (subst evict_loop.simps) (simp only: assms list.case)

lemma evict_loop_subseq:
  "subseq (fst (evict_loop env thr exclude info cs w)) (map repo_id (open_candidates exclude cs))"
proof (induction env thr exclude info cs w rule: evict_loop.induct)
  case (1 env thr exclude info cs w)
  show ?case
  proof (cases "dropWhile (\<lambda>c. repo_id c \<in> exclude) cs")
    case Nil
    then show ?thesis by (simp only: evict_loop_done) simp
  next
    case (Cons c rest)
    obtain freed w1 where ev: "evict_model env c info w = (freed, w1)" by fastforce
    have "subseq (fst (if disk_check_pressure env thr w1 then evict_loop env thr exclude info rest w1
        else ([], w1))) (map repo_id (open_candidates exclude rest))"
      using 1 [OF Cons ev [symmetric] refl] by (auto simp: list_emb_Nil)
    then show ?thesis
      using Cons ev dropWhile_Cons_open(1) [OF Cons]
      by (subst evict_loop.simps) (auto simp: Let_def split_beta)
  qed
qed

text \<open>The world after evicting a list of models in order.\<close>

definition evict_all :: "'w disk_env \<Rightarrow> hf_scan option \<Rightarrow> cached_model_info list \<Rightarrow> 'w \<Rightarrow> 'w" where
  "evict_all env info ms w = fold (\<lambda>m w. snd (evict_model env m info w)) ms w"

definition shortest_relief ::
    "'w disk_env \<Rightarrow> real \<Rightarrow> hf_scan option \<Rightarrow> cached_model_info list \<Rightarrow> 'w \<Rightarrow> nat \<Rightarrow> bool" where
  "shortest_relief env thr info ms w k =
     (k \<le> length ms \<and>
      (k = length ms \<or> \<not> disk_check_pressure env thr (evict_all env info (take k ms) w)) \<and>
      (\<forall>j < k. disk_check_pressure env thr (evict_all env info (take j ms) w)))"

lemma evict_loop_exact:
  assumes "\<forall>c \<in> set (open_candidates exclude cs). \<forall>w. 0 < fst (evict_model env c info w)"
    and "disk_check_pressure env thr w"
  shows "\<exists>k. evict_loop env thr exclude info cs w =
      (map repo_id (take k (open_candidates exclude cs)),
       evict_all env info (take k (open_candidates exclude cs)) w) \<and>
    shortest_relief env thr info (open_candidates exclude cs) w k"
  using assms
proof (induction env thr exclude info cs w rule: evict_loop.induct)
  case (1 env thr exclude info cs w)
  show ?case
  proof (cases "dropWhile (\<lambda>c. repo_id c \<in> exclude) cs")
    case Nil
    then have "open_candidates exclude cs = []"
      using open_candidates_drop [of exclude cs] by (simp add: open_candidates_def)
    then show ?thesis
      unfolding evict_loop_done [OF Nil] by (simp add: evict_all_def shortest_relief_def)
  next
    case (Cons c rest)
    let ?ms = "open_candidates exclude rest"
    obtain freed w1 where ev: "evict_model env c info w = (freed, w1)" by fastforce
    note oc = dropWhile_Cons_open(1) [OF Cons]
    have pos: "0 < freed" using 1(2) ev oc by (metis fst_conv list.set_intros(1))
    have step: "evict_all env info (c # ms) w = evict_all env info ms w1" for ms
      using ev by (simp add: evict_all_def)
    show ?thesis
    proof (cases "disk_check_pressure env thr w1")
      case False
      then have "shortest_relief env thr info (open_candidates exclude cs) w 1"
        using 1(3) step [of "[]"] oc by (simp add: shortest_relief_def evict_all_def)
      moreover have "evict_loop env thr exclude info cs w = ([repo_id c], w1)"
        using False Cons ev pos by (subst evict_loop.simps) simp
      ultimately show ?thesis
        using oc step [of "[]"] by (intro exI [of _ 1]) (simp add: evict_all_def)
    next
      case True
      obtain k where k: "evict_loop env thr exclude info rest w1 =
          (map repo_id (take k ?ms), evict_all env info (take k ?ms) w1)"
        "shortest_relief env thr info ?ms w1 k"
        using 1(1) [OF Cons ev [symmetric] refl True _ True] 1(2) oc by auto
      have "disk_check_pressure env thr (evict_all env info (take j (c # ?ms)) w)" if "j < Suc k" for j
        using that k(2) 1(3) step by (cases j) (auto simp: shortest_relief_def evict_all_def)
      then have "shortest_relief env thr info (c # ?ms) w (Suc k)"
        using k(2) step by (simp add: shortest_relief_def)
      moreover have "evict_loop env thr exclude info cs w =
          (repo_id c # map repo_id (take k ?ms), evict_all env info (take k ?ms) w1)"
        using True Cons ev pos k(1) by (subst evict_loop.simps) simp
      ultimately show ?thesis
        using oc step by (intro exI [of _ "Suc k"]) simp
    qed
  qed
qed

section \<open>Properties\<close>

text \<open>
  Whatever the filesystem and the hub answer, the models reported as evicted are
  models of the scan in least-recently-used order, and neither the model about to be
  downloaded nor a pinned model is among them.
\<close>

theorem evicts_only_unprotected:
  "subseq (fst (ensure_space_before_download env thr pinned model_id w))
     (map repo_id (open_candidates (exclusions pinned model_id) (get_cached_models env w))) \<and>
   set (fst (ensure_space_before_download env thr pinned model_id w)) \<inter> exclusions pinned model_id = {}"
proof -
  let ?ev = "fst (ensure_space_before_download env thr pinned model_id w)"
  have sub: "subseq ?ev (map repo_id (open_candidates (exclusions pinned model_id) (get_cached_models env w)))"
    using evict_loop_subseq [of env thr "exclusions pinned model_id" "scan_cache_dir env w"
        "get_cached_models env w" w]
    by (simp add: ensure_space_before_download_def get_cached_models_def Let_def list_emb_Nil)
  then have "set ?ev \<subseteq> repo_id ` set (open_candidates (exclusions pinned model_id) (get_cached_models env w))"
    by (auto elim: list_emb_set)
  with sub show ?thesis by (auto simp: open_candidates_def)
qed

text \<open>
  C39. If every deletion of an unprotected model succeeds, the eviction loop removes
  exactly the shortest prefix of the least-recently-used order whose removal relieves the
  pressure, or all unprotected models if none does, and nothing if there is no pressure.
\<close>

theorem evicts_shortest_lru_prefix:
  assumes "ms = open_candidates (exclusions pinned model_id) (get_cached_models env w)"
    and "\<forall>c \<in> set ms. \<forall>w'. 0 < fst (evict_model env c (scan_cache_dir env w) w')"
  shows "\<exists>k. ensure_space_before_download env thr pinned model_id w =
      (map repo_id (take k ms), evict_all env (scan_cache_dir env w) (take k ms) w) \<and>
    shortest_relief env thr (scan_cache_dir env w) ms w k"
proof (cases "disk_check_pressure env thr w")
  case True
  have "\<exists>k. evict_loop env thr (exclusions pinned model_id) (scan_cache_dir env w) (get_cached_models env w) w =
      (map repo_id (take k ms), evict_all env (scan_cache_dir env w) (take k ms) w) \<and>
    shortest_relief env thr (scan_cache_dir env w) ms w k"
    using evict_loop_exact [OF _ True] assms by blast
  with True show ?thesis
    by (simp add: ensure_space_before_download_def get_cached_models_def Let_def)
next
  case False
  then show ?thesis
    by (intro exI [of _ 0]) (simp add: ensure_space_before_download_def evict_all_def shortest_relief_def)
qed

subsection \<open>Witnesses\<close>

text \<open>A disk of 100 units on which every deletion frees 30.\<close>

definition demo_repo :: "string \<Rightarrow> real \<Rightarrow> hf_repo" where
  "demo_repo n t = \<lparr>hf_repo_type = ''model'', hf_repo_id = n, size_on_disk = 30, repo_last_accessed = t,
     revisions = [\<lparr>commit_hash = n, blob_accesses = [t]\<rparr>]\<rparr>"

definition demo_disk :: "int disk_env" where
  "demo_disk = \<lparr>query_disk_usage = \<lambda>w. Some (w, 100),
     scan_cache_dir = \<lambda>w. Some [demo_repo ''a'' 3, demo_repo ''b'' 1, demo_repo ''c'' 2],
     expected_freed_size = \<lambda>_ _. Some 30, execute_delete = \<lambda>_ _ w. (w - 30, True)\<rparr>"

lemma demo_disk_models:
  "get_cached_models demo_disk w =
     [\<lparr>repo_id = ''b'', size_bytes = 30, last_accessed = 1, commit_hashes = [''b'']\<rparr>,
      \<lparr>repo_id = ''c'', size_bytes = 30, last_accessed = 2, commit_hashes = [''c'']\<rparr>,
      \<lparr>repo_id = ''a'', size_bytes = 30, last_accessed = 3, commit_hashes = [''a'']\<rparr>]"
  by (simp add: get_cached_models_def demo_disk_def models_from_scan_def model_of_repo_def demo_repo_def Let_def)

theorem evicts_shortest_lru_prefix_witness:
  "ensure_space_before_download demo_disk (1 / 2) (Some {''b''}) ''new'' 95 = ([''c'', ''a''], 35)"
proof -
  let ?ms = "open_candidates (exclusions (Some {''b''}) ''new'') (get_cached_models demo_disk 95)"
  have ms: "?ms = [\<lparr>repo_id = ''c'', size_bytes = 30, last_accessed = 2, commit_hashes = [''c'']\<rparr>,
      \<lparr>repo_id = ''a'', size_bytes = 30, last_accessed = 3, commit_hashes = [''a'']\<rparr>]"
    by (simp add: demo_disk_models open_candidates_def exclusions_def)
  have "\<forall>c \<in> set ?ms. \<forall>w'. 0 < fst (evict_model demo_disk c (scan_cache_dir demo_disk 95) w')"
    unfolding ms by (simp add: evict_model_def demo_disk_def)
  from evicts_shortest_lru_prefix [OF refl this, of "1 / 2"] obtain k where
    k: "ensure_space_before_download demo_disk (1 / 2) (Some {''b''}) ''new'' 95 =
      (map repo_id (take k ?ms), evict_all demo_disk (scan_cache_dir demo_disk 95) (take k ?ms) 95)"
    "shortest_relief demo_disk (1 / 2) (scan_cache_dir demo_disk 95) ?ms 95 k" by blast
  have press: "disk_check_pressure demo_disk (1 / 2) w = (50 < w)" for w
    by (auto simp: disk_check_pressure_def disk_usage_ratio_def disk_get_stats_def demo_disk_def)
  have ev: "evict_model demo_disk m (scan_cache_dir demo_disk 95) w = (30, w - 30)" if "m \<in> set ?ms" for m w
    using that unfolding ms by (auto simp: evict_model_def demo_disk_def)
  have "k = 2"
    using k(2) ev unfolding ms shortest_relief_def press
    by (auto simp: evict_all_def le_Suc_eq numeral_2_eq_2 less_Suc_eq)
  then show ?thesis using k(1) ev unfolding ms by (simp add: evict_all_def)
qed

end
