(* ===== verification/Adaptive_Batching.thy ===== *)
theory Adaptive_Batching
  imports Sie_Prelude
begin

text \<open>
  The controller of batch wait and batch cost: \<^verbatim>\<open>core/adaptive_batching.py\<close>. The fields an
  operator sets are the record \<open>adaptive_config\<close>, the fields that change are the record
  \<open>controller\<close>. A step may raise \<^verbatim>\<open>ZeroDivisionError\<close> (an explicit target of 0), so it
  returns a result beside the state. Shown: the knobs and the integral stay within their
  bounds in every run, auto-calibration yields a target within its limits and holds the
  knobs until then, and the controller cannot stay pinned at the floor: a bounded number
  of tiny batches brings it off.
\<close>

section \<open>Trackers\<close>

record latency_tracker =
  lt_window :: nat
  min_samples :: int
  samples :: "real list"

definition new_latency_tracker :: "nat \<Rightarrow> int \<Rightarrow> latency_tracker" where
  "new_latency_tracker w m = \<lparr>lt_window = w, min_samples = m, samples = []\<rparr>"

definition lt_record :: "real \<Rightarrow> latency_tracker \<Rightarrow> latency_tracker" where
  "lt_record ms t = t\<lparr>samples := deque_append (lt_window t) (samples t) ms\<rparr>"

definition percentile :: "real \<Rightarrow> latency_tracker \<Rightarrow> real option result" where
  "percentile p t =
     (let n = length (samples t)
      in if int n < min_samples t then Inr None
         else case py_nth (sort (samples t)) (py_int (p / 100 * (real n - 1))) of
                Inl e \<Rightarrow> Inl e
              | Inr x \<Rightarrow> Inr (Some x))"

definition p50 :: "latency_tracker \<Rightarrow> real option result" where
  "p50 t = percentile 50 t"

definition lt_reset :: "latency_tracker \<Rightarrow> latency_tracker" where
  "lt_reset t = t\<lparr>samples := []\<rparr>"

record efficiency_tracker =
  et_window :: nat
  fill_ratios :: "real list"

definition et_record :: "int \<Rightarrow> int \<Rightarrow> efficiency_tracker \<Rightarrow> efficiency_tracker" where
  "et_record actual maxc t =
     (if 0 < maxc
      then t\<lparr>fill_ratios := deque_append (et_window t) (fill_ratios t) (real_of_int actual / real_of_int maxc)\<rparr>
      else t)"

definition mean_fill_ratio :: "efficiency_tracker \<Rightarrow> real option" where
  "mean_fill_ratio t =
     (if fill_ratios t = [] then None
      else Some (sum_list (fill_ratios t) / real (length (fill_ratios t))))"

definition et_reset :: "efficiency_tracker \<Rightarrow> efficiency_tracker" where
  "et_reset t = t\<lparr>fill_ratios := []\<rparr>"

section \<open>The controller\<close>

record adaptive_config =
  explicit_target :: "real option"
  calibration_multiplier :: real
  min_target_p50_ms :: real
  max_target_p50_ms :: real
  min_wait_ms :: real
  max_wait_ms :: real
  min_batch_cost :: int
  max_batch_cost :: int
  gain :: real
  integral_gain :: real
  cost_gain :: real
  update_interval :: int
  fill_ratio_threshold :: real
  starvation_recovery_enabled :: bool
  starvation_window :: int
  starvation_batch_size :: int
  start_wait_ms :: real
  start_batch_cost :: int
  integral_max :: real

record controller =
  ac :: adaptive_config
  target_p50_ms :: "real option"
  initial_wait_ms :: real
  initial_batch_cost :: int
  current_wait_ms :: real
  current_batch_cost :: int
  steps_since_update :: int
  auto_calibrate :: bool
  calibrated :: bool
  inference_tracker :: latency_tracker
  integral_term :: real
  last_step_time :: "real option"
  starvation_streak :: int
  starvation_resets :: int

definition new_controller :: "adaptive_config \<Rightarrow> controller" where
  "new_controller c =
     \<lparr>ac = c, target_p50_ms = explicit_target c,
      initial_wait_ms = start_wait_ms c, initial_batch_cost = start_batch_cost c,
      current_wait_ms = start_wait_ms c, current_batch_cost = start_batch_cost c,
      steps_since_update = 0,
      auto_calibrate = (explicit_target c = None), calibrated = (explicit_target c \<noteq> None),
      inference_tracker = new_latency_tracker 50 10, integral_term = 0, last_step_time = None,
      starvation_streak = 0, starvation_resets = 0\<rparr>"

definition record_inference_sample :: "real \<Rightarrow> controller \<Rightarrow> controller" where
  "record_inference_sample ms s =
     (if \<not> calibrated s then s\<lparr>inference_tracker := lt_record ms (inference_tracker s)\<rparr> else s)"

definition is_pinned_at_floor :: "controller \<Rightarrow> bool" where
  "is_pinned_at_floor s =
     (current_wait_ms s \<le> min_wait_ms (ac s) \<and> current_batch_cost s \<le> min_batch_cost (ac s))"

definition update_starvation_tracker :: "int option \<Rightarrow> bool \<Rightarrow> controller \<Rightarrow> controller" where
  "update_starvation_tracker bsize pinned s =
     (case bsize of
        None \<Rightarrow> s\<lparr>starvation_streak := 0\<rparr>
      | Some b \<Rightarrow>
          if \<not> pinned then s\<lparr>starvation_streak := 0\<rparr>
          else if starvation_batch_size (ac s) < b then s\<lparr>starvation_streak := 0\<rparr>
          else s\<lparr>starvation_streak := starvation_streak s + 1\<rparr>)"

definition recovery_wait :: "controller \<Rightarrow> real" where
  "recovery_wait s =
     clamp ((min_wait_ms (ac s) + initial_wait_ms s) / 2) (min_wait_ms (ac s)) (max_wait_ms (ac s))"

definition recovery_cost :: "controller \<Rightarrow> int" where
  "recovery_cost s =
     clamp (max (initial_batch_cost s div 2) (min_batch_cost (ac s) * 4))
       (min_batch_cost (ac s)) (max_batch_cost (ac s))"

definition maybe_recover_from_starvation :: "controller \<Rightarrow> controller option" where
  "maybe_recover_from_starvation s =
     (if \<not> starvation_recovery_enabled (ac s) then None
      else if starvation_streak s < starvation_window (ac s) then None
      else if \<not> is_pinned_at_floor s then None
      else Some (s\<lparr>current_wait_ms := recovery_wait s, current_batch_cost := recovery_cost s,
                   integral_term := 0, last_step_time := None, starvation_streak := 0,
                   starvation_resets := starvation_resets s + 1\<rparr>))"

text \<open>The auto-calibration branch of \<^verbatim>\<open>step\<close>.\<close>

definition calibrate :: "controller \<Rightarrow> controller result" where
  "calibrate s =
     (case p50 (inference_tracker s) of
        Inl e \<Rightarrow> Inl e
      | Inr None \<Rightarrow> Inr s
      | Inr (Some ip50) \<Rightarrow>
          Inr (s\<lparr>target_p50_ms := Some (clamp (ip50 * calibration_multiplier (ac s))
                    (min_target_p50_ms (ac s)) (max_target_p50_ms (ac s))),
                 calibrated := True, integral_term := 0, last_step_time := None\<rparr>))"

text \<open>The integral after one update: idle decay, anti-windup, clamping.\<close>

definition next_integral :: "real \<Rightarrow> real \<Rightarrow> controller \<Rightarrow> real" where
  "next_integral headroom_ms dt_s s =
     (let decayed = (if 2 < dt_s then integral_term s * (1 / 2) powr (dt_s - 2) else integral_term s);
          output_at_max = (max_wait_ms (ac s) \<le> current_wait_ms s);
          output_at_min = (current_wait_ms s \<le> min_wait_ms (ac s));
          can_integrate = (\<not> (output_at_max \<and> 0 < headroom_ms) \<and> \<not> (output_at_min \<and> headroom_ms < 0))
      in if can_integrate \<and> 0 < integral_gain (ac s)
         then clamp (decayed + headroom_ms * dt_s) (- integral_max (ac s)) (integral_max (ac s))
         else decayed)"

definition next_cost :: "real \<Rightarrow> real \<Rightarrow> real option \<Rightarrow> controller \<Rightarrow> int" where
  "next_cost headroom_ms headroom_frac fill s =
     (if (case fill of None \<Rightarrow> False | Some f \<Rightarrow> fill_ratio_threshold (ac s) \<le> f)
      then let cost_at_max = (max_batch_cost (ac s) \<le> current_batch_cost s);
               cost_at_min = (current_batch_cost s \<le> min_batch_cost (ac s));
               c = real_of_int (current_batch_cost s)
           in if \<not> (cost_at_max \<and> 0 < headroom_ms) \<and> \<not> (cost_at_min \<and> headroom_ms < 0)
              then py_int (clamp (c + c * headroom_frac * cost_gain (ac s))
                     (real_of_int (min_batch_cost (ac s))) (real_of_int (max_batch_cost (ac s))))
              else current_batch_cost s
      else current_batch_cost s)"

text \<open>The two control laws, run with the clock reading \<open>now\<close>.\<close>

definition pi_update :: "real \<Rightarrow> real \<Rightarrow> real option \<Rightarrow> real \<Rightarrow> controller \<Rightarrow> controller" where
  "pi_update target observed fill now s =
     (let headroom_ms = target - observed;
          headroom_frac = headroom_ms / target;
          dt_s = (case last_step_time s of Some t \<Rightarrow> min (now - t) 5 | None \<Rightarrow> 0);
          i = next_integral headroom_ms dt_s s;
          wait_adjustment = headroom_ms * gain (ac s) + i * integral_gain (ac s)
      in s\<lparr>last_step_time := Some now, integral_term := i,
           current_wait_ms := clamp (current_wait_ms s + wait_adjustment)
             (min_wait_ms (ac s)) (max_wait_ms (ac s)),
           current_batch_cost := next_cost headroom_ms headroom_frac fill s\<rparr>)"

abbreviation knobs :: "controller \<Rightarrow> real \<times> int" where
  "knobs s \<equiv> (current_wait_ms s, current_batch_cost s)"

definition ctl_step ::
    "real option \<Rightarrow> real option \<Rightarrow> int option \<Rightarrow> real \<Rightarrow> controller \<Rightarrow> (real \<times> int) result \<times> controller" where
  "ctl_step observed fill bsize now s =
     (let s1 = update_starvation_tracker bsize (is_pinned_at_floor s) s;
          s2 = s1\<lparr>steps_since_update := steps_since_update s1 + 1\<rparr>
      in if steps_since_update s2 < update_interval (ac s2) then (Inr (knobs s2), s2)
         else let s3 = s2\<lparr>steps_since_update := 0\<rparr>
              in if \<not> calibrated s3
                 then (case calibrate s3 of Inl e \<Rightarrow> (Inl e, s3) | Inr s4 \<Rightarrow> (Inr (knobs s4), s4))
                 else case (observed, target_p50_ms s3) of
                        (Some obs, Some target) \<Rightarrow>
                          (case maybe_recover_from_starvation s3 of
                             Some s4 \<Rightarrow> (Inr (knobs s4), s4)
                           | None \<Rightarrow>
                               if target = 0 then (Inl ZeroDivisionError, s3)
                               else let s4 = pi_update target obs fill now s3 in (Inr (knobs s4), s4))
                      | _ \<Rightarrow> (Inr (knobs s3), s3))"

text \<open>The write-back into the batch configuration, which an exception skips.\<close>

definition apply_step ::
    "real option \<Rightarrow> real option \<Rightarrow> int option \<Rightarrow> real \<Rightarrow> controller \<Rightarrow> (real \<times> int) \<Rightarrow>
     (real \<times> int) result \<times> controller \<times> (real \<times> int)" where
  "apply_step observed fill bsize now s target =
     (case ctl_step observed fill bsize now s of
        (Inl e, s') \<Rightarrow> (Inl e, s', target)
      | (Inr new, s') \<Rightarrow> (Inr new, s', new))"

record adaptive_state =
  st_calibrated :: bool
  st_target :: "real option"
  st_wait :: real
  st_cost :: int
  st_observed :: "real option"
  st_headroom :: "real option"
  st_fill :: "real option"
  st_integral :: real
  st_streak :: int
  st_resets :: int

definition snapshot :: "real option \<Rightarrow> real option \<Rightarrow> controller \<Rightarrow> adaptive_state" where
  "snapshot observed fill s =
     \<lparr>st_calibrated = calibrated s, st_target = target_p50_ms s,
      st_wait = current_wait_ms s, st_cost = current_batch_cost s, st_observed = observed,
      st_headroom = (case (target_p50_ms s, observed) of (Some t, Some obs) \<Rightarrow> Some (t - obs) | _ \<Rightarrow> None),
      st_fill = fill, st_integral = integral_term s, st_streak = starvation_streak s,
      st_resets = starvation_resets s\<rparr>"

definition ctl_reset :: "controller \<Rightarrow> controller" where
  "ctl_reset s =
     (let s1 = s\<lparr>current_wait_ms := clamp (initial_wait_ms s) (min_wait_ms (ac s)) (max_wait_ms (ac s)),
                 current_batch_cost := clamp (initial_batch_cost s) (min_batch_cost (ac s)) (max_batch_cost (ac s)),
                 steps_since_update := 0, integral_term := 0, last_step_time := None,
                 starvation_streak := 0\<rparr>
      in if auto_calibrate s1
         then s1\<lparr>calibrated := False, target_p50_ms := None,
                 inference_tracker := lt_reset (inference_tracker s1)\<rparr>
         else s1)"

datatype ctl_event =
    Sample real
  | Step "real option" "real option" "int option" real
  | Reset

primrec ctl_event_step :: "ctl_event \<Rightarrow> controller \<Rightarrow> controller" where
  "ctl_event_step (Sample ms) s = record_inference_sample ms s"
| "ctl_event_step (Step observed fill bsize now) s = snd (ctl_step observed fill bsize now s)"
| "ctl_event_step Reset s = ctl_reset s"

section \<open>The invariant\<close>

definition config_ok :: "adaptive_config \<Rightarrow> bool" where
  "config_ok c =
     (min_wait_ms c \<le> max_wait_ms c \<and> min_batch_cost c \<le> max_batch_cost c \<and>
      min_target_p50_ms c \<le> max_target_p50_ms c \<and> 0 \<le> integral_max c \<and> 0 < update_interval c \<and>
      min_wait_ms c \<le> start_wait_ms c \<and> start_wait_ms c \<le> max_wait_ms c \<and>
      min_batch_cost c \<le> start_batch_cost c \<and> start_batch_cost c \<le> max_batch_cost c)"

definition knobs_in_bounds :: "controller \<Rightarrow> bool" where
  "knobs_in_bounds s =
     (min_wait_ms (ac s) \<le> current_wait_ms s \<and> current_wait_ms s \<le> max_wait_ms (ac s) \<and>
      min_batch_cost (ac s) \<le> current_batch_cost s \<and> current_batch_cost s \<le> max_batch_cost (ac s) \<and>
      \<bar>integral_term s\<bar> \<le> integral_max (ac s))"

definition calibration_inv :: "controller \<Rightarrow> bool" where
  "calibration_inv s =
     (auto_calibrate s = (explicit_target (ac s) = None) \<and>
      (calibrated s \<longrightarrow> (\<exists>t. target_p50_ms s = Some t \<and>
         (explicit_target (ac s) = Some t \<or>
          (auto_calibrate s \<and> min_target_p50_ms (ac s) \<le> t \<and> t \<le> max_target_p50_ms (ac s))))) \<and>
      (\<not> calibrated s \<longrightarrow> auto_calibrate s \<and> current_wait_ms s = initial_wait_ms s \<and>
         current_batch_cost s = initial_batch_cost s))"

definition ctl_inv :: "controller \<Rightarrow> bool" where
  "ctl_inv s =
     (config_ok (ac s) \<and> initial_wait_ms s = start_wait_ms (ac s) \<and>
      initial_batch_cost s = start_batch_cost (ac s) \<and> knobs_in_bounds s \<and> calibration_inv s \<and>
      0 \<le> steps_since_update s \<and> steps_since_update s < update_interval (ac s) \<and>
      0 \<le> starvation_streak s)"

lemma decay_shrinks: "2 < dt \<Longrightarrow> \<bar>(i::real) * (1 / 2) powr (dt - 2)\<bar> \<le> \<bar>i\<bar>"
proof -
  assume "2 < dt"
  then have "(1 / 2 :: real) powr (dt - 2) \<le> 1" by (intro powr_le1) auto
  then show ?thesis by (simp add: abs_mult mult_left_le)
qed

lemma next_integral_bound:
  assumes "\<bar>integral_term s\<bar> \<le> integral_max (ac s)"
  shows "\<bar>next_integral h dt s\<bar> \<le> integral_max (ac s)"
proof -
  let ?M = "integral_max (ac s)"
  have "\<bar>clamp x (- ?M) ?M\<bar> \<le> ?M" for x using assms by (simp add: clamp_def abs_le_iff)
  moreover have "\<bar>if 2 < dt then integral_term s * (1 / 2) powr (dt - 2) else integral_term s\<bar> \<le> ?M"
    using assms decay_shrinks [of dt "integral_term s"] by auto
  ultimately show ?thesis by (simp add: next_integral_def Let_def)
qed

lemma next_cost_bounds:
  assumes "knobs_in_bounds s" and "config_ok (ac s)"
  shows "min_batch_cost (ac s) \<le> next_cost h hf fill s \<and> next_cost h hf fill s \<le> max_batch_cost (ac s)"
  using assms py_int_clamp by (auto simp: next_cost_def Let_def knobs_in_bounds_def config_ok_def)

text \<open>What a step leads to: the state after counting, or one of the four update branches.\<close>

definition counted :: "int option \<Rightarrow> controller \<Rightarrow> controller" where
  "counted bsize s =
     (let s1 = update_starvation_tracker bsize (is_pinned_at_floor s) s
      in s1\<lparr>steps_since_update := steps_since_update s1 + 1\<rparr>)"

abbreviation restarted :: "int option \<Rightarrow> controller \<Rightarrow> controller" where
  "restarted bsize s \<equiv> (counted bsize s)\<lparr>steps_since_update := 0\<rparr>"

lemma ctl_step_cases:
  obtains (wait) "steps_since_update (counted bsize s) < update_interval (ac s)"
      "snd (ctl_step observed fill bsize now s) = counted bsize s"
    | (calibrating) s4 where "\<not> calibrated s" "calibrate (restarted bsize s) = Inr s4"
      "snd (ctl_step observed fill bsize now s) = s4"
    | (failing) "snd (ctl_step observed fill bsize now s) = restarted bsize s"
      "update_interval (ac s) \<le> steps_since_update (counted bsize s)"
      "calibrated s \<Longrightarrow> observed \<noteq> None \<Longrightarrow> target_p50_ms s \<noteq> None \<Longrightarrow>
        maybe_recover_from_starvation (restarted bsize s) = None"
    | (recovering) s4 where "calibrated s" "maybe_recover_from_starvation (restarted bsize s) = Some s4"
      "snd (ctl_step observed fill bsize now s) = s4"
    | (controlling) target obs where "calibrated s" "target_p50_ms s = Some target" "target \<noteq> 0"
      "observed = Some obs" "maybe_recover_from_starvation (restarted bsize s) = None"
      "update_interval (ac s) \<le> steps_since_update (counted bsize s)"
      "snd (ctl_step observed fill bsize now s) = pi_update target obs fill now (restarted bsize s)"
proof -
  have ac: "ac (counted bsize s) = ac s" "calibrated (counted bsize s) = calibrated s"
    "target_p50_ms (counted bsize s) = target_p50_ms s"
    by (simp_all add: counted_def Let_def update_starvation_tracker_def split: option.splits)
  show thesis
  proof (cases "steps_since_update (counted bsize s) < update_interval (ac s)")
    case True
    then show thesis using ac by (intro wait) (simp_all add: ctl_step_def counted_def Let_def)
  next
    case False
    then have step: "ctl_step observed fill bsize now s =
      (let s3 = restarted bsize s
       in if \<not> calibrated s3
          then (case calibrate s3 of Inl e \<Rightarrow> (Inl e, s3) | Inr s4 \<Rightarrow> (Inr (knobs s4), s4))
          else case (observed, target_p50_ms s3) of
                 (Some obs, Some target) \<Rightarrow>
                   (case maybe_recover_from_starvation s3 of
                      Some s4 \<Rightarrow> (Inr (knobs s4), s4)
                    | None \<Rightarrow>
                        if target = 0 then (Inl ZeroDivisionError, s3)
                        else let s4 = pi_update target obs fill now s3 in (Inr (knobs s4), s4))
               | _ \<Rightarrow> (Inr (knobs s3), s3))"
      using ac by (simp add: ctl_step_def counted_def Let_def)
    show thesis
    proof (cases "calibrated s")
      case cal: False
      show thesis
      proof (cases "calibrate (restarted bsize s)")
        case (Inl e)
        then show thesis using False cal ac step by (intro failing) simp_all
      next
        case (Inr s4)
        then show thesis using cal ac step by (intro calibrating [of s4]) simp_all
      qed
    next
      case cal: True
      show thesis
      proof (cases "maybe_recover_from_starvation (restarted bsize s)")
        case None
        then show thesis
          using False cal ac step failing controlling
          by (cases observed; cases "target_p50_ms s") (auto simp: Let_def split: if_splits)
      next
        case (Some s4)
        then show thesis
          using False cal ac step failing recovering
          by (cases observed; cases "target_p50_ms s") (auto simp: Let_def)
      qed
    qed
  qed
qed

lemma counted_simps [simp]:
  "ac (counted bsize s) = ac s" "calibrated (counted bsize s) = calibrated s"
  "target_p50_ms (counted bsize s) = target_p50_ms s" "auto_calibrate (counted bsize s) = auto_calibrate s"
  "current_wait_ms (counted bsize s) = current_wait_ms s"
  "current_batch_cost (counted bsize s) = current_batch_cost s"
  "initial_wait_ms (counted bsize s) = initial_wait_ms s"
  "initial_batch_cost (counted bsize s) = initial_batch_cost s"
  "integral_term (counted bsize s) = integral_term s"
  "steps_since_update (counted bsize s) = steps_since_update s + 1"
  by (simp_all add: counted_def Let_def update_starvation_tracker_def split: option.splits)

lemma counted_streak: "0 \<le> starvation_streak s \<Longrightarrow> 0 \<le> starvation_streak (counted bsize s)"
  by (simp add: counted_def Let_def update_starvation_tracker_def split: option.splits)

lemmas ctl_inv_defs = ctl_inv_def knobs_in_bounds_def calibration_inv_def

lemma ctl_inv_restarted: "ctl_inv s \<Longrightarrow> ctl_inv (restarted bsize s)"
  using counted_streak [of s bsize] by (auto simp: ctl_inv_defs config_ok_def)

lemma ctl_inv_counted:
  "ctl_inv s \<Longrightarrow> steps_since_update s + 1 < update_interval (ac s) \<Longrightarrow> ctl_inv (counted bsize s)"
  using counted_streak [of s bsize] by (auto simp: ctl_inv_defs)

lemma ctl_inv_calibrate:
  "ctl_inv s \<Longrightarrow> \<not> calibrated s \<Longrightarrow> calibrate s = Inr s' \<Longrightarrow> ctl_inv s'"
  by (auto simp: calibrate_def ctl_inv_defs config_ok_def split: sum.splits option.splits)

lemma ctl_inv_recover:
  assumes "ctl_inv s" and "calibrated s" and "maybe_recover_from_starvation s = Some s'"
  shows "ctl_inv s'"
proof -
  have s': "s' = s\<lparr>current_wait_ms := recovery_wait s, current_batch_cost := recovery_cost s,
      integral_term := 0, last_step_time := None, starvation_streak := 0,
      starvation_resets := starvation_resets s + 1\<rparr>"
    using assms(3) by (auto simp: maybe_recover_from_starvation_def split: if_splits)
  have "config_ok (ac s)" using assms(1) by (simp add: ctl_inv_def)
  then have "min_wait_ms (ac s) \<le> recovery_wait s" "recovery_wait s \<le> max_wait_ms (ac s)"
    "min_batch_cost (ac s) \<le> recovery_cost s" "recovery_cost s \<le> max_batch_cost (ac s)"
    by (simp_all add: recovery_wait_def recovery_cost_def config_ok_def)
  then show ?thesis using assms(1,2) by (auto simp: s' ctl_inv_defs config_ok_def)
qed

lemma pi_update_simps [simp]:
  "ac (pi_update t obs fill now s) = ac s" "calibrated (pi_update t obs fill now s) = calibrated s"
  "target_p50_ms (pi_update t obs fill now s) = target_p50_ms s"
  "auto_calibrate (pi_update t obs fill now s) = auto_calibrate s"
  "initial_wait_ms (pi_update t obs fill now s) = initial_wait_ms s"
  "initial_batch_cost (pi_update t obs fill now s) = initial_batch_cost s"
  "steps_since_update (pi_update t obs fill now s) = steps_since_update s"
  "starvation_streak (pi_update t obs fill now s) = starvation_streak s"
  by (simp_all add: pi_update_def Let_def)

lemma ctl_inv_pi_update:
  assumes "ctl_inv s" and "calibrated s"
  shows "ctl_inv (pi_update t obs fill now s)"
proof -
  have ok: "config_ok (ac s)" "knobs_in_bounds s" using assms(1) by (simp_all add: ctl_inv_def)
  have "knobs_in_bounds (pi_update t obs fill now s)"
    using next_cost_bounds [OF ok(2,1)] next_integral_bound [of s] ok
    by (simp add: pi_update_def Let_def knobs_in_bounds_def config_ok_def)
  moreover have "calibration_inv (pi_update t obs fill now s)"
    using assms by (auto simp: ctl_inv_def calibration_inv_def)
  ultimately show ?thesis using assms(1) by (simp add: ctl_inv_def)
qed

lemma ctl_inv_step: "ctl_inv s \<Longrightarrow> ctl_inv (snd (ctl_step observed fill bsize now s))"
proof (cases rule: ctl_step_cases [of bsize s observed fill now])
  case wait
  assume "ctl_inv s"
  with wait show ?thesis using ctl_inv_counted by simp
next
  case (calibrating s4)
  assume "ctl_inv s"
  with calibrating show ?thesis using ctl_inv_calibrate [OF ctl_inv_restarted] by simp
next
  case failing
  assume "ctl_inv s"
  with failing show ?thesis by (simp add: ctl_inv_restarted)
next
  case (recovering s4)
  assume "ctl_inv s"
  with recovering show ?thesis using ctl_inv_recover [OF ctl_inv_restarted] by simp
next
  case (controlling target obs)
  assume "ctl_inv s"
  with controlling show ?thesis using ctl_inv_pi_update [OF ctl_inv_restarted] by simp
qed

lemma ctl_inv_reset: "ctl_inv s \<Longrightarrow> ctl_inv (ctl_reset s)"
  by (auto simp: ctl_reset_def Let_def ctl_inv_defs config_ok_def clamp_id split: option.splits)

lemma ctl_inv_sample: "ctl_inv s \<Longrightarrow> ctl_inv (record_inference_sample ms s)"
  by (auto simp: record_inference_sample_def ctl_inv_defs)

interpretation ctl: step_invariant ctl_event_step ctl_inv
proof
  fix s e assume "ctl_inv s"
  then show "ctl_inv (ctl_event_step e s)"
    by (cases e) (simp_all add: ctl_inv_step ctl_inv_reset ctl_inv_sample)
qed

lemma ctl_inv_new: "config_ok c \<Longrightarrow> ctl_inv (new_controller c)"
  by (auto simp: new_controller_def ctl_inv_defs config_ok_def)

lemma ac_calibrate: "calibrate s = Inr s' \<Longrightarrow> ac s' = ac s"
  by (auto simp: calibrate_def split: sum.splits option.splits)

lemma ac_recover: "maybe_recover_from_starvation s = Some s' \<Longrightarrow> ac s' = ac s"
  by (auto simp: maybe_recover_from_starvation_def split: if_splits)

lemma calibrated_recover: "maybe_recover_from_starvation s = Some s' \<Longrightarrow> calibrated s' = calibrated s"
  by (auto simp: maybe_recover_from_starvation_def split: if_splits)

lemma ac_step: "ac (ctl_event_step e s) = ac s"
proof (cases e)
  case (Step observed fill bsize now)
  have "ac (snd (ctl_step observed fill bsize now s)) = ac s"
    by (cases rule: ctl_step_cases [of bsize s observed fill now]) (auto dest: ac_calibrate ac_recover)
  then show ?thesis by (simp add: Step)
qed (simp_all add: record_inference_sample_def ctl_reset_def Let_def)

lemma ac_run: "ac (store_run ctl_event_step es s) = ac s"
  by (induction es arbitrary: s) (simp_all add: ac_step)

section \<open>Leaving the floor\<close>

lemma recovery_unpins:
  assumes "ctl_inv s" and "0 < min_batch_cost (ac s)" and "min_batch_cost (ac s) < max_batch_cost (ac s)"
    and "maybe_recover_from_starvation s = Some s'"
  shows "\<not> is_pinned_at_floor s'"
proof -
  have "current_batch_cost s' = recovery_cost s" "ac s' = ac s"
    using assms(4) by (auto simp: maybe_recover_from_starvation_def split: if_splits)
  moreover have "min_batch_cost (ac s) < recovery_cost s"
    using assms(2,3) by (simp add: recovery_cost_def clamp_def)
  ultimately show ?thesis by (simp add: is_pinned_at_floor_def)
qed

text \<open>A step that serves a tiny batch with a latency reading at hand.\<close>

definition tiny_step :: "adaptive_config \<Rightarrow> ctl_event \<Rightarrow> bool" where
  "tiny_step c e =
     (case e of
        Step (Some obs) fill (Some b) now \<Rightarrow> b \<le> starvation_batch_size c
      | _ \<Rightarrow> False)"

text \<open>Steps left until the starvation detector must have fired.\<close>

definition floor_patience :: "controller \<Rightarrow> int" where
  "floor_patience s =
     (if starvation_window (ac s) \<le> starvation_streak s
      then update_interval (ac s) - steps_since_update s
      else starvation_window (ac s) - starvation_streak s + update_interval (ac s))"

lemma streak_pi: "starvation_streak (restarted bsize s) = starvation_streak (counted bsize s)"
  by simp

lemma pinned_restarted: "is_pinned_at_floor (restarted bsize s) = is_pinned_at_floor s"
  by (simp add: is_pinned_at_floor_def)

lemma tiny_step_patience:
  assumes inv: "ctl_inv s" and cal: "calibrated s" and pin: "is_pinned_at_floor s"
    and en: "starvation_recovery_enabled (ac s)" and floor: "0 < min_batch_cost (ac s)"
    "min_batch_cost (ac s) < max_batch_cost (ac s)" and tiny: "tiny_step (ac s) e"
  shows "calibrated (ctl_event_step e s) \<and>
    (\<not> is_pinned_at_floor (ctl_event_step e s) \<or>
     floor_patience (ctl_event_step e s) \<le> floor_patience s - 1)"
proof -
  obtain obs fill b now where e: "e = Step (Some obs) fill (Some b) now" "b \<le> starvation_batch_size (ac s)"
    using tiny by (auto simp: tiny_step_def split: ctl_event.splits option.splits)
  have streak: "starvation_streak (counted (Some b) s) = starvation_streak s + 1"
    using e pin by (simp add: counted_def Let_def update_starvation_tracker_def)
  have tgt: "target_p50_ms s \<noteq> None" and st: "0 \<le> starvation_streak s" "0 \<le> steps_since_update s"
    "steps_since_update s < update_interval (ac s)"
    using inv cal by (auto simp: ctl_inv_def calibration_inv_def split: option.splits)
  have notyet: "starvation_streak s + 1 < starvation_window (ac s)"
    if "maybe_recover_from_starvation (restarted (Some b) s) = None"
    using that en pin streak
    by (auto simp: maybe_recover_from_starvation_def pinned_restarted split: if_splits)
  show ?thesis
    using e
  proof (cases rule: ctl_step_cases [of "Some b" s "Some obs" fill now])
    case wait
    then show ?thesis using e cal streak st by (auto simp: floor_patience_def)
  next
    case failing
    then show ?thesis
      using e cal tgt streak st notyet by (auto simp: floor_patience_def)
  next
    case (recovering s4)
    then have "\<not> is_pinned_at_floor s4"
      using recovery_unpins [OF ctl_inv_restarted [OF inv]] floor by simp
    moreover have "calibrated s4"
      using calibrated_recover [OF recovering(2)] cal by simp
    ultimately show ?thesis using recovering e by simp
  next
    case (controlling target obs')
    then show ?thesis using e cal streak st notyet by (auto simp: floor_patience_def)
  qed (use cal in simp)
qed

primrec pinned_throughout :: "ctl_event list \<Rightarrow> controller \<Rightarrow> bool" where
  "pinned_throughout [] s = is_pinned_at_floor s"
| "pinned_throughout (e # es) s = (is_pinned_at_floor s \<and> pinned_throughout es (ctl_event_step e s))"

lemma pinned_throughout_hd: "pinned_throughout es s \<Longrightarrow> is_pinned_at_floor s"
  by (cases es) auto

lemma pinned_bounded:
  assumes "ctl_inv s" and "calibrated s" and "starvation_recovery_enabled (ac s)"
    and "0 < min_batch_cost (ac s)" "min_batch_cost (ac s) < max_batch_cost (ac s)"
    and "\<forall>e \<in> set es. tiny_step (ac s) e" and "pinned_throughout es s"
  shows "int (length es) < floor_patience s"
  using assms
proof (induction es arbitrary: s)
  case Nil
  then show ?case by (auto simp: floor_patience_def ctl_inv_def)
next
  case (Cons e es)
  let ?s = "ctl_event_step e s"
  have pin: "is_pinned_at_floor s" "is_pinned_at_floor ?s"
    using Cons.prems(7) pinned_throughout_hd [of es ?s] by simp_all
  from tiny_step_patience [OF Cons.prems(1,2) pin(1) Cons.prems(3-5), of e] Cons.prems(6) pin(2)
  have "calibrated ?s" "floor_patience ?s \<le> floor_patience s - 1" by auto
  moreover have "int (length es) < floor_patience ?s"
    using Cons.prems \<open>calibrated ?s\<close>
    by (intro Cons.IH) (auto simp: ac_step intro: ctl.invar_step)
  ultimately show ?case by simp
qed

section \<open>Properties\<close>

text \<open>
  With consistent bounds and start values within them, in every run of samples, steps
  and resets the batch wait and the batch cost stay within their configured bounds and
  the integral term within \<^verbatim>\<open>_integral_max\<close>.
\<close>

theorem adaptive_knobs_bounded:
  assumes "config_ok c"
  shows "knobs_in_bounds (store_run ctl_event_step es (new_controller c)) \<and>
    ac (store_run ctl_event_step es (new_controller c)) = c"
proof -
  have "ac (new_controller c) = c" by (simp add: new_controller_def)
  then show ?thesis
    using ctl.invar_run [OF ctl_inv_new [OF assms]] ac_run by (simp add: ctl_inv_def)
qed

text \<open>
  Auto-calibration: in every run, a controller without an explicit target holds both
  knobs at their start values until it is calibrated, and once calibrated its target lies
  within the configured limits.
\<close>

theorem adaptive_calibration:
  assumes "config_ok c" and "explicit_target c = None"
    and "s = store_run ctl_event_step es (new_controller c)"
  shows "if calibrated s
    then (case target_p50_ms s of
            None \<Rightarrow> False
          | Some t \<Rightarrow> min_target_p50_ms c \<le> t \<and> t \<le> max_target_p50_ms c)
    else current_wait_ms s = start_wait_ms c \<and> current_batch_cost s = start_batch_cost c"
proof -
  have "ac s = c" unfolding assms(3) by (simp add: ac_run new_controller_def)
  moreover have "ctl_inv s" unfolding assms(3) by (rule ctl.invar_run [OF ctl_inv_new [OF assms(1)]])
  ultimately show ?thesis using assms(2) by (auto simp: ctl_inv_def calibration_inv_def)
qed

text \<open>
  C38. Starvation recovery works: from any reachable calibrated state, with recovery
  enabled and room above a positive cost floor, the controller cannot stay pinned at the
  floor through \<^verbatim>\<open>starvation_window + update_interval\<close> consecutive steps that serve tiny
  batches with a latency reading.
\<close>

theorem starvation_recovers:
  assumes "config_ok c" and "starvation_recovery_enabled c"
    and "0 < min_batch_cost c" and "min_batch_cost c < max_batch_cost c" and "0 \<le> starvation_window c"
    and "s = store_run ctl_event_step es0 (new_controller c)" and "calibrated s"
    and "\<forall>e \<in> set es. tiny_step c e"
    and "starvation_window c + update_interval c \<le> int (length es)"
  shows "\<not> pinned_throughout es s"
proof
  assume pin: "pinned_throughout es s"
  have c: "ac s = c" unfolding assms(6) by (simp add: ac_run new_controller_def)
  have inv: "ctl_inv s" unfolding assms(6) by (rule ctl.invar_run [OF ctl_inv_new [OF assms(1)]])
  have "int (length es) < floor_patience s"
    using pinned_bounded [OF inv assms(7)] assms(2-4,8) pin c by simp
  moreover have "floor_patience s \<le> starvation_window c + update_interval c"
    using inv c assms(5) by (auto simp: floor_patience_def ctl_inv_def)
  ultimately show False using assms(9) by simp
qed

subsection \<open>Witnesses\<close>

definition demo_adaptive :: "real option \<Rightarrow> adaptive_config" where
  "demo_adaptive t = \<lparr>explicit_target = t, calibration_multiplier = 3 / 2, min_target_p50_ms = 5,
     max_target_p50_ms = 500, min_wait_ms = 1, max_wait_ms = 50, min_batch_cost = 256,
     max_batch_cost = 65536, gain = 3 / 10, integral_gain = 1 / 20, cost_gain = 3 / 20,
     update_interval = 1, fill_ratio_threshold = 7 / 10, starvation_recovery_enabled = True,
     starvation_window = 2, starvation_batch_size = 1, start_wait_ms = 10, start_batch_cost = 16384,
     integral_max = 20\<rparr>"

lemma demo_adaptive_ok: "config_ok (demo_adaptive t)"
  by (simp add: config_ok_def demo_adaptive_def)

theorem adaptive_knobs_bounded_witness:
  "let s = store_run ctl_event_step [Step (Some 900) (Some 1) (Some 1) 0] (new_controller (demo_adaptive (Some 50)))
   in 1 \<le> current_wait_ms s \<and> current_wait_ms s \<le> 50 \<and> 256 \<le> current_batch_cost s"
proof -
  have "min_wait_ms (demo_adaptive t) = 1" "max_wait_ms (demo_adaptive t) = 50"
    "min_batch_cost (demo_adaptive t) = 256" for t
    by (simp_all add: demo_adaptive_def)
  then show ?thesis
    using adaptive_knobs_bounded [OF demo_adaptive_ok, of "[Step (Some 900) (Some 1) (Some 1) 0]" "Some 50"]
    unfolding Let_def knobs_in_bounds_def by metis
qed

theorem adaptive_calibration_witness:
  "\<not> calibrated (new_controller (demo_adaptive None)) \<and>
   current_wait_ms (new_controller (demo_adaptive None)) = 10"
proof -
  have "explicit_target (demo_adaptive None) = None" by (simp add: demo_adaptive_def)
  from adaptive_calibration [OF demo_adaptive_ok this, of _ "[]"] show ?thesis
    by (simp add: new_controller_def demo_adaptive_def)
qed

theorem starvation_recovers_witness:
  "\<not> pinned_throughout (replicate 3 (Step (Some 900) (Some 1) (Some 1) 0))
     (store_run ctl_event_step [Reset] (new_controller (demo_adaptive (Some 50))))"
proof -
  let ?c = "demo_adaptive (Some 50)" and ?es = "replicate 3 (Step (Some 900) (Some 1) (Some 1) 0)"
  have "starvation_recovery_enabled ?c" "0 < min_batch_cost ?c" "min_batch_cost ?c < max_batch_cost ?c"
    "0 \<le> starvation_window ?c" "starvation_window ?c + update_interval ?c \<le> int (length ?es)"
    "\<forall>e \<in> set ?es. tiny_step ?c e"
    by (simp_all add: demo_adaptive_def tiny_step_def)
  moreover have "calibrated (store_run ctl_event_step [Reset] (new_controller ?c))"
    by (simp add: ctl_reset_def new_controller_def demo_adaptive_def Let_def)
  ultimately show ?thesis
    using starvation_recovers [OF demo_adaptive_ok, of "Some 50" _ "[Reset]" ?es] by blast
qed

end
