(* ===== verification/Oom_Recovery.thy ===== *)
theory Oom_Recovery
  imports Memory
begin

text \<open>
  Recovery from out-of-memory errors during inference: \<^verbatim>\<open>core/oom.py\<close> and the
  \<^verbatim>\<open>BatchExecutor\<close> of \<^verbatim>\<open>core/worker/oom_recovery.py\<close>. Device, adapter and registry are a
  world \<open>'w\<close> and the record \<open>exec_env\<close> of the calls made on it; a call that raises returns
  \<open>Inl\<close> or \<open>None\<close>; the output of a dispatch is the function that slices it, which may raise too. The four parallel lists of a config group are one list of entries. The
  executor's own state holds the world, the futures and partial results of the requests,
  the counters and the telemetry events in order.

  Shown: recovery terminates, every request of the group ends with a result for each of
  its items or a decided future, other requests are untouched, a malformed request fails
  alone, and the recursive split dispatches at most \<open>2 ^ (d + 1) - 1\<close> times.
\<close>

section \<open>Errors and configuration\<close>

datatype exec_error =
    InvalidInputError string
  | OtherError string
  | ResourceExhaustedError nat string

primrec exc_str :: "exec_error \<Rightarrow> string" where
  "exc_str (InvalidInputError m) = m"
| "exc_str (OtherError m) = m"
| "exc_str (ResourceExhaustedError n m) =
     ''Resource exhausted after '' @ show_nat n @ '' recovery attempts: '' @ m"

definition oom_indicators :: "string list" where
  "oom_indicators = [''out of memory'', ''cannot allocate memory'', ''failed to allocate'']"

definition is_oom_error :: "exec_error \<Rightarrow> bool" where
  "is_oom_error e =
     (case e of
        ResourceExhaustedError n m \<Rightarrow> True
      | _ \<Rightarrow> list_ex (\<lambda>i. py_contains i (py_lower (exc_str e))) oom_indicators)"

datatype oom_action = CACHE_CLEAR | EVICT_LRU | SPLIT_BATCH

primrec action_value :: "oom_action \<Rightarrow> string" where
  "action_value CACHE_CLEAR = ''cache_clear''"
| "action_value EVICT_LRU = ''evict_lru''"
| "action_value SPLIT_BATCH = ''split_batch''"

record oom_config =
  oom_enabled :: bool
  strategy :: "oom_action list"
  max_split_depth :: nat

definition default_oom_config :: oom_config where
  "default_oom_config =
     \<lparr>oom_enabled = True, strategy = [CACHE_CLEAR, EVICT_LRU, SPLIT_BATCH], max_split_depth = 4\<rparr>"

record oom_stats =
  cache_clears :: int
  evictions_triggered :: int
  batch_splits :: int
  terminal_failures :: int
  recoveries_attempted :: int
  recoveries_succeeded :: int

definition zero_stats :: oom_stats where
  "zero_stats = \<lparr>cache_clears = 0, evictions_triggered = 0, batch_splits = 0, terminal_failures = 0,
     recoveries_attempted = 0, recoveries_succeeded = 0\<rparr>"

section \<open>Groups, world and state\<close>

record 'i entry =
  e_item :: 'i
  e_req :: nat
  e_index :: int
  e_cost :: int

type_synonym 'i config_group = "'i entry list"

record 'w registry_callbacks =
  evict_lru_excluding :: "'w \<Rightarrow> eviction_result option \<times> 'w"
  release_siblings :: "'w \<Rightarrow> int option \<times> 'w"

record ('w, 'i, 'o) exec_env =
  dispatch :: "'i config_group \<Rightarrow> 'w \<Rightarrow> (exec_error + (nat \<Rightarrow> exec_error + 'o)) \<times> 'w"
  registry :: "'w registry_callbacks option"
  own_release :: "('w \<Rightarrow> int option \<times> 'w) option"
  gc_collect :: "'w \<Rightarrow> 'w"
  empty_cache :: "'w \<Rightarrow> 'w"

datatype fut = Waiting | Failed exec_error | Settled

record ('w, 'o) exec_state =
  world :: 'w
  fut_of :: "nat \<Rightarrow> fut"
  partial_results :: "nat \<Rightarrow> (int \<rightharpoonup> 'o) option"
  stats :: oom_stats
  telemetry :: "(string \<times> string) list"

section \<open>Mitigations\<close>

definition released_bytes :: "int option \<Rightarrow> int" where
  "released_bytes v = (case v of None \<Rightarrow> 0 | Some n \<Rightarrow> if n \<le> 0 then 0 else n)"

definition release_own_optional_memory ::
    "('w, 'i, 'o) exec_env \<Rightarrow> ('w, 'o) exec_state \<Rightarrow> int \<times> ('w, 'o) exec_state" where
  "release_own_optional_memory env s =
     (case own_release env of
        None \<Rightarrow> (0, s)
      | Some f \<Rightarrow> let (v, w) = f (world s) in (released_bytes v, s\<lparr>world := w\<rparr>))"

definition release_sibling_optional_memory ::
    "('w, 'i, 'o) exec_env \<Rightarrow> ('w, 'o) exec_state \<Rightarrow> int \<times> ('w, 'o) exec_state" where
  "release_sibling_optional_memory env s =
     (case registry env of
        None \<Rightarrow> (0, s)
      | Some r \<Rightarrow> let (v, w) = release_siblings r (world s) in (released_bytes v, s\<lparr>world := w\<rparr>))"

definition empty_cuda_cache ::
    "('w, 'i, 'o) exec_env \<Rightarrow> ('w, 'o) exec_state \<Rightarrow> ('w, 'o) exec_state" where
  "empty_cuda_cache env s = s\<lparr>world := empty_cache env (world s)\<rparr>"

definition oom_cache_clear ::
    "('w, 'i, 'o) exec_env \<Rightarrow> ('w, 'o) exec_state \<Rightarrow> ('w, 'o) exec_state" where
  "oom_cache_clear env s =
     (let s1 = snd (release_own_optional_memory env s)
      in empty_cuda_cache env (s1\<lparr>world := gc_collect env (world s1)\<rparr>))"

definition try_evict_lru ::
    "('w, 'i, 'o) exec_env \<Rightarrow> ('w, 'o) exec_state \<Rightarrow> bool \<times> ('w, 'o) exec_state" where
  "try_evict_lru env s =
     (case registry env of
        None \<Rightarrow> (False, s)
      | Some r \<Rightarrow> let (res, w) = evict_lru_excluding r (world s)
                  in (res = Some EVICTED, s\<lparr>world := w\<rparr>))"

definition record_recovery ::
    "string \<Rightarrow> string \<Rightarrow> ('w, 'o) exec_state \<Rightarrow> ('w, 'o) exec_state" where
  "record_recovery strat outcome s = s\<lparr>telemetry := telemetry s @ [(strat, outcome)]\<rparr>"

definition record_pending ::
    "string option \<Rightarrow> ('w, 'o) exec_state \<Rightarrow> ('w, 'o) exec_state" where
  "record_pending p s = (case p of None \<Rightarrow> s | Some a \<Rightarrow> record_recovery a ''failed'' s)"

section \<open>Fan-out and failure\<close>

text \<open>
  The slices are written in order; where the handler fails to slice the output the error ends the
  loop, and the slices written before it stay.
\<close>

fun fan_out :: "(nat \<Rightarrow> exec_error + 'o) \<Rightarrow> nat \<Rightarrow> 'i config_group \<Rightarrow> (nat \<Rightarrow> (int \<rightharpoonup> 'o) option) \<Rightarrow>
    exec_error option \<times> (nat \<Rightarrow> (int \<rightharpoonup> 'o) option)" where
  "fan_out out i [] ps = (None, ps)"
| "fan_out out i (e # es) ps =
     (let m = (case ps (e_req e) of None \<Rightarrow> Map.empty | Some m \<Rightarrow> m)
      in case out i of
           Inl x \<Rightarrow> (Some x, ps(e_req e := Some m))
         | Inr v \<Rightarrow> fan_out out (Suc i) es (ps(e_req e := Some (m(e_index e \<mapsto> v)))))"

definition dispatch_and_fan_out ::
    "('w, 'i, 'o) exec_env \<Rightarrow> 'i config_group \<Rightarrow> ('w, 'o) exec_state \<Rightarrow>
     exec_error option \<times> ('w, 'o) exec_state" where
  "dispatch_and_fan_out env g s =
     (let (r, w) = dispatch env g (world s)
      in case r of
           Inl e \<Rightarrow> (Some e, s\<lparr>world := w\<rparr>)
         | Inr out \<Rightarrow> let (x, ps) = fan_out out 0 g (partial_results s) in (x, s\<lparr>world := w, partial_results := ps\<rparr>))"

definition set_exception :: "exec_error \<Rightarrow> nat \<Rightarrow> (nat \<Rightarrow> fut) \<Rightarrow> (nat \<Rightarrow> fut)" where
  "set_exception e r futs = (if futs r = Waiting then futs(r := Failed e) else futs)"

text \<open>\<^verbatim>\<open>list(dict.fromkeys(...))\<close>: the request identities in order of first occurrence; also
  the requests the \<^verbatim>\<open>seen\<close> set of \<^verbatim>\<open>_fail_group\<close> lets through.\<close>

definition request_ids :: "'i config_group \<Rightarrow> nat list" where
  "request_ids g = rev (remdups (rev (map e_req g)))"

definition fail_group ::
    "'i config_group \<Rightarrow> exec_error \<Rightarrow> ('w, 'o) exec_state \<Rightarrow> ('w, 'o) exec_state" where
  "fail_group g e s = s\<lparr>fut_of := fold (set_exception e) (request_ids g) (fut_of s)\<rparr>"

definition wrap_oom :: "exec_error \<Rightarrow> nat \<Rightarrow> exec_error" where
  "wrap_oom e attempts = ResourceExhaustedError attempts (exc_str e)"

definition left_ids :: "'i config_group \<Rightarrow> nat list" where
  "left_ids g = take (length (request_ids g) div 2) (request_ids g)"

abbreviation left_part :: "'i config_group \<Rightarrow> 'i config_group" where
  "left_part g \<equiv> filter (\<lambda>e. e_req e \<in> set (left_ids g)) g"

abbreviation right_part :: "'i config_group \<Rightarrow> 'i config_group" where
  "right_part g \<equiv> filter (\<lambda>e. e_req e \<notin> set (left_ids g)) g"

definition distinct_count :: "'i config_group \<Rightarrow> nat" where
  "distinct_count g = card (set (map e_req g))"

abbreviation add_stat :: "(oom_stats \<Rightarrow> oom_stats) \<Rightarrow> ('w, 'o) exec_state \<Rightarrow> ('w, 'o) exec_state" where
  "add_stat f s \<equiv> s\<lparr>stats := f (stats s)\<rparr>"

section \<open>The executor\<close>

primrec is_invalid_input :: "exec_error \<Rightarrow> bool" where
  "is_invalid_input (InvalidInputError m) = True"
| "is_invalid_input (OtherError m) = False"
| "is_invalid_input (ResourceExhaustedError n m) = False"

text \<open>
  \<^verbatim>\<open>run\<close>, the strategy loop inside it (\<open>strategies\<close>, with the retry after a mitigation),
  the recursive split and the isolation of malformed requests call each other. A call of
  \<open>isolate\<close> leaves fewer distinct requests in each part; below that, the strategies left
  and the length of the group decrease.
\<close>

lemma request_ids_props:
  "set (request_ids g) = e_req ` set g" "distinct (request_ids g)"
  "length (request_ids g) = distinct_count g"
proof -
  show s: "set (request_ids g) = e_req ` set g" "distinct (request_ids g)"
    by (simp_all add: request_ids_def)
  show "length (request_ids g) = distinct_count g"
    using distinct_card [OF s(2)] s(1) by (simp add: distinct_count_def)
qed

lemma distinct_count_mono: "set g' \<subseteq> set g \<Longrightarrow> distinct_count g' \<le> distinct_count g"
  unfolding distinct_count_def by (rule card_mono) auto

lemma distinct_count_parts:
  assumes "\<not> length (request_ids g) \<le> 1"
  shows "distinct_count (left_part g) < distinct_count g"
    and "distinct_count (right_part g) < distinct_count g"
proof -
  let ?ids = "request_ids g" and ?n = "distinct_count g"
  have n: "length ?ids = ?n" "?n \<ge> 2" using assms request_ids_props(3) [of g] by simp_all
  have "set (map e_req (left_part g)) \<subseteq> set (left_ids g)" by auto
  then have "distinct_count (left_part g) \<le> card (set (left_ids g))"
    unfolding distinct_count_def by (rule card_mono [OF finite_set])
  also have "\<dots> \<le> ?n div 2"
    using card_length [of "left_ids g"] n by (simp add: left_ids_def)
  finally show "distinct_count (left_part g) < ?n" using n(2) by simp
  have "set (map e_req (right_part g)) \<subseteq> set (drop (?n div 2) ?ids)"
    using request_ids_props(1) [of g] n(1)
    by (auto simp: left_ids_def) (metis UnE append_take_drop_id imageI set_append)
  then have "distinct_count (right_part g) \<le> card (set (drop (?n div 2) ?ids))"
    unfolding distinct_count_def by (rule card_mono [OF finite_set])
  also have "\<dots> \<le> ?n - ?n div 2" using card_length [of "drop (?n div 2) ?ids"] n by simp
  finally show "distinct_count (right_part g) < ?n" using n(2) by simp
qed

lemma split_fewer:
  assumes "\<not> length g \<le> Suc 0"
  shows "distinct_count (take (length g div 2) g) < distinct_count g \<or>
      distinct_count (take (length g div 2) g) = distinct_count g \<and> length g div 2 < length g"
    and "distinct_count (drop (length g div 2) g) < distinct_count g \<or>
      distinct_count (drop (length g div 2) g) = distinct_count g \<and> length g - length g div 2 < length g"
  using assms distinct_count_mono [OF set_take_subset, of "length g div 2" g]
    distinct_count_mono [OF set_drop_subset, of "length g div 2" g] by linarith+

function
  run :: "('w, 'i, 'o) exec_env \<Rightarrow> oom_config \<Rightarrow> 'i config_group \<Rightarrow> ('w, 'o) exec_state \<Rightarrow>
      ('w, 'o) exec_state"
and
  strategies :: "('w, 'i, 'o) exec_env \<Rightarrow> oom_config \<Rightarrow> oom_action list \<Rightarrow> string option \<Rightarrow>
      exec_error \<Rightarrow> 'i config_group \<Rightarrow> ('w, 'o) exec_state \<Rightarrow> ('w, 'o) exec_state"
and
  retry :: "('w, 'i, 'o) exec_env \<Rightarrow> oom_config \<Rightarrow> oom_action \<Rightarrow> oom_action list \<Rightarrow>
      'i config_group \<Rightarrow> ('w, 'o) exec_state \<Rightarrow> ('w, 'o) exec_state"
and
  run_split :: "('w, 'i, 'o) exec_env \<Rightarrow> oom_config \<Rightarrow> 'i config_group \<Rightarrow> nat \<Rightarrow>
      ('w, 'o) exec_state \<Rightarrow> (nat \<times> nat) \<times> ('w, 'o) exec_state"
and
  isolate :: "('w, 'i, 'o) exec_env \<Rightarrow> oom_config \<Rightarrow> 'i config_group \<Rightarrow> exec_error \<Rightarrow>
      ('w, 'o) exec_state \<Rightarrow> ('w, 'o) exec_state"
where
  "run env c g s =
     (let (r, s1) = dispatch_and_fan_out env g s
      in case r of
           None \<Rightarrow> s1
         | Some e \<Rightarrow>
             if is_invalid_input e then isolate env c g e s1
             else if \<not> oom_enabled c \<or> \<not> is_oom_error e then fail_group g e s1
             else strategies env c (strategy c) None e g
                    (add_stat (\<lambda>t. t\<lparr>recoveries_attempted := recoveries_attempted t + 1\<rparr>) s1))"
| "strategies env c acts pending err g s =
     (case acts of
        [] \<Rightarrow>
          fail_group g (wrap_oom err (length (strategy c)))
            (record_recovery (case pending of None \<Rightarrow> ''other'' | Some a \<Rightarrow> a) ''terminal''
              (add_stat (\<lambda>t. t\<lparr>terminal_failures := terminal_failures t + 1\<rparr>) s))
      | a # rest \<Rightarrow>
          (case a of
             CACHE_CLEAR \<Rightarrow>
               let s1 = record_pending pending s;
                   s2 = snd (release_sibling_optional_memory env s1);
                   s3 = oom_cache_clear env s2
               in retry env c a rest g (add_stat (\<lambda>t. t\<lparr>cache_clears := cache_clears t + 1\<rparr>) s3)
           | EVICT_LRU \<Rightarrow>
               let s1 = snd (release_sibling_optional_memory env s);
                   s2 = snd (release_own_optional_memory env s1);
                   (evicted, s3) = try_evict_lru env s2
               in if \<not> evicted then strategies env c rest pending err g s3
                  else retry env c a rest g
                         (add_stat (\<lambda>t. t\<lparr>evictions_triggered := evictions_triggered t + 1\<rparr>)
                           (record_pending pending s3))
           | SPLIT_BATCH \<Rightarrow>
               let s1 = add_stat (\<lambda>t. t\<lparr>batch_splits := batch_splits t + 1\<rparr>) (record_pending pending s);
                   (counts, s2) = run_split env c g 0 s1;
                   s3 = (if 0 < fst counts
                         then add_stat (\<lambda>t. t\<lparr>recoveries_succeeded := recoveries_succeeded t + 1\<rparr>) s2 else s2);
                   s4 = (if 0 < snd counts
                         then add_stat (\<lambda>t. t\<lparr>terminal_failures := terminal_failures t + 1\<rparr>) s3 else s3)
               in record_recovery (action_value a)
                    (if 0 < snd counts then ''terminal'' else if 0 < fst counts then ''success'' else ''failed'') s4))"
| "retry env c a rest g s =
     (let (r, s1) = dispatch_and_fan_out env g s
      in case r of
           None \<Rightarrow> record_recovery (action_value a) ''success''
                     (add_stat (\<lambda>t. t\<lparr>recoveries_succeeded := recoveries_succeeded t + 1\<rparr>) s1)
         | Some e \<Rightarrow>
             if is_invalid_input e then isolate env c g e s1
             else if \<not> is_oom_error e then fail_group g e (record_recovery (action_value a) ''failed'' s1)
             else strategies env c rest (Some (action_value a)) e g s1)"
| "run_split env c g depth s =
     (let (r, s1) = dispatch_and_fan_out env g (if depth = 0 then oom_cache_clear env s else s)
      in case r of
           None \<Rightarrow> ((distinct_count g, 0), s1)
         | Some e \<Rightarrow>
             if is_invalid_input e
             then let s2 = isolate env c g e s1
                  in ((card (set (filter (\<lambda>q. fut_of s2 q = Waiting) (map e_req g))), 0), s2)
             else if \<not> is_oom_error e then ((0, 0), fail_group g e s1)
             else if length g \<le> 1 \<or> max_split_depth c \<le> depth
             then ((0, distinct_count g), fail_group g (wrap_oom e (depth + 1)) s1)
             else let mid = length g div 2;
                      (l, s2) = run_split env c (take mid g) (depth + 1) (empty_cuda_cache env s1);
                      (r, s3) = run_split env c (drop mid g) (depth + 1) (empty_cuda_cache env s2)
                  in ((fst l + fst r, snd l + snd r), s3))"
| "isolate env c g err s =
     (if length (request_ids g) \<le> 1 then fail_group g err s
      else run env c (right_part g) (run env c (left_part g) s))"
  by pat_completeness auto
termination
proof (relation "measures
    [case_sum (case_sum (\<lambda>(env, c, g, s). distinct_count g) (\<lambda>(env, c, acts, p, e, g, s). distinct_count g))
       (case_sum (\<lambda>(env, c, a, rest, g, s). distinct_count g)
         (case_sum (\<lambda>(env, c, g, d, s). distinct_count g) (\<lambda>(env, c, g, e, s). distinct_count g))),
     case_sum (case_sum (\<lambda>_. 3) (\<lambda>_. 2)) (case_sum (\<lambda>_. 2) (case_sum (\<lambda>_. 1) (\<lambda>_. 0))),
     case_sum (case_sum (\<lambda>_. 0) (\<lambda>(env, c, acts, p, e, g, s). 2 * length acts))
       (case_sum (\<lambda>(env, c, a, rest, g, s). 2 * length rest + 1)
         (case_sum (\<lambda>(env, c, g, d, s). length g) (\<lambda>_. 0)))]")
qed (simp_all add: split_fewer distinct_count_parts)

declare run.simps [simp del] strategies.simps [simp del] retry.simps [simp del]
  run_split.simps [simp del] isolate.simps [simp del]

section \<open>Every request is decided\<close>

text \<open>The part of the state that answers requests.\<close>

type_synonym 'o core = "(nat \<Rightarrow> fut) \<times> (nat \<Rightarrow> (int \<rightharpoonup> 'o) option)"

definition core :: "('w, 'o) exec_state \<Rightarrow> 'o core" where
  "core s = (fut_of s, partial_results s)"

definition has_result :: "'o core \<Rightarrow> nat \<Rightarrow> int \<Rightarrow> bool" where
  "has_result k r i = (case snd k r of None \<Rightarrow> False | Some m \<Rightarrow> m i \<noteq> None)"

text \<open>A change that concerns only the requests in \<open>G\<close> and takes nothing back.\<close>

definition advances :: "nat set \<Rightarrow> 'o core \<Rightarrow> 'o core \<Rightarrow> bool" where
  "advances G k k' =
     ((\<forall>r. fst k r \<noteq> Waiting \<longrightarrow> fst k' r = fst k r) \<and>
      (\<forall>r. r \<notin> G \<longrightarrow> fst k' r = fst k r \<and> snd k' r = snd k r) \<and>
      (\<forall>r i. has_result k r i \<longrightarrow> has_result k' r i))"

abbreviation reqs :: "'i config_group \<Rightarrow> nat set" where
  "reqs g \<equiv> e_req ` set g"

definition decided :: "'i config_group \<Rightarrow> 'o core \<Rightarrow> bool" where
  "decided g k = (\<forall>e \<in> set g. fst k (e_req e) \<noteq> Waiting \<or> has_result k (e_req e) (e_index e))"

definition settles :: "'i config_group \<Rightarrow> 'o core \<Rightarrow> 'o core \<Rightarrow> bool" where
  "settles g k k' = (advances (reqs g) k k' \<and> decided g k')"

lemma advances_refl [simp]: "advances G k k"
  by (simp add: advances_def)

lemma advances_trans: "advances G k1 k2 \<Longrightarrow> advances G k2 k3 \<Longrightarrow> advances G k1 k3"
  by (simp add: advances_def)

lemma advances_mono: "advances G k1 k2 \<Longrightarrow> G \<subseteq> H \<Longrightarrow> advances H k1 k2"
  by (auto simp: advances_def)

lemma decided_mono: "decided g k1 \<Longrightarrow> advances G k1 k2 \<Longrightarrow> decided g k2"
  by (auto simp: decided_def advances_def)

lemma settles_after: "advances (reqs g) k1 k2 \<Longrightarrow> settles g k2 k3 \<Longrightarrow> settles g k1 k3"
  by (auto simp: settles_def intro: advances_trans)

lemma settles_parts:
  assumes "settles g1 k1 k2" and "settles g2 k2 k3" and "set g = set g1 \<union> set g2"
  shows "settles g k1 k3"
proof -
  have "advances (reqs g) k1 k2" "advances (reqs g) k2 k3"
    using assms advances_mono [of "reqs g1" k1 k2 "reqs g"] advances_mono [of "reqs g2" k2 k3 "reqs g"]
    by (auto simp: settles_def)
  moreover have "decided g1 k3" "decided g2 k3"
    using assms decided_mono [of g1 k2 "reqs g2" k3] by (auto simp: settles_def)
  ultimately show ?thesis
    using assms(3) advances_trans [of "reqs g" k1 k2 k3] by (auto simp: settles_def decided_def)
qed

named_theorems core_simps \<open>operations that leave futures and results alone\<close>

lemma core_ops [core_simps]:
  "core (s\<lparr>stats := x\<rparr>) = core s" "core (s\<lparr>world := w\<rparr>) = core s"
  "core (s\<lparr>telemetry := t\<rparr>) = core s"
  by (simp_all add: core_def)

lemma core_mitigations [core_simps]:
  "core (snd (release_own_optional_memory env s)) = core s"
  "core (snd (release_sibling_optional_memory env s)) = core s"
  "core (snd (try_evict_lru env s)) = core s"
  "core (empty_cuda_cache env s) = core s"
  "core (record_recovery a b s) = core s" "core (record_pending p s) = core s"
  by (simp_all add: release_own_optional_memory_def release_sibling_optional_memory_def try_evict_lru_def
      empty_cuda_cache_def record_recovery_def record_pending_def split_beta core_ops split: option.splits)

lemma core_oom_cache_clear [core_simps]: "core (oom_cache_clear env s) = core s"
  by (simp add: oom_cache_clear_def Let_def core_simps)

lemma set_exception_fold:
  "fold (set_exception e) rs f r = (if r \<in> set rs \<and> f r = Waiting then Failed e else f r)"
  by (induction rs arbitrary: f) (auto simp: set_exception_def)

lemma fail_group_fut: "fst (core (fail_group g e s)) r =
    (if r \<in> reqs g \<and> fst (core s) r = Waiting then Failed e else fst (core s) r)"
  by (simp add: core_def fail_group_def set_exception_fold request_ids_props)

lemma fail_group_partial [simp]: "snd (core (fail_group g e s)) = snd (core s)"
  by (simp add: core_def fail_group_def)

lemma settles_fail_group: "settles g (core s) (core (fail_group g e s))"
  by (auto simp: settles_def advances_def decided_def fail_group_fut has_result_def)

lemma has_result_update:
  "has_result (f, ps(q := Some ((case ps q of None \<Rightarrow> Map.empty | Some m \<Rightarrow> m)(i \<mapsto> x)))) r j \<longleftrightarrow>
     has_result (f, ps) r j \<or> (q = r \<and> i = j)"
  by (cases "ps q") (auto simp: has_result_def)

lemma has_result_opened:
  "has_result (f, ps(q := Some (case ps q of None \<Rightarrow> Map.empty | Some m \<Rightarrow> m))) r j = has_result (f, ps) r j"
  by (cases "ps q") (auto simp: has_result_def)

lemma fan_out_result:
  assumes "fan_out out i g ps = (x, ps1)"
  shows "has_result (f, ps) r j \<Longrightarrow> has_result (f, ps1) r j"
    and "x = None \<Longrightarrow> e \<in> set g \<Longrightarrow> has_result (f, ps1) (e_req e) (e_index e)"
    and "r \<notin> reqs g \<Longrightarrow> ps1 r = ps r"
proof -
  have "(has_result (f, ps) r j \<longrightarrow> has_result (f, ps1) r j) \<and> (x = None \<longrightarrow> (\<forall>e \<in> set g. has_result (f, ps1) (e_req e) (e_index e))) \<and>
      (r \<notin> reqs g \<longrightarrow> ps1 r = ps r)" for r j
    using assms
  proof (induction g arbitrary: i ps r j)
    case (Cons e es)
    let ?m = "case ps (e_req e) of None \<Rightarrow> Map.empty | Some m \<Rightarrow> m"
    show ?case
    proof (cases "out i")
      case (Inl y)
      then show ?thesis using Cons.prems has_result_opened [of f ps "e_req e"] by (auto simp: Let_def)
    next
      case (Inr v)
      then have f: "fan_out out (Suc i) es (ps(e_req e := Some (?m(e_index e \<mapsto> v)))) = (x, ps1)"
        using Cons.prems by (simp add: Let_def)
      have "has_result (f, ps1) r j" if "has_result (f, ps) r j \<or> (e_req e = r \<and> e_index e = j)" for r j
        using Cons.IH [OF f, of r j] that by (simp only: has_result_update simp_thms)
      moreover have "ps1 r = ps r" if "r \<notin> reqs (e # es)" using Cons.IH [OF f, of r j] that by simp
      ultimately show ?thesis using Cons.IH [OF f] by simp
    qed
  qed simp
  then show "has_result (f, ps) r j \<Longrightarrow> has_result (f, ps1) r j"
    "x = None \<Longrightarrow> e \<in> set g \<Longrightarrow> has_result (f, ps1) (e_req e) (e_index e)" "r \<notin> reqs g \<Longrightarrow> ps1 r = ps r"
    by blast+
qed

lemma fan_out_error: "fst (fan_out out i g ps) = Some x \<Longrightarrow> \<exists>j. i \<le> j \<and> j < i + length g \<and> out j = Inl x"
proof (induction g arbitrary: i ps)
  case (Cons e es)
  show ?case
  proof (cases "out i")
    case (Inl y)
    then show ?thesis using Cons.prems by (intro exI [of _ i]) (simp add: Let_def)
  next
    case (Inr v)
    then obtain j where "Suc i \<le> j" "j < Suc i + length es" "out j = Inl x"
      using Cons.prems Cons.IH by (fastforce simp: Let_def)
    then show ?thesis by (intro exI [of _ j]) simp
  qed
qed simp

lemma dispatch_advances:
  assumes "dispatch_and_fan_out env g s = (r, s1)"
  shows "advances (reqs g) (core s) (core s1)" and "r = None \<Longrightarrow> settles g (core s) (core s1)"
proof -
  have "advances (reqs g) (core s) (core s1) \<and> (r = None \<longrightarrow> decided g (core s1))"
  proof (cases "fst (dispatch env g (world s))")
    case (Inl e)
    then show ?thesis using assms by (auto simp: dispatch_and_fan_out_def split_beta core_def)
  next
    case (Inr out)
    then have f: "fan_out out 0 g (partial_results s) = (r, partial_results s1)" "fut_of s1 = fut_of s"
      using assms by (auto simp: dispatch_and_fan_out_def split_beta)
    show ?thesis
      using fan_out_result(1,2) [OF f(1), where f = "fut_of s"] fan_out_result(3) [OF f(1)] f(2) by (auto simp: core_def advances_def decided_def)
  qed
  then show "advances (reqs g) (core s) (core s1)" "r = None \<Longrightarrow> settles g (core s) (core s1)"
    by (simp_all add: settles_def)
qed

lemma executor_settles:
  fixes env :: "('w, 'i, 'o) exec_env"
  shows "settles g (core s) (core (run env c g s))"
    and "settles g (core s) (core (strategies env c acts pending err g s))"
    and "settles g (core s) (core (retry env c a rest g s))"
    and "settles g (core s) (core (snd (run_split env c g depth s)))"
    and "settles g (core s) (core (isolate env c g err' s))"
proof (induction env c g s and env c acts pending err g s and env c a rest g s and env c g depth s
    and env c g err' s rule: run_strategies_retry_run_split_isolate.induct)
  case (1 env c g s)
  obtain r s1 where d: "dispatch_and_fan_out env g s = (r, s1)" by fastforce
  show ?case
  proof (cases r)
    case None
    with d dispatch_advances(2) [OF d] show ?thesis by (simp add: run.simps [of env])
  next
    case (Some e)
    have "settles g (core s1) (core (run env c g s))"
      using 1 [OF d [symmetric] refl Some] d Some
      by (simp add: run.simps [of env c g s] core_simps settles_fail_group)
    then show ?thesis using dispatch_advances(1) [OF d] by (rule_tac settles_after)
  qed
next
  case (2 env c acts pending err g s)
  show ?case
  proof (cases acts)
    case Nil
    have "settles g (core s) (core (fail_group g e (record_recovery a b (s\<lparr>stats := x\<rparr>))))" for a b x e
      using settles_fail_group [of g "record_recovery a b (s\<lparr>stats := x\<rparr>)" e] by (simp add: core_simps)
    then show ?thesis by (subst strategies.simps) (simp add: Nil)
  next
    case (Cons a rest)
    show ?thesis
    proof (cases a)
      case CACHE_CLEAR
      then show ?thesis
        using 2(1) [OF Cons _ refl refl refl] Cons
        by (subst strategies.simps) (simp add: core_simps Let_def)
    next
      case EVICT_LRU
      let ?s2 = "snd (release_own_optional_memory env (snd (release_sibling_optional_memory env s)))"
      obtain ev s3 where ev: "try_evict_lru env ?s2 = (ev, s3)" by fastforce
      have c3: "core s3 = core s" using core_mitigations(3) [of env ?s2] ev by (simp add: core_simps)
      show ?thesis
        using 2(2,3) [OF Cons EVICT_LRU refl refl ev [symmetric] refl] EVICT_LRU Cons ev c3
        by (subst strategies.simps) (cases ev, simp_all add: core_simps Let_def)
    next
      case SPLIT_BATCH
      then show ?thesis
        using 2(4) [OF Cons _ refl] Cons
        by (subst strategies.simps) (simp add: core_simps Let_def split_beta)
    qed
  qed
next
  case (3 env c a rest g s)
  obtain r s1 where d: "dispatch_and_fan_out env g s = (r, s1)" by fastforce
  show ?case
  proof (cases r)
    case None
    with d dispatch_advances(2) [OF d] show ?thesis by (simp add: retry.simps [of env] core_simps)
  next
    case (Some e)
    have "settles g (core s1) (core (retry env c a rest g s))"
      using 3 [OF d [symmetric] refl Some] d Some
        settles_fail_group [of g "record_recovery (action_value a) ''failed'' s1" e]
      by (simp add: retry.simps [of env c a rest g s] core_simps)
    then show ?thesis using dispatch_advances(1) [OF d] by (rule_tac settles_after)
  qed
next
  case (4 env c g depth s)
  let ?s0 = "if depth = 0 then oom_cache_clear env s else s"
  obtain r s1 where d: "dispatch_and_fan_out env g ?s0 = (r, s1)" by fastforce
  have c0: "core ?s0 = core s" by (simp add: core_simps)
  show ?case
  proof (cases r)
    case None
    with d dispatch_advances(2) [OF d] c0 show ?thesis by (simp add: run_split.simps [of env c g depth s])
  next
    case (Some e)
    have "settles g (core s1) (core (snd (run_split env c g depth s)))"
    proof (cases "\<not> is_invalid_input e \<and> is_oom_error e \<and> \<not> (length g \<le> 1 \<or> max_split_depth c \<le> depth)")
      case False
      then show ?thesis
        using 4(1) [OF d [symmetric] refl Some] d Some
        by (auto simp: run_split.simps [of env c g depth s] Let_def settles_fail_group)
    next
      case True
      let ?mid = "length g div 2"
      obtain l s2 where l: "run_split env c (take ?mid g) (depth + 1) (empty_cuda_cache env s1) = (l, s2)"
        by fastforce
      have "settles (take ?mid g) (core s1) (core s2)"
        using 4(2) [OF d [symmetric] refl Some _ _ _ refl] True l by (simp add: core_simps)
      moreover have "settles (drop ?mid g) (core s2)
          (core (snd (run_split env c (drop ?mid g) (depth + 1) (empty_cuda_cache env s2))))"
        using 4(3) [OF d [symmetric] refl Some _ _ _ refl l [symmetric] refl] True by (simp add: core_simps)
      ultimately have "settles g (core s1)
          (core (snd (run_split env c (drop ?mid g) (depth + 1) (empty_cuda_cache env s2))))"
        by (rule settles_parts) (metis append_take_drop_id set_append)
      then show ?thesis
        using True d Some l by (simp add: run_split.simps [of env c g depth s] Let_def split_beta)
    qed
    then show ?thesis using dispatch_advances(1) [OF d] c0 by (metis settles_after)
  qed
next
  case (5 env c g err s)
  show ?case
  proof (cases "length (request_ids g) \<le> 1")
    case True
    then show ?thesis by (simp add: isolate.simps [of env c g err s] settles_fail_group)
  next
    case False
    have "settles g (core s) (core (run env c (right_part g) (run env c (left_part g) s)))"
      using 5(1) [OF False] 5(2) [OF False] by (rule settles_parts) auto
    with False show ?thesis by (simp add: isolate.simps [of env c g err s])
  qed
qed

section \<open>Isolation of malformed requests\<close>

text \<open>A slice is refused exactly when it holds an item of a malformed request; the output of any other can be cut into its items.\<close>

definition refuses_bad :: "('w, 'i, 'o) exec_env \<Rightarrow> (nat \<Rightarrow> bool) \<Rightarrow> string \<Rightarrow> bool" where
  "refuses_bad env bad m =
     (\<forall>g w. if \<exists>e \<in> set g. bad (e_req e) then fst (dispatch env g w) = Inl (InvalidInputError m)
            else \<exists>out. fst (dispatch env g w) = Inr out \<and> (\<forall>i < length g. \<exists>v. out i = Inr v))"

definition isolated :: "(nat \<Rightarrow> bool) \<Rightarrow> string \<Rightarrow> 'i config_group \<Rightarrow> 'o core \<Rightarrow> bool" where
  "isolated bad m g k =
     (\<forall>e \<in> set g. if bad (e_req e) then fst k (e_req e) = Failed (InvalidInputError m)
                  else fst k (e_req e) = Waiting \<and> has_result k (e_req e) (e_index e))"

abbreviation all_waiting :: "'i config_group \<Rightarrow> 'o core \<Rightarrow> bool" where
  "all_waiting g k \<equiv> \<forall>e \<in> set g. fst k (e_req e) = Waiting"

lemma settles_frame: "settles g k k' \<Longrightarrow> r \<notin> reqs g \<Longrightarrow> fst k' r = fst k r \<and> snd k' r = snd k r"
  by (simp add: settles_def advances_def)

lemma isolated_frame:
  assumes "isolated bad m g k" and "settles g' k k'" and "reqs g \<inter> reqs g' = {}"
  shows "isolated bad m g k'"
proof -
  have "fst k' (e_req e) = fst k (e_req e) \<and> snd k' (e_req e) = snd k (e_req e)" if "e \<in> set g" for e
    using settles_frame [OF assms(2), of "e_req e"] assms(3) that by blast
  then show ?thesis using assms(1) by (auto simp: isolated_def has_result_def)
qed

lemma single_request:
  assumes "length (request_ids g) \<le> 1" and "e \<in> set g" and "e' \<in> set g"
  shows "e_req e = e_req e'"
proof -
  have "card (reqs g) \<le> 1" using assms(1) request_ids_props(3) [of g] by (simp add: distinct_count_def)
  then show ?thesis using assms(2,3) by (metis card_le_Suc0_iff_eq finite_imageI finite_set imageI One_nat_def)
qed

lemma run_refused:
  assumes "refuses_bad env bad m" and "\<exists>e \<in> set g. bad (e_req e)"
  obtains s1 where "core s1 = core s" "run env c g s = isolate env c g (InvalidInputError m) s1"
proof -
  have d: "fst (dispatch env g (world s)) = Inl (InvalidInputError m)"
    using assms unfolding refuses_bad_def by meson
  show thesis
    by (rule that [of "s\<lparr>world := snd (dispatch env g (world s))\<rparr>"])
      (simp_all add: run.simps [of env c g s] dispatch_and_fan_out_def split_beta d core_simps)
qed

lemma run_isolates:
  assumes "refuses_bad env bad m" and "all_waiting g (core s)"
  shows "isolated bad m g (core (run env c g s))"
  using assms(2)
proof (induction "distinct_count g" arbitrary: g s rule: less_induct)
  case less
  show ?case
  proof (cases "\<exists>e \<in> set g. bad (e_req e)")
    case False
    then obtain out where d: "fst (dispatch env g (world s)) = Inr out" "\<forall>i < length g. \<exists>v. out i = Inr v"
      using assms(1) unfolding refuses_bad_def by meson
    obtain x ps where f: "fan_out out 0 g (partial_results s) = (x, ps)" by fastforce
    have "x = None" using fan_out_error [of out 0 g "partial_results s"] d(2) f by (cases x) fastforce+
    with d(1) f have "run env c g s = s\<lparr>world := snd (dispatch env g (world s)), partial_results := ps\<rparr>"
      by (simp add: run.simps [of env c g s] dispatch_and_fan_out_def split_beta)
    with False less.prems \<open>x = None\<close> show ?thesis
      using fan_out_result(2) [OF f, where f = "fut_of s"] by (auto simp: isolated_def core_def)
  next
    case True
    then obtain s1 where s1: "core s1 = core s" "run env c g s = isolate env c g (InvalidInputError m) s1"
      using run_refused [OF assms(1)] by metis
    show ?thesis
    proof (cases "length (request_ids g) \<le> 1")
      case one: True
      have "bad (e_req e)" if "e \<in> set g" for e
        using True single_request [OF one that] by metis
      with one less.prems s1 show ?thesis
        by (auto simp: isolated_def isolate.simps [of env c g] fail_group_fut)
    next
      case False
      let ?l = "run env c (left_part g) s1"
      have L: "isolated bad m (left_part g) (core ?l)"
        using less.prems s1 by (intro less.hyps) (auto simp: distinct_count_parts [OF False])
      have fr: "settles (left_part g) (core s1) (core ?l)" by (rule executor_settles(1))
      have "all_waiting (right_part g) (core ?l)"
      proof
        fix e assume e: "e \<in> set (right_part g)"
        then have "e_req e \<notin> reqs (left_part g)" by auto
        then have "fst (core ?l) (e_req e) = fst (core s1) (e_req e)"
          using settles_frame [OF fr] by blast
        with e less.prems s1 show "fst (core ?l) (e_req e) = Waiting" by simp
      qed
      then have R: "isolated bad m (right_part g) (core (run env c (right_part g) ?l))"
        by (intro less.hyps) (auto simp: distinct_count_parts [OF False])
      have "isolated bad m (left_part g) (core (run env c (right_part g) ?l))"
        by (rule isolated_frame [OF L executor_settles(1)]) auto
      with R have "isolated bad m g (core (run env c (right_part g) ?l))"
        by (auto simp: isolated_def)
      with False s1(2) show ?thesis by (simp add: isolate.simps [of env c g])
    qed
  qed
qed

section \<open>How often a group is dispatched\<close>

text \<open>
  \<open>calls\<close> reads a counter of dispatches off the world; the mitigations leave it alone
  and no slice is refused as malformed.
\<close>

definition counts_dispatches :: "('w, 'i, 'o) exec_env \<Rightarrow> ('w \<Rightarrow> nat) \<Rightarrow> bool" where
  "counts_dispatches env calls =
     ((\<forall>g w. calls (snd (dispatch env g w)) = Suc (calls w)) \<and>
      (\<forall>g w. case fst (dispatch env g w) of
         Inl e \<Rightarrow> \<not> is_invalid_input e | Inr out \<Rightarrow> \<forall>i e. out i = Inl e \<longrightarrow> \<not> is_invalid_input e) \<and>
      (\<forall>w. calls (gc_collect env w) = calls w \<and> calls (empty_cache env w) = calls w) \<and>
      (case own_release env of None \<Rightarrow> True | Some f \<Rightarrow> \<forall>w. calls (snd (f w)) = calls w) \<and>
      (case registry env of
         None \<Rightarrow> True
       | Some r \<Rightarrow> \<forall>w. calls (snd (evict_lru_excluding r w)) = calls w \<and>
                       calls (snd (release_siblings r w)) = calls w))"

lemma counted:
  assumes "counts_dispatches env calls"
  shows "calls (world (snd (dispatch_and_fan_out env g s))) = Suc (calls (world s))"
    and "fst (dispatch_and_fan_out env g s) = Some e \<Longrightarrow> \<not> is_invalid_input e"
proof -
  have "case fst (dispatch env g (world s)) of Inl e \<Rightarrow> \<not> is_invalid_input e
      | Inr out \<Rightarrow> \<forall>i e. out i = Inl e \<longrightarrow> \<not> is_invalid_input e"
    using assms by (simp add: counts_dispatches_def)
  then show "fst (dispatch_and_fan_out env g s) = Some e \<Longrightarrow> \<not> is_invalid_input e"
    using fan_out_error [of _ 0 g "partial_results s" e]
    by (fastforce simp: dispatch_and_fan_out_def split_beta split: sum.splits)
  show "calls (world (snd (dispatch_and_fan_out env g s))) = Suc (calls (world s))"
    using assms by (simp add: counts_dispatches_def dispatch_and_fan_out_def split_beta split: sum.splits)
qed

lemma uncounted:
  assumes "counts_dispatches env calls"
  shows "calls (world (snd (release_own_optional_memory env s))) = calls (world s)"
    and "calls (world (snd (release_sibling_optional_memory env s))) = calls (world s)"
    and "calls (world (snd (try_evict_lru env s))) = calls (world s)"
    and "calls (world (empty_cuda_cache env s)) = calls (world s)"
  using assms
  by (auto simp: counts_dispatches_def release_own_optional_memory_def release_sibling_optional_memory_def
      try_evict_lru_def empty_cuda_cache_def split_beta split: option.splits)

lemma uncounted_clear:
  assumes "counts_dispatches env calls"
  shows "calls (world (oom_cache_clear env s)) = calls (world s)"
  using assms uncounted [OF assms]
  by (simp add: oom_cache_clear_def Let_def) (simp add: counts_dispatches_def)

lemma world_ops [simp]:
  "world (fail_group g e s) = world s" "world (record_recovery a b s) = world s"
  "world (record_pending p s) = world s"
  by (simp_all add: fail_group_def record_recovery_def record_pending_def split: option.splits)

lemma run_split_count:
  assumes "counts_dispatches env calls"
  shows "calls (world (snd (run_split env c g d s))) < calls (world s) + 2 ^ Suc (max_split_depth c - d)"
proof (induction "max_split_depth c - d" arbitrary: d g s)
  case 0
  let ?s0 = "if d = 0 then oom_cache_clear env s else s"
  obtain r s1 where d: "dispatch_and_fan_out env g ?s0 = (r, s1)" by fastforce
  have "calls (world s1) = Suc (calls (world s))" "\<And>e. r = Some e \<Longrightarrow> \<not> is_invalid_input e"
    using counted [OF assms, of g ?s0] d uncounted_clear [OF assms] by auto
  then show ?case
    using d 0 by (auto simp: run_split.simps [of env c g d s] split: option.splits)
next
  case (Suc n)
  let ?s0 = "if d = 0 then oom_cache_clear env s else s" and ?mid = "length g div 2"
  obtain r s1 where d: "dispatch_and_fan_out env g ?s0 = (r, s1)" by fastforce
  have c1: "calls (world s1) = Suc (calls (world s))" and ni: "\<And>e. r = Some e \<Longrightarrow> \<not> is_invalid_input e"
    using counted [OF assms, of g ?s0] d uncounted_clear [OF assms] by auto
  define P :: nat where "P = 2 ^ Suc n"
  have p: "(2::nat) ^ Suc (max_split_depth c - d) = 2 * P" "2 \<le> P"
    using Suc.hyps(2) by (simp_all add: P_def flip: Suc.hyps(2))
  have n: "n = max_split_depth c - Suc d" using Suc.hyps(2) by simp
  obtain l s2 where l: "run_split env c (take ?mid g) (Suc d) (empty_cuda_cache env s1) = (l, s2)"
    by fastforce
  have s2: "calls (world s2) < calls (world s1) + P"
    using Suc.hyps(1) [OF n, of "take ?mid g" "empty_cuda_cache env s1"] l uncounted(4) [OF assms] n by (simp add: P_def)
  have s3: "calls (world (snd (run_split env c (drop ?mid g) (Suc d) (empty_cuda_cache env s2))))
      < calls (world s2) + P"
    using Suc.hyps(1) [OF n, of "drop ?mid g" "empty_cuda_cache env s2"] uncounted(4) [OF assms] n by (simp add: P_def)
  show ?case
    unfolding p(1) using d c1 ni l s2 s3 p(2)
    by (auto simp: run_split.simps [of env c g d s] Let_def split_beta split: option.splits)
qed

lemma retry_count:
  assumes "counts_dispatches env calls"
    and "\<And>pend e s. calls (world (strategies env c rest pend e g s)) < calls (world s) + b"
    and "0 < b"
  shows "calls (world (retry env c a rest g s)) < Suc (calls (world s)) + b"
proof -
  obtain r s1 where d: "dispatch_and_fan_out env g s = (r, s1)" by fastforce
  have "calls (world s1) = Suc (calls (world s))" "\<And>e. r = Some e \<Longrightarrow> \<not> is_invalid_input e"
    using counted [OF assms(1), of g s] d by auto
  then show ?thesis
    using d assms(3) assms(2) [of _ _ s1]
    by (auto simp: retry.simps [of env c a rest g s] split: option.splits)
qed

lemma strategies_count:
  assumes "counts_dispatches env calls"
  shows "calls (world (strategies env c acts pend e g s))
    < calls (world s) + (length acts + 2 ^ Suc (max_split_depth c))"
proof (induction acts arbitrary: pend e s)
  case Nil
  then show ?case by (subst strategies.simps) simp
next
  case (Cons a rest)
  let ?b = "length rest + 2 ^ Suc (max_split_depth c)"
  have r: "calls (world (retry env c a rest g s)) < Suc (calls (world s)) + ?b" for s
    by (rule retry_count [OF assms Cons.IH]) simp
  show ?case
  proof (cases a)
    case CACHE_CLEAR
    let ?s = "add_stat (\<lambda>t. t\<lparr>cache_clears := cache_clears t + 1\<rparr>) (oom_cache_clear env
        (snd (release_sibling_optional_memory env (record_pending pend s))))"
    have "calls (world ?s) = calls (world s)"
      using uncounted [OF assms] uncounted_clear [OF assms] by simp
    with r [of ?s] CACHE_CLEAR show ?thesis by (subst strategies.simps) (simp add: Let_def)
  next
    case EVICT_LRU
    let ?s2 = "snd (release_own_optional_memory env (snd (release_sibling_optional_memory env s)))"
    obtain ev s3 where ev: "try_evict_lru env ?s2 = (ev, s3)" by fastforce
    let ?s = "add_stat (\<lambda>t. t\<lparr>evictions_triggered := evictions_triggered t + 1\<rparr>) (record_pending pend s3)"
    have c3: "calls (world s3) = calls (world s)" "calls (world ?s) = calls (world s)"
      using uncounted [OF assms] uncounted(3) [OF assms, of ?s2] ev by simp_all
    show ?thesis
      using r [of ?s] Cons.IH [of pend e s3] c3 EVICT_LRU ev
      by (subst strategies.simps) (simp add: Let_def)
  next
    case SPLIT_BATCH
    let ?s = "add_stat (\<lambda>t. t\<lparr>batch_splits := batch_splits t + 1\<rparr>) (record_pending pend s)"
    show ?thesis
      using run_split_count [OF assms, of c g 0 ?s] SPLIT_BATCH
      by (subst strategies.simps) (simp add: Let_def split_beta)
  qed
qed

section \<open>Properties\<close>

text \<open>
  The environment of the examples: a slice that does not fit runs out of memory, one with an
  item of a malformed request is refused, any other succeeds. The world counts the dispatches.
\<close>

definition sample_env :: "(nat \<Rightarrow> bool) \<Rightarrow> (nat \<Rightarrow> nat \<Rightarrow> bool) \<Rightarrow> (nat, string, string) exec_env" where
  "sample_env bad fits =
     \<lparr>dispatch = (\<lambda>g w. (if \<not> fits w (length g) then Inl (OtherError ''CUDA out of memory'')
                        else if \<exists>e \<in> set g. bad (e_req e) then Inl (InvalidInputError ''bad item'')
                        else Inr (\<lambda>i. Inr ''ok''), Suc w)),
      registry = None, own_release = None, gc_collect = id, empty_cache = id\<rparr>"

definition sample_entry :: "nat \<Rightarrow> int \<Rightarrow> string entry" where
  "sample_entry r i = \<lparr>e_item = ''item'', e_req = r, e_index = i, e_cost = 1\<rparr>"

definition sample_start :: "(nat, string) exec_state" where
  "sample_start = \<lparr>world = 0, fut_of = (\<lambda>r. Waiting), partial_results = (\<lambda>r. None),
     stats = zero_stats, telemetry = []\<rparr>"

text \<open>
  C20. Whatever the device, the adapter and the registry do, \<open>BatchExecutor.run\<close> returns with
  every item of the group answered: its request has a result for it or its future has been
  decided. Futures already decided keep their value, no result is lost, and requests outside
  the group are not touched.
\<close>

theorem recovery_settles_group: "settles g (core s) (core (run env c g s))"
  by (rule executor_settles(1))

text \<open>
  C32. A malformed request fails alone. When the adapter refuses exactly the slices with an item
  of a malformed request, after \<open>run\<close> each malformed request of the group has failed with the
  adapter's error, and each other request is still waiting for the caller to settle it, with a
  result for every one of its items.
\<close>

theorem malformed_request_isolated:
  assumes "refuses_bad env bad m" and "all_waiting g (core s)"
  shows "isolated bad m g (core (run env c g s))"
  by (rule run_isolates [OF assms])

theorem malformed_request_isolated_witness:
  "isolated (\<lambda>r. r = 0) ''bad item'' [sample_entry 1 0, sample_entry 0 0, sample_entry 1 1]
     (core (run (sample_env (\<lambda>r. r = 0) (\<lambda>w n. True)) default_oom_config
       [sample_entry 1 0, sample_entry 0 0, sample_entry 1 1] sample_start))"
  by (rule malformed_request_isolated) (simp_all add: refuses_bad_def sample_env_def core_def sample_start_def)

text \<open>
  C40. Recovery is bounded work. When no slice is refused as malformed, the group is dispatched
  at most once, plus once per configured strategy, plus the \<open>2 ^ (max_split_depth + 1) - 1\<close>
  slices of the recursive split.
\<close>

theorem recovery_dispatch_bound:
  assumes "counts_dispatches env calls"
  shows "calls (world (run env c g s)) \<le>
    calls (world s) + 1 + length (strategy c) + (2 ^ Suc (max_split_depth c) - 1)"
proof -
  obtain r s1 where d: "dispatch_and_fan_out env g s = (r, s1)" by fastforce
  define P :: nat where "P = 2 ^ Suc (max_split_depth c)"
  let ?s2 = "add_stat (\<lambda>t. t\<lparr>recoveries_attempted := recoveries_attempted t + 1\<rparr>) s1"
  have P: "1 \<le> P" by (simp add: P_def)
  have c1: "calls (world s1) = Suc (calls (world s))" and ni: "\<And>e. r = Some e \<Longrightarrow> \<not> is_invalid_input e"
    using counted [OF assms, of g s] d by auto
  show ?thesis
  proof (cases r)
    case None
    with d c1 P show ?thesis
      unfolding P_def [symmetric] by (simp add: run.simps [of env c g s])
  next
    case (Some e)
    show ?thesis
      unfolding P_def [symmetric]
      using strategies_count [OF assms, of c "strategy c" None e g ?s2, folded P_def] d c1 ni Some P
      by (simp add: run.simps [of env c g s])
  qed
qed

theorem recovery_dispatch_bound_witness:
  "id (world (run (sample_env (\<lambda>r. False) (\<lambda>w n. n \<le> 1)) default_oom_config
     [sample_entry 1 0, sample_entry 2 0, sample_entry 1 1] sample_start)) \<le>
   id (world sample_start) + 1 + length (strategy default_oom_config) +
     (2 ^ Suc (max_split_depth default_oom_config) - 1)"
  by (rule recovery_dispatch_bound) (simp add: counts_dispatches_def sample_env_def)

text \<open>
  A recovery attempt can end without a telemetry outcome. The comment before the strategy
  loop says the bookkeeping guarantees one managed outcome per attempt; when the retry after a
  mitigation is refused as malformed, the handler isolates the requests and returns without
  recording one.
\<close>

theorem retry_without_outcome:
  "let s = run (sample_env (\<lambda>r. r = 0) (\<lambda>w n. 0 < w)) default_oom_config
     [sample_entry 0 0, sample_entry 1 0] sample_start
   in recoveries_attempted (stats s) = 1 \<and> cache_clears (stats s) = 1 \<and> telemetry s = []"
  by code_simp

text \<open>
  The recursive split counts requests per slice: a request whose items straddle the halves
  is counted once in each, so the sums are not numbers of distinct requests.
\<close>

theorem split_counts_straddlers_twice:
  "let g = [sample_entry 1 0, sample_entry 1 1]
   in distinct_count g = 1 \<and>
      fst (run_split (sample_env (\<lambda>r. False) (\<lambda>w n. n \<le> 1)) default_oom_config g 0 sample_start) = (2, 0)"
  by code_simp

end
