(* ===== verification/Text_Scan.thy ===== *)
theory Text_Scan
  imports Py_Text
begin

text \<open>
  Searching a text that arrives in pieces. \<open>py_find\<close> is \<^verbatim>\<open>str.find\<close>, with \<open>None\<close> for -1. The
  lemmas say when a piece of text can be given away while the rest is still to come:
  a prefix is \<open>clean\<close> of a marker when no occurrence of it can start there, whatever
  follows. The stream filters for reasoning blocks and tool calls rest on them.
\<close>

fun py_find :: "string \<Rightarrow> string \<Rightarrow> nat option" where
  "py_find d [] = (if d = [] then Some 0 else None)"
| "py_find d (c # cs) =
     (if py_startswith d (c # cs) then Some 0 else map_option Suc (py_find d cs))"

text \<open>\<open>x\<close> starts with the marker, or the marker starts with \<open>x\<close>.\<close>

definition may_start :: "string \<Rightarrow> string \<Rightarrow> bool" where
  "may_start d x = (take (length d) x = take (length x) d)"

primrec clean :: "string \<Rightarrow> string \<Rightarrow> string \<Rightarrow> bool" where
  "clean d [] t = True"
| "clean d (c # p) t = (\<not> may_start d (c # p @ t) \<and> clean d p t)"

lemma startswith_may_start: "py_startswith d x \<Longrightarrow> may_start d x"
proof -
  assume "py_startswith d x"
  then have "take (length d) x = d" "length d \<le> length x"
    by (simp_all add: py_startswith_def) (metis length_take min.absorb_iff2 min.commute)
  then show ?thesis by (simp add: may_start_def)
qed

lemma startswith_may_start_rev: "py_startswith x d \<Longrightarrow> may_start d x"
proof -
  assume "py_startswith x d"
  then have x: "take (length x) d = x" by (simp add: py_startswith_def)
  then have "length x \<le> length d" by (metis length_take min.cobounded1)
  with x show ?thesis by (simp add: may_start_def)
qed

lemma may_start_long: "length d \<le> length x \<Longrightarrow> may_start d x = py_startswith d x"
  by (simp add: may_start_def py_startswith_def)

lemma may_start_prefix: "may_start d (x @ b) \<Longrightarrow> may_start d x"
proof -
  assume "may_start d (x @ b)"
  then have "take (length x) (take (length d) (x @ b)) = take (length x) (take (length (x @ b)) d)"
    by (simp add: may_start_def)
  then show ?thesis by (simp add: may_start_def take_take min_def split: if_splits)
qed

lemma clean_extend: "clean d p t \<Longrightarrow> clean d p (t @ b)"
  by (induction p) (auto dest: may_start_prefix [of d "_ # _ @ t" b, simplified])

lemma clean_append: "clean d (p @ q) t \<longleftrightarrow> clean d p (q @ t) \<and> clean d q t"
  by (induction p) auto

lemma clean_drop: "clean d p t \<longleftrightarrow> (\<forall>j < length p. \<not> may_start d (drop j (p @ t)))"
proof (induction p)
  case (Cons c p)
  then show ?case by (simp add: All_less_Suc2)
qed simp

section \<open>The first occurrence\<close>

lemma py_find_Some:
  "py_find d s = Some k \<Longrightarrow> s = take k s @ d @ drop (k + length d) s \<and> k + length d \<le> length s"
proof (induction d s arbitrary: k rule: py_find.induct)
  case (2 d c cs)
  show ?case
  proof (cases "py_startswith d (c # cs)")
    case True
    then have "take (length d) (c # cs) = d" by (simp add: py_startswith_def)
    then have "c # cs = d @ drop (length d) (c # cs)" "length d \<le> length (c # cs)"
      by (metis append_take_drop_id) (metis \<open>take (length d) (c # cs) = d\<close> length_take min.cobounded1)
    then show ?thesis using 2(2) True by simp
  next
    case False
    then obtain j where j: "py_find d cs = Some j" "k = Suc j" using 2(2) by auto
    then show ?thesis using 2(1) [OF False j(1)] by simp
  qed
qed (simp split: if_splits)

lemma py_find_at: "py_find d s = Some k \<Longrightarrow> py_startswith d (drop k s)"
  by (induction d s arbitrary: k rule: py_find.induct) (auto simp: py_startswith_def split: if_splits)

lemma py_find_None: "d \<noteq> [] \<Longrightarrow> py_find d s = None \<longleftrightarrow> (\<forall>j < length s. \<not> py_startswith d (drop j s))"
  by (induction d s rule: py_find.induct) (auto simp: All_less_Suc2)

lemma py_find_0: "py_startswith d s \<Longrightarrow> py_find d s = Some 0"
  by (cases s) (auto simp: py_startswith_def)

lemma startswith_append: "py_startswith d s \<Longrightarrow> py_startswith d (s @ b)"
proof -
  assume "py_startswith d s"
  then have "take (length d) s = d" "length d \<le> length s"
    by (simp_all add: py_startswith_def) (metis length_take min.absorb_iff2 min.commute)
  then show ?thesis by (simp add: py_startswith_def)
qed

lemma startswith_shorter: "py_startswith d (s @ b) \<Longrightarrow> length d \<le> length s \<Longrightarrow> py_startswith d s"
  by (simp add: py_startswith_def)

lemma py_find_append: "py_find d s = Some k \<Longrightarrow> py_find d (s @ b) = Some k"
proof (induction d s arbitrary: k rule: py_find.induct)
  case (1 d)
  then show ?case by (auto simp: py_startswith_def intro: py_find_0 split: if_splits)
next
  case (2 d c cs)
  show ?case
  proof (cases "py_startswith d (c # cs)")
    case True
    then show ?thesis using 2(2) startswith_append [OF True, of b] by simp
  next
    case False
    then obtain j where j: "py_find d cs = Some j" "k = Suc j" using 2(2) by auto
    have "length d \<le> length (c # cs)" using py_find_Some [OF j(1)] by simp
    then have "\<not> py_startswith d ((c # cs) @ b)" using False startswith_shorter by blast
    then show ?thesis using 2(1) [OF False j(1)] j(2) by simp
  qed
qed

lemma py_find_clean: "clean d p t \<Longrightarrow> py_find d (p @ t) = map_option ((+) (length p)) (py_find d t)"
proof (induction p)
  case Nil
  then show ?case by (cases "py_find d t") auto
next
  case (Cons c p)
  then have "\<not> py_startswith d (c # p @ t)" using startswith_may_start by auto
  with Cons show ?case by (cases "py_find d t") auto
qed

lemma py_find_clean_None: "clean d p t \<Longrightarrow> py_find d t = None \<Longrightarrow> py_find d (p @ t) = None"
  by (simp add: py_find_clean)

section \<open>What may be given away\<close>

text \<open>Keeping back one character less than the marker.\<close>

lemma clean_keep:
  assumes "py_find d s = None" and "d \<noteq> []"
  shows "clean d (take (length s - (length d - 1)) s) (drop (length s - (length d - 1)) s)"
proof -
  have "\<not> may_start d (drop j s)" if "j < length s - (length d - 1)" for j
    using assms that py_find_None [OF assms(2), of s] may_start_long [of d "drop j s"] by simp
  then show ?thesis by (simp add: clean_drop)
qed

text \<open>The prefix before the first occurrence.\<close>

lemma py_find_before:
  assumes "py_find d s = Some k" and "j < k"
  shows "\<not> py_startswith d (drop j s)"
  using assms
proof (induction d s arbitrary: j k rule: py_find.induct)
  case (2 d c cs)
  then show ?case by (cases j) (auto split: if_splits)
qed (simp split: if_splits)

section \<open>Two markers\<close>

lemma contains_occurrence:
  assumes "py_startswith d (drop j e)" and "j \<le> length e"
  shows "py_contains d e"
  using assms
proof (induction e arbitrary: j)
  case (Cons c e)
  then show ?case by (cases j) auto
qed (auto simp: py_startswith_def)

text \<open>An occurrence that straddles the end of \<open>s\<close> cannot start before a whole one.\<close>

lemma straddle_after:
  assumes "py_find a s = Some i" and "py_find b s = None" and "py_find b (s @ t) = Some j"
    and "\<not> py_contains a b" and "b \<noteq> []"
  shows "i < j"
proof (rule ccontr)
  assume "\<not> i < j"
  then have le: "j \<le> i" by simp
  have A: "take (length a) (drop i s) = a" "i + length a \<le> length s"
    using py_find_at [OF assms(1)] py_find_Some [OF assms(1)] by (simp_all add: py_startswith_def)
  have B: "take (length b) (drop j (s @ t)) = b"
    using py_find_at [OF assms(3)] by (simp add: py_startswith_def)
  show False
  proof (cases "j + length b \<le> length s")
    case True
    then have "py_startswith b (drop j s)" using B by (simp add: py_startswith_def)
    moreover have "0 < length b" using assms(5) by simp
    then have "j < length s" using True by linarith
    ultimately show False using assms(2,5) py_find_None by blast
  next
    case False
    have "drop (i - j) b = take (length b - (i - j)) (drop i (s @ t))"
      using B le by (metis drop_drop drop_take le_add_diff_inverse2)
    then have "take (length a) (drop (i - j) b) = a"
      using A le False by (simp add: take_take min_def)
    then have "py_contains a b"
      using le A False by (intro contains_occurrence [of a "i - j"]) (auto simp: py_startswith_def)
    then show False using assms(4) by blast
  qed
qed

lemma contains_find: "py_contains d s \<longleftrightarrow> py_find d s \<noteq> None"
  by (induction d s rule: py_find.induct) auto

lemma take_drop_append [simp]: "take n s @ drop n s @ b = s @ b"
  by (metis append_assoc append_take_drop_id)

text \<open>
  The markers all start with \<^verbatim>\<open><\<close> and have no other: none of them can start before
  another and run into it.
\<close>

definition is_marker :: "string \<Rightarrow> bool" where
  "is_marker d = (d \<noteq> [] \<and> hd d = CHR ''<'' \<and> CHR ''<'' \<notin> set (tl d))"

lemma clean_before_marker:
  assumes "is_marker d" and "is_marker e" and "\<not> py_contains d p"
  shows "clean d p (e @ t)"
proof -
  have "\<not> may_start d (drop j (p @ e @ t))" if j: "j < length p" for j
  proof
    let ?x = "drop j p @ e @ t" and ?q = "length p - j"
    assume "may_start d (drop j (p @ e @ t))"
    then have ms: "may_start d ?x" using j by simp
    show False
    proof (cases "length d \<le> ?q")
      case True
      then have "py_startswith d (drop j p)" using ms by (simp add: may_start_def py_startswith_def)
      then show False using assms(3) contains_occurrence [of d j p] j by simp
    next
      case False
      have q: "?q < length ?x" "?q < length d" "0 < ?q"
        using False j assms(2) by (cases e; simp add: is_marker_def)+
      have "take (length d) ?x ! ?q = take (length ?x) d ! ?q" using ms by (simp add: may_start_def)
      then have "?x ! ?q = d ! ?q" using q by (simp only: nth_take)
      moreover have "?x ! ?q = (e @ t) ! 0" using nth_append_length_plus [of "drop j p" "e @ t" 0] by simp
      then have "?x ! ?q = hd e" using assms(2) by (cases e) (simp_all add: is_marker_def)
      moreover have "d ! ?q \<in> set (tl d)" using q by (cases d) (auto simp: nth_Cons')
      ultimately show False using assms(1,2) by (simp add: is_marker_def)
    qed
  qed
  then show ?thesis by (simp add: clean_drop)
qed

end
