(* ===== verification/Generation_Chunk.thy ===== *)
theory Generation_Chunk
  imports Text_Scan
begin

text \<open>
  The data of a generation stream, from \<^verbatim>\<open>adapters/_generation_base.py\<close>: values as JSON and msgpack carry them,
  tool-call deltas and the chunks a generation adapter yields. A chunk is built from
  \<open>chunk0\<close>, the defaults of the dataclass, by record update.
\<close>

datatype pyval =
    PNone
  | PBool bool
  | PInt int
  | PFloat py_float
  | PStr string
  | PBytes string
  | PList "pyval list"
  | PDict "(string \<times> pyval) list"

type_synonym pydict = "(string, pyval) odict"

datatype finish_reason = FR_stop | FR_length | FR_cancelled | FR_error | FR_tool_calls

record tool_call_delta =
  call_index :: nat
  call_id :: "string option"
  function_name :: "string option"
  arguments_delta :: string

record upstream_token_usage =
  up_prompt_tokens :: int
  up_completion_tokens :: int
  up_cached_tokens :: "int option"

record generation_chunk =
  text_delta :: string
  is_done :: bool
  is_first :: bool
  finish_reason :: "finish_reason option"
  prompt_tokens :: "int option"
  completion_tokens :: "int option"
  cached_tokens :: "int option"
  image_tokens :: "int option"
  tool_call_delta :: "tool_call_delta option"
  error_code :: "string option"
  error_message :: "string option"
  logprobs :: "pyval list option"
  candidates :: "pydict list option"
  choice_index :: int
  upstream_usage :: "upstream_token_usage option"
  reasoning_delta :: string
  upstream_reason :: "string option"

definition chunk0 :: generation_chunk where
  "chunk0 =
     \<lparr>text_delta = [], is_done = False, is_first = False, finish_reason = None, prompt_tokens = None,
      completion_tokens = None, cached_tokens = None, image_tokens = None, tool_call_delta = None,
      error_code = None, error_message = None, logprobs = None, candidates = None, choice_index = 0,
      upstream_usage = None, reasoning_delta = [], upstream_reason = None\<rparr>"

lemma chunk0_fields [simp]:
  "text_delta chunk0 = []" "is_done chunk0 = False" "is_first chunk0 = False"
  "finish_reason chunk0 = None" "tool_call_delta chunk0 = None" "error_code chunk0 = None"
  "choice_index chunk0 = 0" "reasoning_delta chunk0 = []" "logprobs chunk0 = None" "candidates chunk0 = None"
  by (simp_all add: chunk0_def)

text \<open>The text and the tool-call deltas of a list of chunks, then the text and the reasoning of one choice.\<close>

definition stream_text :: "generation_chunk list \<Rightarrow> string" where
  "stream_text cs = concat (map text_delta cs)"

definition stream_calls :: "generation_chunk list \<Rightarrow> tool_call_delta list" where
  "stream_calls cs = List.map_filter tool_call_delta cs"

definition choice_text :: "int \<Rightarrow> generation_chunk list \<Rightarrow> string" where
  "choice_text i cs = concat (map text_delta (filter (\<lambda>c. choice_index c = i) cs))"

definition choice_reasoning :: "int \<Rightarrow> generation_chunk list \<Rightarrow> string" where
  "choice_reasoning i cs = concat (map reasoning_delta (filter (\<lambda>c. choice_index c = i) cs))"

lemma choice_text_simps [simp]:
  "choice_text i [] = []"
  "choice_text i (c # cs) = (if choice_index c = i then text_delta c else []) @ choice_text i cs"
  "choice_text i (cs @ ds) = choice_text i cs @ choice_text i ds"
  by (simp_all add: choice_text_def)

lemma choice_reasoning_simps [simp]:
  "choice_reasoning i [] = []"
  "choice_reasoning i (c # cs) = (if choice_index c = i then reasoning_delta c else []) @ choice_reasoning i cs"
  "choice_reasoning i (cs @ ds) = choice_reasoning i cs @ choice_reasoning i ds"
  by (simp_all add: choice_reasoning_def)

end
