(* ===== verification/Tool_Schema.thy ===== *)
theory Tool_Schema
  imports Generation_Chunk
begin

text \<open>
  Typed arguments of XML tool calls: the schema half of
  \<^verbatim>\<open>processors/tool_call_parser.py\<close>. A parameter's JSON schema is reduced to one conversion
  type, following local references, and the text of the argument is converted by it.
  Python's \<^verbatim>\<open>json\<close>, \<^verbatim>\<open>ast\<close> and \<^verbatim>\<open>uuid\<close> modules are the record \<open>py_lib\<close>.

  Shown: type inference terminates on every schema, cyclic ones included, because the depth
  is bounded; a converted value has its declared type or is the unchanged text; integers
  and strings survive the round trip through text.
\<close>

section \<open>Python values\<close>

text \<open>
  Where an identifier is drawn: for a call of a streamed choice, or for a call of a candidate at a position. \<open>uuid_hex\<close> is
  what the draw at each place came to in the run at hand; no two places need agree, and no place draws twice.
\<close>

datatype id_site = Stream_call int nat | Candidate_call nat nat

record py_lib =
  json_loads :: "string \<Rightarrow> string + pyval"
  json_loads_finite :: "string \<Rightarrow> pyval option"
  literal_eval :: "string \<Rightarrow> pyval option"
  json_dumps :: "pyval \<Rightarrow> string + string"
  json_dumps_finite :: "pyval \<Rightarrow> string option"
  utf8_size :: "string \<Rightarrow> nat"
  str_of :: "pyval \<Rightarrow> string"
  uuid_hex :: "id_site \<Rightarrow> string"

primrec truthy :: "pyval \<Rightarrow> bool" where
  "truthy PNone = False"
| "truthy (PBool b) = b"
| "truthy (PInt i) = (i \<noteq> 0)"
| "truthy (PFloat x) = (x \<noteq> Finite 0)"
| "truthy (PStr s) = (s \<noteq> [])"
| "truthy (PBytes b) = (b \<noteq> [])"
| "truthy (PList xs) = (xs \<noteq> [])"
| "truthy (PDict d) = (d \<noteq> [])"

definition py_get :: "pydict \<Rightarrow> string \<Rightarrow> pyval" where
  "py_get d k = (case map_of d k of None \<Rightarrow> PNone | Some v \<Rightarrow> v)"

definition py_str :: "py_lib \<Rightarrow> pyval \<Rightarrow> string" where
  "py_str lib v = (case v of PStr s \<Rightarrow> s | _ \<Rightarrow> str_of lib v)"

text \<open>\<^verbatim>\<open>s.replace(old, new)\<close> for a two-character \<^verbatim>\<open>old\<close> and a one-character \<^verbatim>\<open>new\<close>.\<close>

fun replace_pair :: "char \<Rightarrow> char \<Rightarrow> char \<Rightarrow> string \<Rightarrow> string" where
  "replace_pair a b c (x # y # s) =
     (if x = a \<and> y = b then c # replace_pair a b c s else x # replace_pair a b c (y # s))"
| "replace_pair a b c s = s"

section \<open>Declared tools\<close>

definition declare_tool :: "(string, pydict) odict \<Rightarrow> pyval \<Rightarrow> (string, pydict) odict" where
  "declare_tool schemas tool =
     (case tool of
        PDict t \<Rightarrow>
          (case py_get t ''function'' of
             PDict f \<Rightarrow>
               (case py_get f ''name'' of
                  PStr n \<Rightarrow>
                    if n = [] then schemas
                    else od_set n (case py_get f ''parameters'' of PDict p \<Rightarrow> p | _ \<Rightarrow> []) schemas
                | _ \<Rightarrow> schemas)
           | _ \<Rightarrow> schemas)
      | _ \<Rightarrow> schemas)"

definition tool_parameter_schemas :: "pyval list option \<Rightarrow> (string, pydict) odict" where
  "tool_parameter_schemas tools =
     foldl declare_tool [] (case tools of None \<Rightarrow> [] | Some ts \<Rightarrow> ts)"

definition parameter_schema :: "(string, pydict) odict \<Rightarrow> string \<Rightarrow> string \<Rightarrow> pyval \<times> pydict" where
  "parameter_schema schemas name key =
     (case map_of schemas name of
        None \<Rightarrow> (PNone, [])
      | Some rdoc \<Rightarrow>
          (case py_get rdoc ''properties'' of PDict ps \<Rightarrow> (py_get ps key, rdoc) | _ \<Rightarrow> (PNone, rdoc)))"

section \<open>Schema types\<close>

definition max_schema_depth :: nat where
  "max_schema_depth = 32"

primrec walk_pointer :: "string list \<Rightarrow> pyval \<Rightarrow> pyval option" where
  "walk_pointer [] node = Some node"
| "walk_pointer (p # ps) node =
     (let part = replace_pair CHR ''~'' CHR ''0'' CHR ''~'' (replace_pair CHR ''~'' CHR ''1'' CHR ''/'' p)
      in case node of
           PDict d \<Rightarrow> (case map_of d part of None \<Rightarrow> None | Some v \<Rightarrow> walk_pointer ps v)
         | _ \<Rightarrow> None)"

primrec resolve_loop :: "nat \<Rightarrow> pyval \<Rightarrow> pydict \<Rightarrow> pyval" where
  "resolve_loop 0 schema rdoc = PNone"
| "resolve_loop (Suc n) schema rdoc =
     (case schema of
        PDict d \<Rightarrow>
          (case py_get d ''$ref'' of
             PStr ref \<Rightarrow>
               if ref = ''#'' then resolve_loop n (PDict rdoc) rdoc
               else if \<not> py_startswith ''#/'' ref then PNone
               else (case walk_pointer (py_split CHR ''/'' (drop 2 ref)) (PDict rdoc) of
                       None \<Rightarrow> PNone
                     | Some node \<Rightarrow> resolve_loop n node rdoc)
           | _ \<Rightarrow> schema)
      | _ \<Rightarrow> schema)"

definition resolve_ref :: "pyval \<Rightarrow> pydict \<Rightarrow> pyval" where
  "resolve_ref schema rdoc = resolve_loop max_schema_depth schema rdoc"

definition value_kind :: "pyval \<Rightarrow> string option" where
  "value_kind v =
     (case v of
        PNone \<Rightarrow> Some ''null'' | PBool b \<Rightarrow> Some ''boolean'' | PInt i \<Rightarrow> Some ''integer'' | PFloat x \<Rightarrow> Some ''number''
      | PStr s \<Rightarrow> Some ''string'' | PBytes b \<Rightarrow> None | PList xs \<Rightarrow> Some ''array'' | PDict d \<Rightarrow> Some ''object'')"

definition enum_type :: "pyval list \<Rightarrow> string" where
  "enum_type vs = (let kinds = remdups (List.map_filter value_kind vs) in if length kinds = 1 then hd kinds else ''string'')"

text \<open>The choice among the types of the variants of an \<^verbatim>\<open>anyOf\<close>.\<close>

definition variants_type :: "string list \<Rightarrow> string" where
  "variants_type kinds =
     (let ds = remdups kinds
      in if length ds = 1 then hd kinds
         else if length ds = 2 \<and> ''null'' \<in> set ds then hd (filter (\<lambda>k. k \<noteq> ''null'') kinds)
         else if ''string'' \<in> set ds then ''string'' else hd kinds)"

definition known_kinds :: "string option list \<Rightarrow> string list" where
  "known_kinds ks = filter (\<lambda>k. k \<noteq> []) (List.map_filter id ks)"

function schema_type :: "py_lib \<Rightarrow> pyval \<Rightarrow> pydict \<Rightarrow> nat \<Rightarrow> string option" where
  "schema_type lib schema0 rdoc depth =
     (case resolve_ref schema0 rdoc of
        PDict schema \<Rightarrow>
          if max_schema_depth < depth then None
          else
            let rest =
              (let after_enum =
                 (case py_get schema ''allOf'' of
                    PList vs \<Rightarrow>
                      Some (case find (\<lambda>k. k \<noteq> [] \<and> k \<noteq> ''string'')
                              (known_kinds (map (\<lambda>v. schema_type lib v rdoc (Suc depth)) vs)) of
                              Some k \<Rightarrow> k | None \<Rightarrow> ''string'')
                  | _ \<Rightarrow>
                      if od_mem ''properties'' schema then Some ''object''
                      else if od_mem ''items'' schema then Some ''array'' else None)
               in case py_get schema ''enum'' of
                    PList vs \<Rightarrow> Some (if vs \<noteq> [] then enum_type vs else ''string'')
                  | _ \<Rightarrow> after_enum);
                variants = (if truthy (py_get schema ''anyOf'') then py_get schema ''anyOf''
                            else py_get schema ''oneOf'')
            in case py_get schema ''type'' of
                 PStr t \<Rightarrow> Some (py_lower (py_strip t))
               | PList (t # ts) \<Rightarrow>
                   (let non_null = map (py_str lib) (filter (\<lambda>k. k \<noteq> PStr ''null'') (t # ts))
                    in Some (if non_null \<noteq> [] then py_lower (py_strip (hd non_null)) else ''string''))
               | _ \<Rightarrow>
                   (case variants of
                      PList vs \<Rightarrow>
                        (let kinds = known_kinds (map (\<lambda>v. schema_type lib v rdoc (Suc depth)) vs)
                         in if kinds \<noteq> [] then Some (variants_type kinds) else rest)
                    | _ \<Rightarrow> rest)
      | _ \<Rightarrow> None)"
  by pat_completeness auto
termination
  by (relation "measure (\<lambda>(lib, s, r, d). Suc max_schema_depth - d)") auto

declare schema_type.simps [simp del]

function schema_allows_null :: "pyval \<Rightarrow> pydict \<Rightarrow> nat \<Rightarrow> bool" where
  "schema_allows_null schema0 rdoc depth =
     (case resolve_ref schema0 rdoc of
        PDict schema \<Rightarrow>
          if max_schema_depth < depth then False
          else
            let declared = py_get schema ''type'' in
            if py_get schema ''nullable'' = PBool True \<or> declared = PStr ''null'' \<or>
               (case declared of PList ts \<Rightarrow> PStr ''null'' \<in> set ts | _ \<Rightarrow> False) then True
            else if (case py_get schema ''enum'' of PList vs \<Rightarrow> PNone \<in> set vs | _ \<Rightarrow> False) then True
            else
              (case py_get schema ''anyOf'' of
                 PList vs \<Rightarrow> \<exists>v \<in> set vs. schema_allows_null v rdoc (Suc depth) | _ \<Rightarrow> False) \<or>
              (case py_get schema ''oneOf'' of
                 PList vs \<Rightarrow> \<exists>v \<in> set vs. schema_allows_null v rdoc (Suc depth) | _ \<Rightarrow> False)
      | _ \<Rightarrow> False)"
  by pat_completeness auto
termination
  by (relation "measure (\<lambda>(s, r, d). Suc max_schema_depth - d)") auto

declare schema_allows_null.simps [simp del]

section \<open>Converting an argument\<close>

definition string_types :: "string list" where
  "string_types = [''string'', ''str'', ''text'', ''varchar'', ''char'', ''enum'']"

definition integer_type_prefixes :: "string list" where
  "integer_type_prefixes = [''int'', ''uint'', ''long'', ''short'', ''unsigned'']"

definition number_type_prefixes :: "string list" where
  "number_type_prefixes = [''num'', ''float'']"

definition container_types :: "string list" where
  "container_types = [''object'', ''array'', ''arr'']"

definition container_type_prefixes :: "string list" where
  "container_type_prefixes = [''dict'', ''list'']"

definition has_prefix :: "string list \<Rightarrow> string \<Rightarrow> bool" where
  "has_prefix ps s = list_ex (\<lambda>p. py_startswith p s) ps"

definition convert_number :: "string \<Rightarrow> string \<Rightarrow> pyval" where
  "convert_number raw txt =
     (let as_float = (case py_read_float txt of Some (Finite x) \<Rightarrow> PFloat (Finite x) | _ \<Rightarrow> PStr raw)
      in if CHR ''.'' \<notin> set txt \<and> CHR ''e'' \<notin> set (py_lower txt)
         then (case py_read_int txt of Some n \<Rightarrow> PInt n | None \<Rightarrow> as_float)
         else as_float)"

definition convert_json :: "py_lib \<Rightarrow> string \<Rightarrow> string \<Rightarrow> string \<Rightarrow> pyval" where
  "convert_json lib kind raw txt =
     (case json_loads_finite lib txt of
        Some v \<Rightarrow> v
      | None \<Rightarrow>
          if kind \<in> set container_types \<or> has_prefix container_type_prefixes kind
          then (case literal_eval lib txt of
                  Some (PDict d) \<Rightarrow> if json_dumps_finite lib (PDict d) \<noteq> None then PDict d else PStr raw
                | Some (PList xs) \<Rightarrow> if json_dumps_finite lib (PList xs) \<noteq> None then PList xs else PStr raw
                | _ \<Rightarrow> PStr raw)
          else PStr raw)"

definition declared_kind :: "py_lib \<Rightarrow> pyval \<Rightarrow> pydict \<Rightarrow> string" where
  "declared_kind lib schema rdoc =
     (case schema_type lib schema rdoc 0 of Some k \<Rightarrow> if k \<noteq> [] then k else ''string'' | None \<Rightarrow> ''string'')"

definition convert_argument :: "py_lib \<Rightarrow> string \<Rightarrow> pyval \<Rightarrow> pydict \<Rightarrow> pyval" where
  "convert_argument lib raw schema rdoc =
     (if schema = PNone then PStr raw
      else
        let kind = declared_kind lib schema rdoc; txt = py_strip raw in
        if py_lower txt = ''null'' \<and> (kind \<notin> set string_types \<or> schema_allows_null schema rdoc 0) then PNone
        else if kind \<in> set string_types then PStr raw
        else if has_prefix integer_type_prefixes kind
          then (case py_read_int txt of Some n \<Rightarrow> PInt n | None \<Rightarrow> PStr raw)
        else if has_prefix number_type_prefixes kind then convert_number raw txt
        else if kind \<in> {''boolean'', ''bool'', ''binary''}
          then (if py_lower txt \<in> {''true'', ''false''} then PBool (py_lower txt = ''true'') else PStr raw)
        else convert_json lib kind raw txt)"

section \<open>Conversion respects the declared type\<close>

text \<open>The values a declared type admits; a type the parser does not know admits any.\<close>

definition fits_kind :: "string \<Rightarrow> pyval \<Rightarrow> bool" where
  "fits_kind kind v =
     (if kind \<in> set string_types then \<exists>s. v = PStr s
      else if has_prefix integer_type_prefixes kind then \<exists>n. v = PInt n
      else if has_prefix number_type_prefixes kind then (\<exists>n. v = PInt n) \<or> (\<exists>x. v = PFloat (Finite x))
      else if kind \<in> {''boolean'', ''bool'', ''binary''} then \<exists>b. v = PBool b
      else True)"

lemma convert_number_cases:
  "convert_number raw txt = PStr raw \<or> (\<exists>n. convert_number raw txt = PInt n) \<or>
   (\<exists>x. convert_number raw txt = PFloat (Finite x))"
  by (auto simp: convert_number_def Let_def split: option.splits py_float.splits)

definition show_int :: "int \<Rightarrow> string" where
  "show_int n = (if n < 0 then CHR ''-'' # show_nat (nat (- n)) else show_nat (nat n))"

definition show_bool :: "bool \<Rightarrow> string" where
  "show_bool b = (if b then ''true'' else ''false'')"

lemma show_int_strip [simp]: "py_strip (show_int n) = show_int n"
proof (cases "n < 0")
  case True
  have "\<not> is_space (last (show_nat m))" for m using show_nat_props(2) [of m] by (simp add: last_in_set)
  with True show ?thesis by (intro py_strip_id) (simp_all add: show_int_def is_space_def char_code_def)
next
  case False
  then show ?thesis by (simp add: show_int_def)
qed

lemma py_read_int_show_int [simp]: "py_read_int (show_int n) = Some n"
proof (cases "n < 0")
  case True
  let ?d = "show_nat (nat (- n))"
  have "py_strip (CHR ''-'' # ?d) = CHR ''-'' # ?d" using show_int_strip [of n] True by (simp add: show_int_def)
  moreover have "digit_part ?d = (map digit_val ?d, [])" using digit_part_show_nat [of "[]" "nat (- n)"] by simp
  ultimately show ?thesis
    using True by (simp add: show_int_def py_read_int_def read_sign_def digits_value_show)
next
  case False
  then show ?thesis by (simp add: show_int_def py_read_int_show)
qed

lemma show_int_chars: "c \<in> set (show_int n) \<Longrightarrow> c = CHR ''-'' \<or> is_digit c"
  using show_nat_props(1) by (auto simp: show_int_def split: if_splits)

lemma show_int_lower: "c \<in> set (py_lower (show_int n)) \<Longrightarrow> c = CHR ''-'' \<or> is_digit c"
  using show_int_chars by (fastforce simp: py_lower_def lower_char_def is_digit_def char_code_def)

lemma show_int_not_null: "py_lower (show_int n) \<noteq> ''null''"
proof
  assume "py_lower (show_int n) = ''null''"
  then have "CHR ''n'' \<in> set (py_lower (show_int n))" by simp
  from show_int_lower [OF this] show False by (simp add: is_digit_def char_code_def)
qed

lemma convert_number_show: "convert_number raw (show_int n) = PInt n"
proof -
  have "CHR ''.'' \<notin> set (show_int n)" "CHR ''e'' \<notin> set (py_lower (show_int n))"
    using show_int_chars [of "CHR ''.''" n] show_int_lower [of "CHR ''e''" n] by (auto simp: is_digit_def char_code_def)
  then show ?thesis by (simp add: convert_number_def)
qed

lemma show_bool_simps:
  "py_lower (py_strip (show_bool b)) = show_bool b" "show_bool b \<noteq> ''null''" "(show_bool b = ''true'') = b"
  "(show_bool b = ''false'') = (\<not> b)"
proof -
  have "py_lower (py_strip ''true'') = ''true''" "py_lower (py_strip ''false'') = ''false''" by code_simp+
  then show "py_lower (py_strip (show_bool b)) = show_bool b" by (simp add: show_bool_def)
qed (simp_all add: show_bool_def)

section \<open>Properties\<close>

text \<open>
  An argument is converted to its declared type or left as it was: the result of
  \<open>_convert_argument\<close> is a value of the declared type, the unchanged text, or null when the
  text says so and the type is not a string type without null. Undeclared parameters keep
  their text.
\<close>

theorem converted_value_typed:
  "let v = convert_argument lib raw schema rdoc; kind = declared_kind lib schema rdoc
   in if schema = PNone then v = PStr raw
      else fits_kind kind v \<or> v = PStr raw \<or>
        (v = PNone \<and> py_lower (py_strip raw) = ''null'' \<and>
         (kind \<in> set string_types \<longrightarrow> schema_allows_null schema rdoc 0))"
  using convert_number_cases [of raw "py_strip raw"]
  by (auto simp: convert_argument_def fits_kind_def Let_def split: option.splits)

text \<open>
  Arguments survive the trip through text: an integer printed for an integer or number
  parameter, a boolean for a boolean parameter and any text but \<open>null\<close> for a string parameter
  are read back as the same value.
\<close>

theorem argument_roundtrip:
  assumes "schema \<noteq> PNone" and "kind = declared_kind lib schema rdoc"
  shows "(kind \<notin> set string_types \<and> has_prefix integer_type_prefixes kind \<longrightarrow>
      convert_argument lib (show_int n) schema rdoc = PInt n) \<and>
    (kind \<notin> set string_types \<and> \<not> has_prefix integer_type_prefixes kind \<and> has_prefix number_type_prefixes kind \<longrightarrow>
      convert_argument lib (show_int n) schema rdoc = PInt n) \<and>
    (kind \<in> {''boolean'', ''bool'', ''binary''} \<longrightarrow> convert_argument lib (show_bool b) schema rdoc = PBool b) \<and>
    (kind \<in> set string_types \<and> py_lower (py_strip raw) \<noteq> ''null'' \<longrightarrow>
      convert_argument lib raw schema rdoc = PStr raw)"
proof -
  have bool: "kind \<notin> set string_types \<and> \<not> has_prefix integer_type_prefixes kind \<and> \<not> has_prefix number_type_prefixes kind"
    if "kind \<in> {''boolean'', ''bool'', ''binary''}"
    using that by (elim insertE emptyE) (hypsubst, code_simp)+
  show ?thesis
    using assms bool show_bool_simps(1,2) [of b]
    by (simp add: show_bool_simps(3,4) convert_argument_def show_int_not_null convert_number_show Let_def)
qed

definition demo_lib :: py_lib where
  "demo_lib = \<lparr>json_loads = (\<lambda>t. Inl ''no JSON''), json_loads_finite = (\<lambda>t. None), literal_eval = (\<lambda>t. None),
     json_dumps = (\<lambda>v. Inr ''{}''), json_dumps_finite = (\<lambda>v. None), utf8_size = length,
     str_of = (\<lambda>v. ''value''), uuid_hex = (\<lambda>p. case p of Stream_call i n \<Rightarrow> show_nat n | Candidate_call i n \<Rightarrow> ''c'' @ show_nat n)\<rparr>"

definition demo_schema :: pyval where
  "demo_schema = PDict [(''anyOf'', PList [PDict [(''type'', PStr ''null'')], PDict [(''$ref'', PStr ''#/$defs/n'')]])]"

definition demo_root :: pydict where
  "demo_root = [(''$defs'', PDict [(''n'', PDict [(''type'', PStr ''integer'')])])]"

lemma demo_kind: "declared_kind demo_lib demo_schema demo_root = ''integer''"
  by code_simp

theorem converted_value_typed_witness:
  "convert_argument demo_lib ''forty'' demo_schema demo_root = PStr ''forty'' \<and>
   (fits_kind ''integer'' (PStr ''forty'') \<or> PStr ''forty'' = PStr ''forty'')"
proof -
  have "convert_argument demo_lib ''forty'' demo_schema demo_root = PStr ''forty''" by code_simp
  then show ?thesis using converted_value_typed [of demo_lib "''forty''" demo_schema demo_root] by simp
qed

theorem argument_roundtrip_witness: "convert_argument demo_lib (show_int (- 42)) demo_schema demo_root = PInt (- 42)"
proof -
  have "demo_schema \<noteq> PNone" by (simp add: demo_schema_def)
  moreover have "''integer'' \<notin> set string_types" "has_prefix integer_type_prefixes ''integer''" by code_simp+
  ultimately show ?thesis
    using argument_roundtrip [of demo_schema "''integer''" demo_lib demo_root "- 42" True "[]"] demo_kind by simp
qed

end
