(* ===== verification/Hybrid_Usage.thy ===== *)
theory Hybrid_Usage
  imports Generation_Chunk Tool_Schema
begin

text \<open>
  Counting an upstream's generation with the model's own tokenizer,
  \<^verbatim>\<open>processors/hybrid_usage.py\<close>. The tokenizer is the field \<open>count_tokens\<close>, which may raise. The run of the
  generator is the list of the chunks it yields and the exception that ends it, if one does.
\<close>

record hybrid_count =
  hyb_prompt_tokens :: int
  completion_limit :: int
  count_tokens :: "string \<Rightarrow> int result"
  upstream_image_tokens :: bool

definition or_empty :: "pyval \<Rightarrow> pyval" where
  "or_empty v = (if truthy v then v else PStr [])"

definition call_texts :: "pyval \<Rightarrow> pyval list result" where
  "call_texts call =
     (case call of
        PDict c \<Rightarrow>
          (case (if truthy (py_get c ''function'') then py_get c ''function'' else PDict []) of
             PDict f \<Rightarrow> Inr [or_empty (py_get f ''name''), or_empty (py_get f ''arguments'')]
           | _ \<Rightarrow> Inl AttributeError)
      | _ \<Rightarrow> Inl AttributeError)"

text \<open>The values a \<^verbatim>\<open>for\<close> loop takes from a value.\<close>

definition py_iter :: "pyval \<Rightarrow> pyval list result" where
  "py_iter v =
     (case v of
        PList vs \<Rightarrow> Inr vs
      | PDict d \<Rightarrow> Inr (map PStr (od_keys d))
      | PStr t \<Rightarrow> Inr (map (\<lambda>c. PStr [c]) t)
      | PBytes b \<Rightarrow> Inr (map (\<lambda>c. PInt (of_char c)) b)
      | _ \<Rightarrow> Inl TypeError)"

primrec calls_texts :: "pyval list \<Rightarrow> pyval list result" where
  "calls_texts [] = Inr []"
| "calls_texts (call # calls) =
     (case call_texts call of
        Inl e \<Rightarrow> Inl e
      | Inr ts \<Rightarrow> (case calls_texts calls of Inl e \<Rightarrow> Inl e | Inr us \<Rightarrow> Inr (ts @ us)))"

definition candidate_texts :: "pydict \<Rightarrow> pyval list result" where
  "candidate_texts cand =
     (case (if truthy (py_get cand ''tool_calls'') then py_iter (py_get cand ''tool_calls'') else Inr []) of
        Inl e \<Rightarrow> Inl e
      | Inr calls \<Rightarrow>
          (case calls_texts calls of Inl e \<Rightarrow> Inl e | Inr ts \<Rightarrow> Inr (or_empty (py_get cand ''text'') # ts)))"

type_synonym hybrid_texts = "(int, pyval list) odict"

text \<open>\<^verbatim>\<open>texts.setdefault(index, []).extend(parts)\<close>\<close>

definition extend_texts :: "int \<Rightarrow> pyval list \<Rightarrow> hybrid_texts \<Rightarrow> hybrid_texts" where
  "extend_texts i parts texts =
     od_set i ((case map_of texts i of None \<Rightarrow> [] | Some ps \<Rightarrow> ps) @ parts) texts"

fun add_candidates :: "int \<Rightarrow> pydict list \<Rightarrow> hybrid_texts \<Rightarrow> hybrid_texts result" where
  "add_candidates i [] texts = Inr texts"
| "add_candidates i (cand # cands) texts =
     (case candidate_texts cand of
        Inl e \<Rightarrow> Inl e
      | Inr parts \<Rightarrow> add_candidates (i + 1) cands (extend_texts i parts texts))"

definition chunk_parts :: "generation_chunk \<Rightarrow> string list" where
  "chunk_parts c =
     [reasoning_delta c, text_delta c] @
     (case tool_call_delta c of
        None \<Rightarrow> []
      | Some d \<Rightarrow> [case function_name d of None \<Rightarrow> [] | Some n \<Rightarrow> n, arguments_delta d])"

definition add_chunk :: "generation_chunk \<Rightarrow> hybrid_texts \<Rightarrow> hybrid_texts result" where
  "add_chunk c texts =
     add_candidates 0 (case candidates c of None \<Rightarrow> [] | Some cs \<Rightarrow> cs)
       (extend_texts (choice_index c) (map PStr (chunk_parts c)) texts)"

text \<open>\<^verbatim>\<open>"".join(parts)\<close>, which raises on a part that is no string.\<close>

fun py_join :: "pyval list \<Rightarrow> string result" where
  "py_join [] = Inr []"
| "py_join (PStr t # ps) = (case py_join ps of Inl e \<Rightarrow> Inl e | Inr u \<Rightarrow> Inr (t @ u))"
| "py_join (p # ps) = Inl TypeError"

primrec count_texts :: "hybrid_count \<Rightarrow> pyval list list \<Rightarrow> int result" where
  "count_texts h [] = Inr 0"
| "count_texts h (ps # pss) =
     and_then (py_join ps) (\<lambda>t. and_then (count_tokens h t) (\<lambda>k. and_then (count_texts h pss) (\<lambda>n. Inr (k + n))))"

definition prompt_count :: "hybrid_count \<Rightarrow> generation_chunk \<Rightarrow> int result" where
  "prompt_count h c =
     (if upstream_image_tokens h
      then (case image_tokens c of
              None \<Rightarrow> Inl (RuntimeError ''upstream chat omitted exact image usage'')
            | Some n \<Rightarrow> Inr (hyb_prompt_tokens h + n))
      else Inr (hyb_prompt_tokens h))"

definition report_usage :: "hybrid_count \<Rightarrow> hybrid_texts \<Rightarrow> generation_chunk \<Rightarrow> generation_chunk result" where
  "report_usage h texts c =
     (case (prompt_tokens c, completion_tokens c) of
        (Some up_prompt, Some up_completion) \<Rightarrow>
          if \<not> is_done c then Inr c
          else (case prompt_count h c of
                  Inl e \<Rightarrow> Inl e
                | Inr prompt \<Rightarrow>
                    (case count_texts h (map snd texts) of
                       Inl e \<Rightarrow> Inl e
                     | Inr n \<Rightarrow>
                         let completion = (if up_completion > 0 then max n 1 else n)
                         in Inr (c\<lparr>prompt_tokens := Some prompt,
                                   completion_tokens := Some (min completion (completion_limit h)),
                                   cached_tokens := None, image_tokens := None,
                                   upstream_usage := Some \<lparr>up_prompt_tokens = up_prompt,
                                     up_completion_tokens = up_completion, up_cached_tokens = cached_tokens c\<rparr>\<rparr>)))
      | _ \<Rightarrow> Inr c)"

definition drop_reasoning :: "bool \<Rightarrow> generation_chunk \<Rightarrow> generation_chunk" where
  "drop_reasoning keep c = (if reasoning_delta c \<noteq> [] \<and> \<not> keep then c\<lparr>reasoning_delta := []\<rparr> else c)"

primrec count_loop :: "hybrid_count \<Rightarrow> bool \<Rightarrow> generation_chunk list \<Rightarrow> hybrid_texts \<Rightarrow>
    generation_chunk list \<times> py_error option" where
  "count_loop h keep [] texts = ([], None)"
| "count_loop h keep (c # cs) texts =
     (case add_chunk c texts of
        Inl e \<Rightarrow> ([], Some e)
      | Inr texts1 \<Rightarrow>
          (case report_usage h texts1 (drop_reasoning keep c) of
             Inl e \<Rightarrow> ([], Some e)
           | Inr c1 \<Rightarrow> let (out, err) = count_loop h keep cs texts1 in (c1 # out, err)))"

definition count_hybrid_usage :: "hybrid_count \<Rightarrow> bool \<Rightarrow> generation_chunk list \<Rightarrow>
    generation_chunk list \<times> py_error option" where
  "count_hybrid_usage h keep cs = count_loop h keep cs []"

section \<open>What the counter keeps of the chunks\<close>

text \<open>The fields of a chunk the counter never changes.\<close>

definition same_delivery :: "generation_chunk \<Rightarrow> generation_chunk \<Rightarrow> bool" where
  "same_delivery a b =
     (text_delta a = text_delta b \<and> is_done a = is_done b \<and> is_first a = is_first b \<and> finish_reason a = finish_reason b \<and>
      tool_call_delta a = tool_call_delta b \<and> error_code a = error_code b \<and> error_message a = error_message b \<and>
      logprobs a = logprobs b \<and> candidates a = candidates b \<and> choice_index a = choice_index b \<and>
      upstream_reason a = upstream_reason b)"

lemma report_same: "report_usage h texts c = Inr d \<Longrightarrow> same_delivery d c"
  by (auto simp: report_usage_def same_delivery_def Let_def split: option.splits sum.splits if_splits)

lemma drop_reasoning_fields:
  "prompt_tokens (drop_reasoning keep c) = prompt_tokens c" "completion_tokens (drop_reasoning keep c) = completion_tokens c"
  "image_tokens (drop_reasoning keep c) = image_tokens c" "cached_tokens (drop_reasoning keep c) = cached_tokens c"
  "is_done (drop_reasoning keep c) = is_done c"
  by (simp_all add: drop_reasoning_def)

lemma prompt_count_drop: "prompt_count h (drop_reasoning keep c) = prompt_count h c"
  by (simp add: prompt_count_def drop_reasoning_fields)

lemma drop_same: "same_delivery d (drop_reasoning keep c) \<Longrightarrow> same_delivery d c"
  by (simp add: drop_reasoning_def same_delivery_def split: if_splits)

lemma count_same:
  "count_loop h keep cs texts = (out, None) \<Longrightarrow> list_all2 same_delivery out cs"
proof (induction cs arbitrary: texts out)
  case (Cons c cs)
  then obtain texts1 c1 rest where "report_usage h texts1 (drop_reasoning keep c) = Inr c1"
    "count_loop h keep cs texts1 = (rest, None)" "out = c1 # rest"
    by (auto split: sum.splits prod.splits)
  with Cons.IH show ?case by (simp add: drop_same [OF report_same])
qed simp

section \<open>What the counter counts\<close>

text \<open>Everything a choice generated: reasoning, text, names and arguments of calls.\<close>

definition generated_text :: "int \<Rightarrow> generation_chunk list \<Rightarrow> string" where
  "generated_text i cs = concat (map (\<lambda>c. concat (chunk_parts c)) (filter (\<lambda>c. choice_index c = i) cs))"

definition texts_hold :: "hybrid_texts \<Rightarrow> generation_chunk list \<Rightarrow> bool" where
  "texts_hold texts cs =
     (od_wf texts \<and> set (od_keys texts) = choice_index ` set cs \<and>
      (\<forall>i ps. map_of texts i = Some ps \<longrightarrow> py_join ps = Inr (generated_text i cs)))"

lemma py_join_append: "py_join ps = Inr t \<Longrightarrow> py_join (ps @ map PStr ts) = Inr (t @ concat ts)"
proof (induction ps arbitrary: t rule: py_join.induct)
  case 1
  have "py_join (map PStr ts) = Inr (concat ts)" by (induction ts) auto
  with 1 show ?case by simp
qed (auto split: sum.splits)

lemma texts_hold_extend:
  assumes "texts_hold texts cs"
  shows "texts_hold (extend_texts (choice_index c) (map PStr (chunk_parts c)) texts) (cs @ [c])"
proof -
  let ?i = "choice_index c" and ?t = "extend_texts (choice_index c) (map PStr (chunk_parts c)) texts"
  have new: "generated_text ?i cs = []" if "?i \<notin> choice_index ` set cs"
  proof -
    have "filter (\<lambda>x. choice_index x = ?i) cs = []" unfolding filter_empty_conv using that by (metis image_eqI)
    then show ?thesis by (simp add: generated_text_def)
  qed
  have keys: "i \<notin> set (od_keys texts) \<longleftrightarrow> map_of texts i = None" for i by (simp add: od_keys_def map_of_eq_None_iff)
  have step: "generated_text i (cs @ [c]) = generated_text i cs @ (if i = ?i then concat (chunk_parts c) else [])" for i
    by (simp add: generated_text_def)
  have old: "py_join (case map_of texts ?i of None \<Rightarrow> [] | Some ps \<Rightarrow> ps) = Inr (generated_text ?i cs)"
    using assms new keys [of ?i] by (auto simp: texts_hold_def split: option.splits)
  have wf: "od_wf ?t" using assms by (simp add: texts_hold_def extend_texts_def od_wf_ops)
  moreover have "set (od_keys ?t) = choice_index ` set (cs @ [c])"
    using assms by (auto simp: texts_hold_def extend_texts_def od_simps od_mem_def)
  moreover have "py_join ps = Inr (generated_text i (cs @ [c]))" if "map_of ?t i = Some ps" for i ps
    using that assms old by (auto simp: step texts_hold_def extend_texts_def map_of_od_set intro: py_join_append split: if_splits)
  ultimately show ?thesis by (simp add: texts_hold_def)
qed

text \<open>The number of tokens of a text, for a tokenizer that counts it.\<close>

definition counted :: "hybrid_count \<Rightarrow> string \<Rightarrow> int" where
  "counted h t = (case count_tokens h t of Inl e \<Rightarrow> 0 | Inr n \<Rightarrow> n)"

definition countable_text :: "hybrid_count \<Rightarrow> string \<Rightarrow> bool" where
  "countable_text h t = (\<exists>n. count_tokens h t = Inr n)"

lemma count_texts_sum:
  "\<forall>p \<in> set texts. py_join (snd p) = Inr (g (fst p)) \<and> countable_text h (g (fst p)) \<Longrightarrow>
     count_texts h (map snd texts) = Inr (\<Sum>i \<leftarrow> od_keys texts. counted h (g i))"
  by (induction texts) (auto simp: od_keys_def counted_def countable_text_def)

definition generated_tokens :: "hybrid_count \<Rightarrow> generation_chunk list \<Rightarrow> int" where
  "generated_tokens h cs = (\<Sum>i \<in> choice_index ` set cs. counted h (generated_text i cs))"

lemma texts_hold_count:
  assumes "texts_hold texts cs" and "\<forall>i \<in> choice_index ` set cs. countable_text h (generated_text i cs)"
  shows "count_texts h (map snd texts) = Inr (generated_tokens h cs)"
proof -
  have "\<forall>p \<in> set texts. py_join (snd p) = Inr (generated_text (fst p) cs)"
    using assms(1) od_wf_ball [of texts "\<lambda>p. py_join (snd p) = Inr (generated_text (fst p) cs)"] by (simp add: texts_hold_def)
  moreover have "\<forall>p \<in> set texts. fst p \<in> choice_index ` set cs"
    using assms(1) by (auto simp: texts_hold_def od_keys_def)
  ultimately have "\<forall>p \<in> set texts. py_join (snd p) = Inr (generated_text (fst p) cs) \<and> countable_text h (generated_text (fst p) cs)"
    using assms(2) by blast
  from count_texts_sum [OF this] show ?thesis
    using assms(1) by (simp add: texts_hold_def generated_tokens_def sum_list_distinct_conv_sum_set od_wf_def)
qed

lemma count_prefix:
  assumes "\<forall>c \<in> set ds. \<not> is_done c \<and> candidates c = None" and "texts_hold texts cs"
  shows "\<exists>texts1. texts_hold texts1 (cs @ ds) \<and>
    count_loop h keep (ds @ es) texts =
      (map (drop_reasoning keep) ds @ fst (count_loop h keep es texts1), snd (count_loop h keep es texts1))"
  using assms
proof (induction ds arbitrary: texts cs)
  case (Cons d ds)
  let ?t = "extend_texts (choice_index d) (map PStr (chunk_parts d)) texts"
  have a: "add_chunk d texts = Inr ?t" using Cons.prems(1) by (simp add: add_chunk_def)
  have r: "report_usage h ?t (drop_reasoning keep d) = Inr (drop_reasoning keep d)"
    using Cons.prems(1) by (simp add: report_usage_def drop_reasoning_def split: option.splits)
  obtain texts1 where "texts_hold texts1 ((cs @ [d]) @ ds)" "count_loop h keep (ds @ es) ?t =
      (map (drop_reasoning keep) ds @ fst (count_loop h keep es texts1), snd (count_loop h keep es texts1))"
    using Cons.IH [OF _ texts_hold_extend [OF Cons.prems(2), of d]] Cons.prems(1) by auto
  with a r show ?case by (intro exI [of _ texts1]) simp
qed auto

section \<open>Properties\<close>

text \<open>
  C29. The usage a hybrid request reports: the terminal carries the worker's prompt count (with the
  upstream's image tokens where they are used) and the tokens of everything the choices
  generated, hidden reasoning included, at least one when the upstream counted any and never
  above the limit; the upstream's own counts ride beside it; nothing the client reads changes. The stream carries no candidates, and the
  tokenizer counts the texts of its choices.
\<close>

theorem hybrid_usage_reported:
  assumes "\<forall>c \<in> set cs. \<not> is_done c \<and> candidates c = None" and "is_done d" and "candidates d = None"
    and "prompt_tokens d = Some p" and "completion_tokens d = Some q" and "prompt_count h d = Inr prompt"
    and "n = generated_tokens h (cs @ [d])"
    and "\<forall>i \<in> choice_index ` set (cs @ [d]). countable_text h (generated_text i (cs @ [d]))"
  shows "\<exists>out r. count_hybrid_usage h keep (cs @ [d]) = (out @ [r], None) \<and>
    list_all2 same_delivery (out @ [r]) (cs @ [d]) \<and> prompt_tokens r = Some prompt \<and>
    completion_tokens r = Some (min (if q > 0 then max n 1 else n) (completion_limit h)) \<and>
    upstream_usage r = Some \<lparr>up_prompt_tokens = p, up_completion_tokens = q, up_cached_tokens = cached_tokens d\<rparr>"
proof -
  have start: "texts_hold [] []" by (simp add: texts_hold_def od_keys_def)
  obtain texts where t: "texts_hold texts cs" "count_loop h keep (cs @ [d]) [] =
      (map (drop_reasoning keep) cs @ fst (count_loop h keep [d] texts), snd (count_loop h keep [d] texts))"
    using count_prefix [OF assms(1) start, of h keep "[d]"] by auto
  let ?t = "extend_texts (choice_index d) (map PStr (chunk_parts d)) texts" and ?d = "drop_reasoning keep d"
  have a: "add_chunk d texts = Inr ?t" using assms(3) by (simp add: add_chunk_def)
  have f: "prompt_tokens ?d = Some p" "completion_tokens ?d = Some q" "is_done ?d" "prompt_count h ?d = Inr prompt"
    "cached_tokens ?d = cached_tokens d"
    using assms(2,4-6) by (simp_all add: drop_reasoning_fields prompt_count_drop)
  obtain r where r: "report_usage h ?t ?d = Inr r" "prompt_tokens r = Some prompt"
    "completion_tokens r = Some (min (if q > 0 then max n 1 else n) (completion_limit h))"
    "upstream_usage r = Some \<lparr>up_prompt_tokens = p, up_completion_tokens = q, up_cached_tokens = cached_tokens d\<rparr>"
    using f texts_hold_count [OF texts_hold_extend [OF t(1), of d] assms(8)] assms(7) by (simp add: report_usage_def Let_def)
  have l: "count_hybrid_usage h keep (cs @ [d]) = (map (drop_reasoning keep) cs @ [r], None)"
    using t(2) a r(1) by (simp add: count_hybrid_usage_def)
  moreover from l have "list_all2 same_delivery (map (drop_reasoning keep) cs @ [r]) (cs @ [d])"
    unfolding count_hybrid_usage_def by (rule count_same)
  ultimately show ?thesis using r by blast
qed

definition demo_count :: hybrid_count where
  "demo_count = \<lparr>hyb_prompt_tokens = 7, completion_limit = 5, count_tokens = (\<lambda>t. Inr (int (length t))), upstream_image_tokens = True\<rparr>"

definition demo_counted :: generation_chunk where
  "demo_counted = chunk0\<lparr>text_delta := ''b'', is_done := True, prompt_tokens := Some 9, completion_tokens := Some 4,
     image_tokens := Some 2\<rparr>"

theorem hybrid_usage_reported_witness:
  "\<exists>out r. count_hybrid_usage demo_count False ([chunk0\<lparr>reasoning_delta := ''hm''\<rparr>] @ [demo_counted]) = (out @ [r], None) \<and>
    list_all2 same_delivery (out @ [r]) ([chunk0\<lparr>reasoning_delta := ''hm''\<rparr>] @ [demo_counted]) \<and> prompt_tokens r = Some 9 \<and>
    completion_tokens r = Some (min (if (4::int) > 0 then max 3 1 else 3) (completion_limit demo_count)) \<and>
    upstream_usage r = Some \<lparr>up_prompt_tokens = 9, up_completion_tokens = 4, up_cached_tokens = cached_tokens demo_counted\<rparr>"
  by (rule hybrid_usage_reported)
    (simp_all add: demo_counted_def demo_count_def prompt_count_def generated_tokens_def generated_text_def chunk_parts_def
      counted_def countable_text_def)

end
