(* ===== verification/Thinking_Blocks.thy ===== *)
theory Thinking_Blocks
  imports Generation_Chunk
begin

text \<open>
  Hiding model reasoning: \<^verbatim>\<open>ThinkingBlockStripper\<close>, \<^verbatim>\<open>_split_thinking_blocks\<close> and
  \<^verbatim>\<open>suppress_thinking_blocks\<close> of \<^verbatim>\<open>adapters/_generation_base.py\<close>. The stripper holds back the
  part of its buffer that may turn out to be the start of a marker.

  Shown: feeding a text in any pieces shows and hides the same as feeding it at once;
  exactly the text outside the reasoning blocks is shown, also when the last block is cut
  off; and the stream wrapper gives every choice its own text however the choices
  interleave.
\<close>

section \<open>The stripper\<close>

datatype reasoning_format = Qwen3 | Gemma4

definition reasoning_boundaries :: "reasoning_format \<Rightarrow> string \<times> string" where
  "reasoning_boundaries f =
     (case f of
        Qwen3 \<Rightarrow> (''<think>'', ''</think>'')
      | Gemma4 \<Rightarrow> (''<|channel>thought'' @ [CHR 0x0A], ''<channel|>''))"

record stripper =
  buffer :: string
  inside :: bool
  rformat :: reasoning_format
  keep_reasoning :: bool
  parts :: "(string \<times> string) list"

definition new_stripper :: "bool \<Rightarrow> reasoning_format \<Rightarrow> bool \<Rightarrow> stripper" where
  "new_stripper ins f kp = \<lparr>buffer = [], inside = ins, rformat = f, keep_reasoning = kp, parts = []\<rparr>"

abbreviation s_open :: "stripper \<Rightarrow> string" where
  "s_open st \<equiv> fst (reasoning_boundaries (rformat st))"

abbreviation s_close :: "stripper \<Rightarrow> string" where
  "s_close st \<equiv> snd (reasoning_boundaries (rformat st))"

definition hide_text :: "string \<Rightarrow> stripper \<Rightarrow> stripper" where
  "hide_text t st =
     (if keep_reasoning st \<and> t \<noteq> [] then
        if parts st \<noteq> [] \<and> snd (last (parts st)) = []
        then st\<lparr>parts := butlast (parts st) @ [(fst (last (parts st)) @ t, [])]\<rparr>
        else st\<lparr>parts := parts st @ [(t, [])]\<rparr>
      else st)"

definition show_text :: "string \<Rightarrow> stripper \<Rightarrow> string \<times> stripper" where
  "show_text t st =
     (t, if keep_reasoning st \<and> t \<noteq> [] then
           let (r, v) = (if parts st \<noteq> [] then last (parts st) else ([], []))
           in st\<lparr>parts := butlast (parts st) @ [(r, v @ t)]\<rparr>
         else st)"

primrec prefix_length_from :: "string \<Rightarrow> string list \<Rightarrow> nat \<Rightarrow> nat" where
  "prefix_length_from t ds 0 = 0"
| "prefix_length_from t ds (Suc n) =
     (if \<exists>d \<in> set ds. py_startswith (drop (length t - Suc n) t) d then Suc n
      else prefix_length_from t ds n)"

definition delimiter_prefix_length :: "string \<Rightarrow> string list \<Rightarrow> nat" where
  "delimiter_prefix_length t ds =
     prefix_length_from t ds (min (foldr max (map length ds) 0 - 1) (length t))"

definition first_marker :: "string \<Rightarrow> string \<Rightarrow> string \<Rightarrow> (nat \<times> string) option" where
  "first_marker op cl s =
     (case (py_find op s, py_find cl s) of
        (None, None) \<Rightarrow> None
      | (Some i, None) \<Rightarrow> Some (i, op)
      | (None, Some j) \<Rightarrow> Some (j, cl)
      | (Some i, Some j) \<Rightarrow> if j < i then Some (j, cl) else Some (i, op))"

lemma boundaries_nonempty [simp]:
  "fst (reasoning_boundaries f) \<noteq> []" "snd (reasoning_boundaries f) \<noteq> []"
  by (cases f; simp add: reasoning_boundaries_def)+

lemma first_marker_nonempty: "first_marker op cl s = Some (k, m) \<Longrightarrow> m = op \<or> m = cl"
  by (auto simp: first_marker_def split: option.splits if_splits)

lemma hide_text_buffer [simp]:
  "buffer (hide_text t st) = buffer st" "inside (hide_text t st) = inside st"
  "rformat (hide_text t st) = rformat st" "keep_reasoning (hide_text t st) = keep_reasoning st"
  by (simp_all add: hide_text_def)

lemma show_text_buffer [simp]:
  "fst (show_text t st) = t" "buffer (snd (show_text t st)) = buffer st" "inside (snd (show_text t st)) = inside st"
  "rformat (snd (show_text t st)) = rformat st" "keep_reasoning (snd (show_text t st)) = keep_reasoning st"
  by (simp_all add: show_text_def split_beta Let_def)

text \<open>The loop of \<^verbatim>\<open>feed\<close>: each marker found shortens the buffer.\<close>

function feed_loop :: "stripper \<Rightarrow> string \<times> stripper" where
  "feed_loop st =
     (let s = buffer st
      in if s = [] then ([], st)
         else if inside st then
           (case py_find (s_close st) s of
              Some k \<Rightarrow>
                feed_loop ((hide_text (take k s) st)\<lparr>buffer := drop (k + length (s_close st)) s, inside := False\<rparr>)
            | None \<Rightarrow>
                let n = length s - delimiter_prefix_length s [s_close st]
                in ([], (hide_text (take n s) st)\<lparr>buffer := drop n s\<rparr>))
         else
           (case first_marker (s_open st) (s_close st) s of
              Some (k, m) \<Rightarrow>
                let (v, st1) = show_text (take k s) st;
                    (vs, st2) = feed_loop (st1\<lparr>buffer := drop (k + length m) s, inside := (m = s_open st)\<rparr>)
                in (v @ vs, st2)
            | None \<Rightarrow>
                let n = length s - delimiter_prefix_length s [s_open st, s_close st];
                    (v, st1) = show_text (take n s) st
                in (v, st1\<lparr>buffer := drop n s\<rparr>)))"
  by pat_completeness auto
termination
  by (relation "measure (\<lambda>st. length (buffer st))") (auto dest!: first_marker_nonempty)

declare feed_loop.simps [simp del]

definition feed :: "string \<Rightarrow> stripper \<Rightarrow> string \<times> stripper" where
  "feed t st = feed_loop (st\<lparr>buffer := buffer st @ t\<rparr>)"

definition finish :: "stripper \<Rightarrow> string \<times> stripper" where
  "finish st =
     (let (v, st1) = (if inside st then ([], hide_text (buffer st) st) else show_text (buffer st) st)
      in (v, st1\<lparr>buffer := [], inside := False\<rparr>))"

definition take_parts :: "stripper \<Rightarrow> (string \<times> string) list \<times> stripper" where
  "take_parts st = (parts st, st\<lparr>parts := []\<rparr>)"

definition take_reasoning :: "stripper \<Rightarrow> string \<times> stripper" where
  "take_reasoning st = (let (ps, st1) = take_parts st in (concat (map fst ps), st1))"

definition split_thinking_blocks :: "string \<Rightarrow> bool \<Rightarrow> reasoning_format \<Rightarrow> string \<times> string" where
  "split_thinking_blocks t start_inside f =
     (let (v1, st1) = feed t (new_stripper start_inside f True); (v2, st2) = finish st1
      in (v1 @ v2, fst (take_reasoning st2)))"

section \<open>Pieces of text\<close>

lemma hide_text_append: "hide_text (p @ q) st = hide_text q (hide_text p st)"
  by (auto simp: hide_text_def)

lemma show_text_append: "snd (show_text (p @ q) st) = snd (show_text q (snd (show_text p st)))"
  by (auto simp: show_text_def split_beta Let_def)

lemma hide_text_upd [simp]:
  "hide_text t (st\<lparr>buffer := b\<rparr>) = (hide_text t st)\<lparr>buffer := b\<rparr>"
  "hide_text t (st\<lparr>inside := i\<rparr>) = (hide_text t st)\<lparr>inside := i\<rparr>"
  by (simp_all add: hide_text_def)

lemma show_text_upd [simp]:
  "snd (show_text t (st\<lparr>buffer := b\<rparr>)) = (snd (show_text t st))\<lparr>buffer := b\<rparr>"
  "snd (show_text t (st\<lparr>inside := i\<rparr>)) = (snd (show_text t st))\<lparr>inside := i\<rparr>"
  by (simp_all add: show_text_def split_beta Let_def)

lemma text_Nil [simp]: "hide_text [] st = st" "show_text [] st = ([], st)"
  by (simp_all add: hide_text_def show_text_def)

text \<open>The held-back suffix: it is the longest one that a delimiter may continue.\<close>

lemma prefix_length_le: "prefix_length_from t ds n \<le> n"
  by (induction n) auto

lemma prefix_length_longest:
  "prefix_length_from t ds n < l \<Longrightarrow> l \<le> n \<Longrightarrow> d \<in> set ds \<Longrightarrow> \<not> py_startswith (drop (length t - l) t) d"
proof (induction n)
  case (Suc n)
  then show ?case by (cases "l = Suc n") (auto split: if_splits)
qed simp

lemma delimiter_length: "d \<in> set ds \<Longrightarrow> length d \<le> foldr max (map length ds) 0"
  by (induction ds) auto

lemma clean_prefix_length:
  assumes "d \<in> set ds" and "py_find d t = None" and "d \<noteq> []"
  defines "n \<equiv> length t - delimiter_prefix_length t ds"
  shows "clean d (take n t) (drop n t)"
proof -
  have "\<not> may_start d (drop j t)" if "j < n" for j
  proof (cases "length d \<le> length (drop j t)")
    case True
    then show ?thesis using assms(2,3) that py_find_None [of d t] may_start_long by (auto simp: n_def)
  next
    case False
    let ?l = "length t - j"
    have "delimiter_prefix_length t ds < ?l" using that by (simp add: n_def)
    moreover have "?l \<le> min (foldr max (map length ds) 0 - 1) (length t)"
      using False delimiter_length [OF assms(1)] by simp
    ultimately have "\<not> py_startswith (drop (length t - ?l) t) d"
      using prefix_length_longest assms(1) unfolding delimiter_prefix_length_def by blast
    then show ?thesis using that False by (simp add: n_def may_start_def py_startswith_def eq_commute)
  qed
  then show ?thesis by (simp add: clean_drop)
qed

lemma prefix_length_skip:
  assumes "\<forall>d \<in> set ds. clean d p t" and "n \<le> length (p @ t)"
  shows "prefix_length_from (p @ t) ds n = prefix_length_from t ds (min n (length t))"
  using assms(2)
proof (induction n)
  case (Suc n)
  show ?case
  proof (cases "n < length t")
    case True
    then have "drop (length (p @ t) - Suc n) (p @ t) = drop (length t - Suc n) t" by simp
    with True Suc show ?thesis by (simp add: min_def)
  next
    case False
    let ?x = "drop (length (p @ t) - Suc n) (p @ t)"
    have "\<not> may_start d ?x" if "d \<in> set ds" for d
      using assms(1) that False Suc.prems by (fastforce simp: clean_drop)
    then have "\<not> py_startswith ?x d" if "d \<in> set ds" for d
      using that startswith_may_start_rev by blast
    with False Suc show ?thesis by (simp add: min_def)
  qed
qed simp

lemma delimiter_prefix_skip:
  "\<forall>d \<in> set ds. clean d p t \<Longrightarrow> delimiter_prefix_length (p @ t) ds = delimiter_prefix_length t ds"
  by (simp add: delimiter_prefix_length_def prefix_length_skip min.assoc)

lemma delimiter_prefix_le: "delimiter_prefix_length t ds \<le> length t"
  using prefix_length_le [of t ds] unfolding delimiter_prefix_length_def by (meson min.boundedE)

section \<open>Feeding in pieces\<close>

text \<open>Neither marker may hide inside the other, or it would matter which arrives whole first.\<close>

definition unnested :: "string \<Rightarrow> string \<Rightarrow> bool" where
  "unnested a b = (\<not> py_contains a b \<and> \<not> py_contains b a)"

lemma boundaries_unnested: "unnested (fst (reasoning_boundaries f)) (snd (reasoning_boundaries f))"
proof -
  have "unnested ''<think>'' ''</think>''" "unnested (''<|channel>thought'' @ [CHR 0x0A]) ''<channel|>''"
    by code_simp+
  then show ?thesis by (cases f) (simp_all add: reasoning_boundaries_def)
qed



lemma first_marker_None: "first_marker op cl s = None \<longleftrightarrow> py_find op s = None \<and> py_find cl s = None"
  by (auto simp: first_marker_def split: option.splits)

lemma first_marker_append:
  assumes "unnested op cl" and "op \<noteq> []" and "cl \<noteq> []" and "first_marker op cl s = Some (k, m)"
  shows "first_marker op cl (s @ b) = Some (k, m)" and "k + length m \<le> length s"
proof -
  have ab: "\<not> py_contains op cl" "\<not> py_contains cl op" using assms(1) by (simp_all add: unnested_def)
  show "first_marker op cl (s @ b) = Some (k, m)"
  proof (cases "py_find op s")
    case None
    then obtain j where j: "py_find cl s = Some j" "k = j" "m = cl"
      using assms(4) by (auto simp: first_marker_def split: option.splits)
    then show ?thesis
      using py_find_append [OF j(1), of b] straddle_after [OF j(1) None _ ab(2) assms(2), of b]
      by (cases "py_find op (s @ b)") (auto simp: first_marker_def)
  next
    case (Some i)
    show ?thesis
    proof (cases "py_find cl s")
      case None
      then show ?thesis
        using assms(4) Some py_find_append [OF Some, of b] straddle_after [OF Some None _ ab(1) assms(3), of b]
        by (cases "py_find cl (s @ b)") (force simp: first_marker_def)+
    next
      case (Some j)
      then show ?thesis
        using assms(4) \<open>py_find op s = Some i\<close> py_find_append [of op s i b] py_find_append [of cl s j b]
        by (simp add: first_marker_def)
    qed
  qed
  show "k + length m \<le> length s"
    using assms(4) py_find_Some [of op s] py_find_Some [of cl s]
    by (auto simp: first_marker_def split: option.splits if_splits)
qed

lemma first_marker_clean:
  assumes "clean op p t" and "clean cl p t"
  shows "first_marker op cl (p @ t) = map_option (\<lambda>(k, m). (length p + k, m)) (first_marker op cl t)"
  using assms by (auto simp: first_marker_def py_find_clean split: option.splits)

lemma stripper_upd_commute [simp]: "st\<lparr>inside := i, buffer := b\<rparr> = st\<lparr>buffer := b, inside := i\<rparr>"
  by (cases st) simp

text \<open>The branches of the loop.\<close>

lemma buffer_same: "buffer st = b \<Longrightarrow> st\<lparr>buffer := b\<rparr> = st"
  by (cases st) simp

lemma feed_empty: "buffer st = [] \<Longrightarrow> feed_loop st = ([], st)"
  by (simp add: feed_loop.simps [of st])

lemma find_nonempty: "d \<noteq> [] \<Longrightarrow> py_find d s = Some k \<Longrightarrow> s \<noteq> []"
  by auto

lemma feed_inside_found:
  assumes "inside st" and "py_find (s_close st) (buffer st) = Some k"
  shows "feed_loop st = feed_loop ((hide_text (take k (buffer st)) st)
    \<lparr>buffer := drop (k + length (s_close st)) (buffer st), inside := False\<rparr>)"
  using assms find_nonempty [OF _ assms(2)] by (subst feed_loop.simps) (simp add: Let_def)

lemma feed_inside_none:
  assumes "inside st" and "py_find (s_close st) (buffer st) = None"
    and "n = length (buffer st) - delimiter_prefix_length (buffer st) [s_close st]"
  shows "feed_loop st = ([], (hide_text (take n (buffer st)) st)\<lparr>buffer := drop n (buffer st)\<rparr>)"
  using assms by (subst feed_loop.simps) (simp add: Let_def buffer_same)

lemma feed_outside_found:
  assumes "\<not> inside st" and "first_marker (s_open st) (s_close st) (buffer st) = Some (k, m)"
  shows "feed_loop st =
    (let (vs, st2) = feed_loop ((snd (show_text (take k (buffer st)) st))
       \<lparr>buffer := drop (k + length m) (buffer st), inside := (m = s_open st)\<rparr>)
     in (take k (buffer st) @ vs, st2))"
proof -
  have "buffer st \<noteq> []" using assms(2) by (auto simp: first_marker_def)
  then show ?thesis
    using assms by (subst feed_loop.simps) (simp add: split_beta Let_def)
qed

lemma feed_outside_none:
  assumes "\<not> inside st" and "first_marker (s_open st) (s_close st) (buffer st) = None"
    and "n = length (buffer st) - delimiter_prefix_length (buffer st) [s_open st, s_close st]"
  shows "feed_loop st =
    (take n (buffer st), (snd (show_text (take n (buffer st)) st))\<lparr>buffer := drop n (buffer st)\<rparr>)"
  using assms by (subst feed_loop.simps) (simp add: Let_def split_beta buffer_same)

text \<open>Text that no marker can start in may be handed on ahead of the rest.\<close>

lemma feed_inside_skip:
  assumes "inside st" and "clean (s_close st) p (buffer st)"
  shows "feed_loop (st\<lparr>buffer := p @ buffer st\<rparr>) = feed_loop (hide_text p st)"
proof -
  let ?t = "buffer st" and ?cl = "s_close st" and ?st = "st\<lparr>buffer := p @ buffer st\<rparr>"
  have fd: "py_find ?cl (p @ ?t) = map_option ((+) (length p)) (py_find ?cl ?t)"
    by (rule py_find_clean [OF assms(2)])
  show ?thesis
  proof (cases "py_find ?cl ?t")
    case None
    let ?n = "length ?t - delimiter_prefix_length ?t [?cl]"
    have "length (p @ ?t) - delimiter_prefix_length (p @ ?t) [?cl] = length p + ?n"
      using delimiter_prefix_skip [of "[?cl]" p ?t] assms(2) delimiter_prefix_le [of ?t "[?cl]"] by simp
    then have "feed_loop ?st = ([], (hide_text (take ?n ?t) (hide_text p st))\<lparr>buffer := drop ?n ?t\<rparr>)"
      using feed_inside_none [of ?st "length p + ?n"] assms(1) fd None by (simp add: hide_text_append)
    also have "\<dots> = feed_loop (hide_text p st)"
      using feed_inside_none [of "hide_text p st" ?n] assms(1) None by simp
    finally show ?thesis .
  next
    case (Some k)
    then show ?thesis
      using feed_inside_found [of ?st "length p + k"] feed_inside_found [of "hide_text p st" k] assms(1) fd
      by (simp add: hide_text_append add.assoc)
  qed
qed

lemma feed_outside_skip:
  assumes "\<not> inside st" and "clean (s_open st) p (buffer st)" and "clean (s_close st) p (buffer st)"
  shows "feed_loop (st\<lparr>buffer := p @ buffer st\<rparr>) =
    (let (v, st') = feed_loop (snd (show_text p st)) in (p @ v, st'))"
proof -
  let ?t = "buffer st" and ?ds = "[s_open st, s_close st]" and ?st = "st\<lparr>buffer := p @ buffer st\<rparr>"
  have fm: "first_marker (s_open st) (s_close st) (p @ ?t) =
      map_option (\<lambda>(k, m). (length p + k, m)) (first_marker (s_open st) (s_close st) ?t)"
    by (rule first_marker_clean [OF assms(2,3)])
  show ?thesis
  proof (cases "first_marker (s_open st) (s_close st) ?t")
    case None
    let ?n = "length ?t - delimiter_prefix_length ?t ?ds"
    have "length (p @ ?t) - delimiter_prefix_length (p @ ?t) ?ds = length p + ?n"
      using delimiter_prefix_skip [of ?ds p ?t] assms(2,3) delimiter_prefix_le [of ?t ?ds] by simp
    then have "feed_loop ?st =
        (p @ take ?n ?t, (snd (show_text (take ?n ?t) (snd (show_text p st))))\<lparr>buffer := drop ?n ?t\<rparr>)"
      using feed_outside_none [of ?st "length p + ?n"] assms(1) fm None by (simp add: show_text_append)
    also have "\<dots> = (let (v, st') = feed_loop (snd (show_text p st)) in (p @ v, st'))"
      using feed_outside_none [of "snd (show_text p st)" ?n] assms(1) None by simp
    finally show ?thesis .
  next
    case (Some km)
    then obtain k m where km: "first_marker (s_open st) (s_close st) ?t = Some (k, m)" by (cases km) auto
    then show ?thesis
      using feed_outside_found [of ?st "length p + k" m] feed_outside_found [of "snd (show_text p st)" k m]
        assms(1) fm
      by (simp add: show_text_append add.assoc split_beta Let_def)
  qed
qed

lemma feed_loop_cases [case_names empty in_found in_none out_found out_none]:
  obtains "buffer st = []"
    | k where "buffer st \<noteq> []" "inside st" "py_find (s_close st) (buffer st) = Some k"
    | "inside st" "py_find (s_close st) (buffer st) = None"
    | k m where "buffer st \<noteq> []" "\<not> inside st" "first_marker (s_open st) (s_close st) (buffer st) = Some (k, m)"
    | "\<not> inside st" "first_marker (s_open st) (s_close st) (buffer st) = None"
  by (metis option.exhaust prod.exhaust)

text \<open>Feeding one piece and then another is feeding both at once.\<close>

lemma feed_loop_append:
  "feed_loop (st\<lparr>buffer := buffer st @ b\<rparr>) =
    (let (v1, st1) = feed_loop st; (v2, st2) = feed_loop (st1\<lparr>buffer := buffer st1 @ b\<rparr>) in (v1 @ v2, st2))"
proof (induction st rule: feed_loop.induct)
  case (1 st)
  let ?s = "buffer st" and ?sb = "st\<lparr>buffer := buffer st @ b\<rparr>"
  show ?case
  proof (cases st rule: feed_loop_cases)
    case empty
    then show ?thesis by (simp add: feed_empty)
  next
    case (in_found k)
    have "k + length (s_close st) \<le> length ?s" using py_find_Some [OF in_found(3)] by blast
    then show ?thesis
      using "1.IH"(1) [OF refl in_found] feed_inside_found [OF in_found(2,3)]
        feed_inside_found [of ?sb k] in_found py_find_append [OF in_found(3), of b]
      by simp
  next
    case in_none
    let ?n = "length ?s - delimiter_prefix_length ?s [s_close st]"
    have "clean (s_close st) (take ?n ?s) (drop ?n ?s @ b)"
      using clean_prefix_length [of "s_close st" "[s_close st]" ?s] in_none by (simp add: clean_extend)
    then have "feed_loop ?sb = feed_loop ((hide_text (take ?n ?s) st)\<lparr>buffer := drop ?n ?s @ b\<rparr>)"
      using feed_inside_skip [of "st\<lparr>buffer := drop ?n ?s @ b\<rparr>" "take ?n ?s"] in_none by simp
    then show ?thesis using feed_inside_none [OF in_none refl] by simp
  next
    case (out_found k m)
    note fa = first_marker_append [OF boundaries_unnested boundaries_nonempty out_found(3)]
    show ?thesis
      using "1.IH"(2) [OF refl out_found refl refl surjective_pairing [symmetric]]
        feed_outside_found [OF out_found(2,3)] feed_outside_found [of ?sb k m] out_found fa(1) [of b] fa(2)
      by (simp add: split_beta Let_def)
  next
    case out_none
    let ?ds = "[s_open st, s_close st]" let ?n = "length ?s - delimiter_prefix_length ?s ?ds"
    have "clean d (take ?n ?s) (drop ?n ?s @ b)" if "d \<in> set ?ds" for d
      using clean_prefix_length [of d ?ds ?s] that out_none by (auto simp: first_marker_None intro: clean_extend)
    then have "feed_loop ?sb = (let (v, st') = feed_loop ((snd (show_text (take ?n ?s) st))\<lparr>buffer := drop ?n ?s @ b\<rparr>)
        in (take ?n ?s @ v, st'))"
      using feed_outside_skip [of "st\<lparr>buffer := drop ?n ?s @ b\<rparr>" "take ?n ?s"] out_none by simp
    then show ?thesis using feed_outside_none [OF out_none refl] by (simp add: split_beta Let_def)
  qed
qed

lemma feed_append:
  "feed (a @ b) st = (let (v1, st1) = feed a st; (v2, st2) = feed b st1 in (v1 @ v2, st2))"
  using feed_loop_append [of "st\<lparr>buffer := buffer st @ a\<rparr>" b] by (simp add: feed_def)

primrec feed_all :: "string list \<Rightarrow> stripper \<Rightarrow> string \<times> stripper" where
  "feed_all [] st = ([], st)"
| "feed_all (t # ts) st = (let (v1, st1) = feed t st; (v2, st2) = feed_all ts st1 in (v1 @ v2, st2))"

lemma feed_all_Cons: "feed_all (t # ts) st = feed (concat (t # ts)) st"
proof (induction ts arbitrary: t st)
  case (Cons u ts)
  show ?case using Cons feed_append [of t "concat (u # ts)" st] by (simp add: split_beta Let_def)
qed simp

lemma feed_all_concat: "buffer st = [] \<Longrightarrow> feed_all ts st = feed (concat ts) st"
  by (cases ts) (simp_all add: feed_all_Cons feed_def feed_empty del: feed_all.simps(2))

section \<open>What is shown and what is hidden\<close>

abbreviation reasoning_of :: "stripper \<Rightarrow> string" where
  "reasoning_of st \<equiv> concat (map fst (parts st))"

lemma concat_fst_last: "xs \<noteq> [] \<Longrightarrow> concat (map fst xs) = concat (map fst (butlast xs)) @ fst (last xs)"
  by (induction xs) auto

lemma reasoning_hide: "reasoning_of (hide_text t st) = reasoning_of st @ (if keep_reasoning st then t else [])"
  by (auto simp: hide_text_def concat_fst_last)

lemma reasoning_show: "reasoning_of (snd (show_text t st)) = reasoning_of st"
  by (auto simp: show_text_def split_beta Let_def concat_fst_last)

lemma boundaries_markers:
  "is_marker (fst (reasoning_boundaries f))" "is_marker (snd (reasoning_boundaries f))"
  by (cases f; simp add: reasoning_boundaries_def is_marker_def)+

definition unmarked :: "reasoning_format \<Rightarrow> string \<Rightarrow> bool" where
  "unmarked f t = (\<not> py_contains (fst (reasoning_boundaries f)) t \<and> \<not> py_contains (snd (reasoning_boundaries f)) t)"

definition unclosed :: "reasoning_format \<Rightarrow> string \<Rightarrow> bool" where
  "unclosed f t = (\<not> py_contains (snd (reasoning_boundaries f)) t)"

text \<open>Ordinary text followed by a reasoning block, repeatedly.\<close>

definition blocks_text :: "reasoning_format \<Rightarrow> (string \<times> string) list \<Rightarrow> string" where
  "blocks_text f bs =
     concat (map (\<lambda>(p, r). p @ fst (reasoning_boundaries f) @ r @ snd (reasoning_boundaries f)) bs)"

lemma startswith_self [simp]: "py_startswith d (d @ t)"
  by (simp add: py_startswith_def)

lemma feed_close:
  assumes "inside st" and "unclosed (rformat st) r"
  shows "feed_loop (st\<lparr>buffer := r @ s_close st @ t\<rparr>) =
    feed_loop ((hide_text r st)\<lparr>buffer := t, inside := False\<rparr>)"
proof -
  let ?st = "st\<lparr>buffer := s_close st @ t\<rparr>"
  have "clean (s_close st) r (s_close st @ t)"
    using assms(2) clean_before_marker boundaries_markers by (simp add: unclosed_def)
  then have "feed_loop (st\<lparr>buffer := r @ s_close st @ t\<rparr>) = feed_loop (hide_text r ?st)"
    using feed_inside_skip [of ?st r] assms(1) by simp
  then show ?thesis
    using feed_inside_found [of "hide_text r ?st" 0] assms(1) by (simp add: py_find_0)
qed

lemma feed_open:
  assumes "\<not> inside st" and "unmarked (rformat st) p"
  shows "feed_loop (st\<lparr>buffer := p @ s_open st @ t\<rparr>) =
    (let (v, st') = feed_loop ((snd (show_text p st))\<lparr>buffer := t, inside := True\<rparr>) in (p @ v, st'))"
proof -
  let ?st = "st\<lparr>buffer := s_open st @ t\<rparr>"
  have "clean (s_open st) p (s_open st @ t)" "clean (s_close st) p (s_open st @ t)"
    using assms(2) clean_before_marker boundaries_markers by (simp_all add: unmarked_def)
  then have *: "feed_loop (st\<lparr>buffer := p @ s_open st @ t\<rparr>) =
      (let (v, st') = feed_loop (snd (show_text p ?st)) in (p @ v, st'))"
    using feed_outside_skip [of ?st p] assms(1) by simp
  have "first_marker (s_open st) (s_close st) (s_open st @ t) = Some (0, s_open st)"
    by (simp add: first_marker_def py_find_0 split: option.splits)
  then show ?thesis
    unfolding * using feed_outside_found [of "snd (show_text p ?st)" 0 "s_open st"] assms(1)
    by (simp add: split_beta)
qed

definition drain :: "stripper \<Rightarrow> string \<times> stripper" where
  "drain st = (let (v1, st1) = feed_loop st; (v2, st2) = finish st1 in (v1 @ v2, st2))"

lemma drain_outside:
  assumes "\<not> inside st" and "unmarked (rformat st) (buffer st)"
  shows "fst (drain st) = buffer st" and "reasoning_of (snd (drain st)) = reasoning_of st"
proof -
  have "first_marker (s_open st) (s_close st) (buffer st) = None"
    using assms(2) by (simp add: first_marker_None unmarked_def contains_find)
  from feed_outside_none [OF assms(1) this refl] assms(1)
  show "fst (drain st) = buffer st" "reasoning_of (snd (drain st)) = reasoning_of st"
    by (simp_all add: drain_def finish_def split_beta Let_def reasoning_show)
qed

lemma drain_inside:
  assumes "inside st" and "unclosed (rformat st) (buffer st)"
  shows "fst (drain st) = []"
    and "reasoning_of (snd (drain st)) = reasoning_of st @ (if keep_reasoning st then buffer st else [])"
proof -
  have "py_find (s_close st) (buffer st) = None"
    using assms(2) by (simp add: unclosed_def contains_find)
  from feed_inside_none [OF assms(1) this refl] assms(1)
  show "fst (drain st) = []"
    "reasoning_of (snd (drain st)) = reasoning_of st @ (if keep_reasoning st then buffer st else [])"
    by (simp_all add: drain_def finish_def split_beta Let_def reasoning_hide)
qed

lemma drain_blocks:
  assumes "\<not> inside st" and "\<forall>(p, r) \<in> set bs. unmarked (rformat st) p \<and> unclosed (rformat st) r"
  shows "\<exists>st'. \<not> inside st' \<and> rformat st' = rformat st \<and> keep_reasoning st' = keep_reasoning st \<and> buffer st' = t \<and>
      reasoning_of st' = reasoning_of st @ (if keep_reasoning st then concat (map snd bs) else []) \<and>
      feed_loop (st\<lparr>buffer := blocks_text (rformat st) bs @ t\<rparr>) =
        (let (v, st2) = feed_loop st' in (concat (map fst bs) @ v, st2))"
  using assms
proof (induction bs arbitrary: st)
  case Nil
  then show ?case by (intro exI [of _ "st\<lparr>buffer := t\<rparr>"]) (simp add: blocks_text_def split_beta Let_def)
next
  case (Cons pr bs)
  obtain p r where pr: "pr = (p, r)" by fastforce
  let ?st1 = "(snd (show_text p st))\<lparr>inside := True\<rparr>"
  let ?st2 = "(hide_text r ?st1)\<lparr>inside := False\<rparr>"
  let ?rest = "blocks_text (rformat st) bs @ t"
  have "feed_loop (st\<lparr>buffer := p @ s_open st @ r @ s_close st @ ?rest\<rparr>) =
      (let (v, st2) = feed_loop (?st2\<lparr>buffer := ?rest\<rparr>) in (p @ v, st2))"
    using feed_open [of st p "r @ s_close st @ ?rest"] feed_close [of ?st1 r ?rest] Cons.prems pr by simp
  moreover obtain st' where "\<not> inside st'" "rformat st' = rformat st" "keep_reasoning st' = keep_reasoning st"
    "buffer st' = t" "reasoning_of st' = reasoning_of ?st2 @ (if keep_reasoning st then concat (map snd bs) else [])"
    "feed_loop (?st2\<lparr>buffer := ?rest\<rparr>) = (let (v, st2) = feed_loop st' in (concat (map fst bs) @ v, st2))"
    using Cons.IH [of ?st2] Cons.prems pr by auto
  ultimately show ?case
    using pr by (intro exI [of _ st']) (simp add: blocks_text_def reasoning_hide reasoning_show split_beta Let_def)
qed

text \<open>The whole text, when reasoning may already have begun in the prompt.\<close>

definition prompt_tail :: "bool \<Rightarrow> reasoning_format \<Rightarrow> string \<Rightarrow> string" where
  "prompt_tail start_inside f r = (if start_inside then r @ snd (reasoning_boundaries f) else [])"

lemma split_drain:
  "split_thinking_blocks t i f =
    (let (v, st) = drain ((new_stripper i f True)\<lparr>buffer := t\<rparr>) in (v, reasoning_of st))"
  by (simp add: split_thinking_blocks_def feed_def drain_def take_reasoning_def take_parts_def new_stripper_def
      split_beta Let_def)

lemma drain_text:
  assumes "\<forall>(p, r) \<in> set bs. unmarked f p \<and> unclosed f r" and "unclosed f r0"
  obtains st where "\<not> inside st" "rformat st = f" "keep_reasoning st" "buffer st = t"
    "reasoning_of st = (if i then r0 else []) @ concat (map snd bs)"
    "drain ((new_stripper i f True)\<lparr>buffer := prompt_tail i f r0 @ blocks_text f bs @ t\<rparr>) =
      (let (v, st2) = drain st in (concat (map fst bs) @ v, st2))"
proof -
  define st0 where "st0 = (if i then hide_text r0 (new_stripper i f True) else new_stripper i f True)\<lparr>inside := False\<rparr>"
  have st0: "\<not> inside st0" "rformat st0 = f" "keep_reasoning st0" "reasoning_of st0 = (if i then r0 else [])"
    by (simp_all add: st0_def new_stripper_def reasoning_hide)
  have "feed_loop ((new_stripper i f True)\<lparr>buffer := prompt_tail i f r0 @ blocks_text f bs @ t\<rparr>) =
      feed_loop (st0\<lparr>buffer := blocks_text f bs @ t\<rparr>)"
    using feed_close [of "new_stripper i f True" r0 "blocks_text f bs @ t"] assms(2)
    by (cases i) (simp_all add: st0_def prompt_tail_def new_stripper_def)
  with drain_blocks [OF st0(1), of bs t] assms(1) st0 that show thesis
    by (force simp: drain_def split_beta Let_def)
qed

section \<open>The stream wrapper\<close>

record suppress_options =
  start_inside :: bool
  reasoning_fmt :: reasoning_format
  keep_thoughts :: bool

record suppress_state =
  strippers :: "(int, stripper) odict"
  emitted_visible_text :: bool
  emitted_meaningful_text :: bool
  emitted_tool_call :: bool
  hid_reasoning :: bool

definition suppress_start :: suppress_state where
  "suppress_start = \<lparr>strippers = [], emitted_visible_text = False, emitted_meaningful_text = False,
     emitted_tool_call = False, hid_reasoning = False\<rparr>"

definition candidates_have_visible_text :: "pydict list option \<Rightarrow> bool" where
  "candidates_have_visible_text cs =
     (case cs of
        None \<Rightarrow> False
      | Some ds \<Rightarrow> list_ex (\<lambda>d. case map_of d ''text'' of Some (PStr t) \<Rightarrow> py_strip t \<noteq> [] | _ \<Rightarrow> False) ds)"

text \<open>One candidate of a terminal: the rewritten item, and whether text was hidden.\<close>

definition rewrite_candidate :: "suppress_options \<Rightarrow> pydict \<Rightarrow> pydict \<times> bool" where
  "rewrite_candidate opts item =
     (case map_of item ''text'' of
        Some (PStr t) \<Rightarrow>
          let (visible, reasoning) = split_thinking_blocks t (start_inside opts) (reasoning_fmt opts);
              item1 = (if visible \<noteq> t then od_set ''logprobs'' PNone (od_set ''text'' (PStr visible) item) else item);
              item2 = (if keep_thoughts opts \<and> reasoning \<noteq> []
                       then od_set ''reasoning_content'' (PStr reasoning) item1 else item1)
          in (item2, visible \<noteq> t)
      | _ \<Rightarrow> (item, False))"

text \<open>The chunks of all but the last run of reasoning and text.\<close>

primrec emit_parts :: "int \<Rightarrow> (string \<times> string) list \<Rightarrow> string \<Rightarrow> string \<Rightarrow> suppress_state \<Rightarrow>
    generation_chunk list \<times> string \<times> string \<times> suppress_state" where
  "emit_parts idx [] rd vd s = ([], rd, vd, s)"
| "emit_parts idx (p # ps) rd vd s =
     (let (reasoning, txt) = p;
          c = chunk0\<lparr>text_delta := txt, is_first := \<not> emitted_visible_text s, choice_index := idx,
                reasoning_delta := rd @ reasoning\<rparr>;
          (cs, rd', vd', s') = emit_parts idx ps [] (drop (length txt) vd)
            (s\<lparr>emitted_visible_text := True,
               emitted_meaningful_text := emitted_meaningful_text s \<or> py_strip txt \<noteq> []\<rparr>)
      in (c # cs, rd', vd', s'))"

definition stamp_empty :: "bool \<Rightarrow> generation_chunk \<Rightarrow> generation_chunk" where
  "stamp_empty hid c =
     c\<lparr>finish_reason := Some FR_error, error_code := Some ''empty_model_output'',
       error_message := Some (''model produced no visible output text'' @
         (if hid then '' (private reasoning consumed the generation budget)'' else []))\<rparr>"

text \<open>\<^verbatim>\<open>states.setdefault\<close>.\<close>

definition stripper_of :: "suppress_options \<Rightarrow> suppress_state \<Rightarrow> int \<Rightarrow> stripper" where
  "stripper_of opts s i =
     (case map_of (strippers s) i of
        Some st \<Rightarrow> st
      | None \<Rightarrow> new_stripper (start_inside opts) (reasoning_fmt opts) (keep_thoughts opts))"

text \<open>The text of a chunk goes through the stripper of its choice, which is flushed at its end.\<close>

definition strip_delta :: "generation_chunk \<Rightarrow> stripper \<Rightarrow> string \<times> string \<times> (string \<times> string) list \<times> stripper" where
  "strip_delta c st =
     (let (v1, st1) = feed (text_delta c) st;
          (v2, st2) = (if is_done c \<or> finish_reason c \<noteq> None then finish st1 else ([], st1));
          (ps, st3) = take_parts st2
      in (v1, v2, ps, st3))"

definition empty_terminal :: "suppress_state \<Rightarrow> generation_chunk \<Rightarrow> bool" where
  "empty_terminal s r =
     (is_done r \<and> \<not> emitted_meaningful_text s \<and> \<not> emitted_tool_call s \<and> error_code r = None
      \<and> (finish_reason r = Some FR_stop \<or> finish_reason r = Some FR_length)
      \<and> \<not> candidates_have_visible_text (candidates r))"

text \<open>The chunk itself, rewritten, after its early runs.\<close>

definition rewrite_chunk :: "generation_chunk \<Rightarrow> pydict list option \<Rightarrow> bool \<Rightarrow> string \<Rightarrow> string \<Rightarrow> suppress_state \<Rightarrow>
    generation_chunk \<times> suppress_state" where
  "rewrite_chunk c cands hides rd vd s =
     (let s' = s\<lparr>emitted_visible_text := emitted_visible_text s \<or> vd \<noteq> [],
                 emitted_meaningful_text := emitted_meaningful_text s \<or> py_strip vd \<noteq> [],
                 emitted_tool_call := emitted_tool_call s \<or> tool_call_delta c \<noteq> None,
                 hid_reasoning := hid_reasoning s \<or> hides\<rparr>;
          r = c\<lparr>text_delta := vd, is_first := (vd \<noteq> [] \<and> \<not> emitted_visible_text s),
                logprobs := (if hides then None else logprobs c), candidates := cands, reasoning_delta := rd\<rparr>
      in (if empty_terminal s' r then stamp_empty (hid_reasoning s') r else r, s'))"

definition suppress_chunk :: "suppress_options \<Rightarrow> generation_chunk \<Rightarrow> suppress_state \<Rightarrow>
    generation_chunk list \<times> suppress_state" where
  "suppress_chunk opts c s0 =
     (let rewritten = map_option (map (rewrite_candidate opts)) (candidates c);
          s = s0\<lparr>hid_reasoning := hid_reasoning s0 \<or>
                 (case rewritten of None \<Rightarrow> False | Some ds \<Rightarrow> list_ex snd ds)\<rparr>;
          idx = choice_index c;
          st = stripper_of opts s idx;
          (v1, v2, ps, st3) = strip_delta c st;
          (early, rd, vd, s1) = emit_parts idx (butlast ps) (reasoning_delta c) (v1 @ v2)
            (s\<lparr>strippers := od_set idx st3 (strippers s)\<rparr>);
          (r, s2) = rewrite_chunk c (map_option (map fst) rewritten) (v1 \<noteq> text_delta c \<or> inside st)
            (if ps \<noteq> [] then rd @ fst (last ps) else rd) vd s1
      in (early @ [r], s2))"

primrec suppress_thinking_blocks :: "suppress_options \<Rightarrow> generation_chunk list \<Rightarrow> suppress_state \<Rightarrow>
    generation_chunk list" where
  "suppress_thinking_blocks opts [] s = []"
| "suppress_thinking_blocks opts (c # cs) s =
     (let (out, s') = suppress_chunk opts c s in out @ suppress_thinking_blocks opts cs s')"

section \<open>Choices are filtered independently\<close>

abbreviation shown_of :: "stripper \<Rightarrow> string" where
  "shown_of st \<equiv> concat (map snd (parts st))"

lemma concat_snd_last: "xs \<noteq> [] \<Longrightarrow> concat (map snd xs) = concat (map snd (butlast xs)) @ snd (last xs)"
  by (induction xs) auto

lemma shown_hide: "shown_of (hide_text t st) = shown_of st"
  by (auto simp: hide_text_def concat_snd_last)

lemma shown_show: "shown_of (snd (show_text t st)) = shown_of st @ (if keep_reasoning st then t else [])"
  by (auto simp: show_text_def split_beta Let_def concat_snd_last)

lemma parts_unkept: "\<not> keep_reasoning st \<Longrightarrow> hide_text t st = st \<and> snd (show_text t st) = st"
  by (simp add: hide_text_def show_text_def)

lemma feed_loop_parts:
  "keep_reasoning (snd (feed_loop st)) = keep_reasoning st \<and> rformat (snd (feed_loop st)) = rformat st \<and>
   shown_of (snd (feed_loop st)) = shown_of st @ (if keep_reasoning st then fst (feed_loop st) else []) \<and>
   (\<not> keep_reasoning st \<longrightarrow> parts (snd (feed_loop st)) = parts st)"
proof (induction st rule: feed_loop.induct)
  case (1 st)
  show ?case
  proof (cases st rule: feed_loop_cases)
    case empty
    then show ?thesis by (simp add: feed_empty)
  next
    case (in_found k)
    show ?thesis
      using "1.IH"(1) [OF refl in_found] feed_inside_found [OF in_found(2,3)] parts_unkept [of st]
      by (simp add: shown_hide)
  next
    case in_none
    then show ?thesis using feed_inside_none [OF in_none refl] parts_unkept [of st] by (simp add: shown_hide)
  next
    case (out_found k m)
    show ?thesis
      using "1.IH"(2) [OF refl out_found refl refl surjective_pairing [symmetric]]
        feed_outside_found [OF out_found(2,3)] parts_unkept [of st]
      by (simp add: shown_show split_beta Let_def)
  next
    case out_none
    then show ?thesis using feed_outside_none [OF out_none refl] parts_unkept [of st] by (simp add: shown_show)
  qed
qed

text \<open>What is shown does not depend on what is kept of the hidden text.\<close>

definition view :: "stripper \<Rightarrow> string \<times> bool \<times> reasoning_format" where
  "view st = (buffer st, inside st, rformat st)"

lemma view_simps [simp]:
  "view (hide_text t st) = view st" "view (snd (show_text t st)) = view st" "view (st\<lparr>parts := ps\<rparr>) = view st"
  by (simp_all add: view_def)

lemma feed_loop_view:
  "view st = view st' \<Longrightarrow>
   fst (feed_loop st) = fst (feed_loop st') \<and> view (snd (feed_loop st)) = view (snd (feed_loop st'))"
proof (induction st arbitrary: st' rule: feed_loop.induct)
  case (1 st)
  then have v: "buffer st' = buffer st" "inside st' = inside st" "rformat st' = rformat st"
    by (simp_all add: view_def)
  show ?case
  proof (cases st rule: feed_loop_cases)
    case empty
    then show ?thesis using v by (simp add: feed_empty view_def)
  next
    case (in_found k)
    show ?thesis
      using "1.IH"(1) [OF refl in_found, of "(hide_text (take k (buffer st)) st')
          \<lparr>buffer := drop (k + length (s_close st)) (buffer st), inside := False\<rparr>"]
        feed_inside_found [OF in_found(2,3)] feed_inside_found [of st' k] in_found v
      by (simp add: view_def)
  next
    case in_none
    then show ?thesis
      using feed_inside_none [OF in_none refl] feed_inside_none [of st' _] v by (simp add: view_def)
  next
    case (out_found k m)
    show ?thesis
      using "1.IH"(2) [OF refl out_found refl refl surjective_pairing [symmetric],
          of "(snd (show_text (take k (buffer st)) st'))
            \<lparr>buffer := drop (k + length m) (buffer st), inside := (m = s_open st)\<rparr>"]
        feed_outside_found [OF out_found(2,3)] feed_outside_found [of st' k m] out_found v
      by (simp add: view_def split_beta Let_def)
  next
    case out_none
    then show ?thesis
      using feed_outside_none [OF out_none refl] feed_outside_none [of st' _] v by (simp add: view_def)
  qed
qed

lemma feed_view:
  "view st = view st' \<Longrightarrow> fst (feed t st) = fst (feed t st') \<and> view (snd (feed t st)) = view (snd (feed t st'))"
  unfolding feed_def by (rule feed_loop_view) (simp add: view_def)

lemma feed_all_view:
  "view st = view st' \<Longrightarrow>
   fst (feed_all ts st) = fst (feed_all ts st') \<and> view (snd (feed_all ts st)) = view (snd (feed_all ts st'))"
proof (induction ts arbitrary: st st')
  case (Cons t ts)
  show ?case
    using feed_view [OF Cons.prems, of t] Cons.IH [of "snd (feed t st)" "snd (feed t st')"]
    by (simp add: split_beta Let_def)
qed simp

lemma finish_view: "view st = view st' \<Longrightarrow> fst (finish st) = fst (finish st')"
  by (simp add: finish_def view_def split_beta Let_def)

definition ends_choice :: "generation_chunk \<Rightarrow> bool" where
  "ends_choice c = (is_done c \<or> finish_reason c \<noteq> None)"

definition feed_chunk :: "generation_chunk \<Rightarrow> stripper \<Rightarrow> string \<times> stripper" where
  "feed_chunk c st =
     (let (v1, st1) = feed (text_delta c) st; (v2, st2) = (if ends_choice c then finish st1 else ([], st1))
      in (v1 @ v2, st2\<lparr>parts := []\<rparr>))"

primrec strip_choice :: "generation_chunk list \<Rightarrow> stripper \<Rightarrow> string" where
  "strip_choice [] st = []"
| "strip_choice (c # cs) st = (let (v, st1) = feed_chunk c st in v @ strip_choice cs st1)"

lemma emit_parts_text:
  defines "e idx ps rd rest s \<equiv> emit_parts idx ps rd (concat (map snd ps) @ rest) s"
  shows "fst (snd (snd (e idx ps rd rest s))) = rest \<and>
    choice_text i (fst (e idx ps rd rest s)) = (if idx = i then concat (map snd ps) else []) \<and>
    strippers (snd (snd (snd (e idx ps rd rest s)))) = strippers s"
  unfolding e_def by (induction ps arbitrary: rd s) (simp_all add: split_beta Let_def)

lemma feed_parts: "keep_reasoning (snd (feed t st)) = keep_reasoning st"
  "shown_of (snd (feed t st)) = shown_of st @ (if keep_reasoning st then fst (feed t st) else [])"
  "\<not> keep_reasoning st \<Longrightarrow> parts (snd (feed t st)) = parts st"
  using feed_loop_parts [of "st\<lparr>buffer := buffer st @ t\<rparr>"] by (simp_all add: feed_def)

lemma finish_parts: "keep_reasoning (snd (finish st)) = keep_reasoning st"
  "shown_of (snd (finish st)) = shown_of st @ (if keep_reasoning st then fst (finish st) else [])"
  "\<not> keep_reasoning st \<Longrightarrow> parts (snd (finish st)) = parts st"
  using parts_unkept [of st] by (simp_all add: finish_def split_beta Let_def shown_hide shown_show)

text \<open>The runs a chunk leaves in the stripper make up the text it shows.\<close>

lemma chunk_runs:
  assumes "parts st = []" and "st1 = snd (feed t st)" and "st2 = (if e then snd (finish st1) else st1)"
    and "v = fst (feed t st) @ (if e then fst (finish st1) else [])"
  shows "\<exists>rest. v = concat (map snd (butlast (parts st2))) @ rest" and "keep_reasoning st2 = keep_reasoning st"
proof -
  have "(keep_reasoning st \<longrightarrow> shown_of st2 = v) \<and> (\<not> keep_reasoning st \<longrightarrow> parts st2 = []) \<and>
      keep_reasoning st2 = keep_reasoning st"
    using assms feed_parts [where st = st and t = t] finish_parts [of st1] by (cases e) auto
  then show "\<exists>rest. v = concat (map snd (butlast (parts st2))) @ rest" "keep_reasoning st2 = keep_reasoning st"
    using concat_snd_last [of "parts st2"] by (cases "parts st2 = []"; auto)+
qed

definition suppress_inv :: "suppress_options \<Rightarrow> suppress_state \<Rightarrow> bool" where
  "suppress_inv opts s = (\<forall>st \<in> ran (map_of (strippers s)). parts st = [])"

lemma stripper_of_upd [simp]: "stripper_of opts (s\<lparr>hid_reasoning := h\<rparr>) i = stripper_of opts s i"
  by (simp add: stripper_of_def)

lemma suppress_inv_of: "suppress_inv opts s \<Longrightarrow> parts (stripper_of opts s i) = []"
  by (auto simp: suppress_inv_def stripper_of_def new_stripper_def ran_def split: option.splits)

lemma stamp_empty_fields [simp]:
  "text_delta (stamp_empty h c) = text_delta c" "choice_index (stamp_empty h c) = choice_index c"
  "is_done (stamp_empty h c) = is_done c" "tool_call_delta (stamp_empty h c) = tool_call_delta c"
  by (simp_all add: stamp_empty_def)

lemma strip_delta_chunk:
  "feed_chunk c st = (let (v1, v2, ps, st3) = strip_delta c st in (v1 @ v2, st3))"
  by (simp add: feed_chunk_def strip_delta_def take_parts_def ends_choice_def split_beta Let_def)

lemma strip_delta_runs:
  assumes "parts st = []" and "strip_delta c st = (v1, v2, ps, st3)"
  shows "\<exists>rest. v1 @ v2 = concat (map snd (butlast ps)) @ rest"
  using assms(2) chunk_runs(1) [OF assms(1) refl refl refl, of "text_delta c" "ends_choice c"]
  by (auto simp: strip_delta_def take_parts_def ends_choice_def split_beta Let_def)

lemma rewrite_chunk_fields [simp]:
  "text_delta (fst (rewrite_chunk c cands h rd vd s)) = vd"
  "choice_index (fst (rewrite_chunk c cands h rd vd s)) = choice_index c"
  "strippers (snd (rewrite_chunk c cands h rd vd s)) = strippers s"
  by (simp_all add: rewrite_chunk_def Let_def)

lemma suppress_chunk_text:
  assumes "suppress_inv opts s" and "suppress_chunk opts c s = (out, s')"
  defines "st \<equiv> stripper_of opts s (choice_index c)"
  shows "choice_text i out = (if choice_index c = i then fst (feed_chunk c st) else [])"
    and "strippers s' = od_set (choice_index c) (snd (feed_chunk c st)) (strippers s)"
proof -
  obtain v1 v2 ps st3 where sd: "strip_delta c st = (v1, v2, ps, st3)" by (metis prod_cases4)
  obtain rest where rest: "v1 @ v2 = concat (map snd (butlast ps)) @ rest"
    using strip_delta_runs [OF _ sd] suppress_inv_of [OF assms(1)] st_def by blast
  note e = emit_parts_text [of "choice_index c" "butlast ps" "reasoning_delta c" rest]
  show "choice_text i out = (if choice_index c = i then fst (feed_chunk c st) else [])"
    "strippers s' = od_set (choice_index c) (snd (feed_chunk c st)) (strippers s)"
    using assms(2) e rest
    by (auto simp: suppress_chunk_def Let_def split_beta sd [unfolded st_def] st_def strip_delta_chunk)
qed

lemma suppress_chunk_inv:
  assumes "suppress_inv opts s" and "suppress_chunk opts c s = (out, s')"
  shows "suppress_inv opts s'"
    and "stripper_of opts s' i =
      (if choice_index c = i then snd (feed_chunk c (stripper_of opts s i)) else stripper_of opts s i)"
proof -
  have p: "parts (snd (feed_chunk c st)) = []" for st by (simp add: feed_chunk_def split_beta Let_def)
  show "suppress_inv opts s'"
    using assms(1) suppress_chunk_text(2) [OF assms]
    by (auto simp: suppress_inv_def map_of_od_set ran_def p split: if_splits)
  show "stripper_of opts s' i =
      (if choice_index c = i then snd (feed_chunk c (stripper_of opts s i)) else stripper_of opts s i)"
    using suppress_chunk_text(2) [OF assms] by (auto simp: stripper_of_def map_of_od_set)
qed

lemma suppress_text:
  assumes "suppress_inv opts s"
  shows "choice_text i (suppress_thinking_blocks opts cs s) =
    strip_choice (filter (\<lambda>c. choice_index c = i) cs) (stripper_of opts s i)"
  using assms
proof (induction cs arbitrary: s)
  case (Cons c cs)
  obtain out s' where o: "suppress_chunk opts c s = (out, s')" by fastforce
  show ?case
    using suppress_chunk_text(1) [OF Cons.prems o, of i] suppress_chunk_inv(1) [OF Cons.prems o]
      suppress_chunk_inv(2) [OF Cons.prems o, of i] Cons.IH [of s'] o
    by (auto simp: split_beta Let_def)
qed simp

lemma strip_choice_feed:
  assumes "\<forall>c \<in> set ds. \<not> ends_choice c" and "ends_choice d"
  shows "strip_choice (ds @ [d]) st =
    (let (v, st1) = feed_all (map text_delta (ds @ [d])) st in v @ fst (finish st1))"
  using assms(1)
proof (induction ds arbitrary: st)
  case Nil
  then show ?case using assms(2) by (simp add: feed_chunk_def split_beta Let_def)
next
  case (Cons c ds)
  let ?st1 = "snd (feed (text_delta c) st)" and ?ts = "map text_delta (ds @ [d])"
  have fv: "fst (feed_all ?ts (?st1\<lparr>parts := []\<rparr>)) = fst (feed_all ?ts ?st1) \<and>
      view (snd (feed_all ?ts (?st1\<lparr>parts := []\<rparr>))) = view (snd (feed_all ?ts ?st1))"
    by (rule feed_all_view) simp
  then have "fst (finish (snd (feed_all ?ts (?st1\<lparr>parts := []\<rparr>)))) = fst (finish (snd (feed_all ?ts ?st1)))"
    by (intro finish_view) blast
  moreover have "feed_chunk c st = (fst (feed (text_delta c) st), ?st1\<lparr>parts := []\<rparr>)"
    using Cons.prems by (simp add: feed_chunk_def split_beta Let_def)
  ultimately show ?case
    using fv Cons.IH [of "?st1\<lparr>parts := []\<rparr>"] Cons.prems by (simp add: split_beta Let_def)
qed

lemma split_feed_all:
  "fst (split_thinking_blocks (concat ts) i f) =
    (let (v, st1) = feed_all ts (new_stripper i f k) in v @ fst (finish st1))"
proof -
  have b: "buffer (new_stripper i f x) = []" for x by (simp add: new_stripper_def)
  have v: "view (new_stripper i f k) = view (new_stripper i f True)" by (simp add: view_def new_stripper_def)
  have "fst (finish (snd (feed_all ts (new_stripper i f k)))) = fst (finish (snd (feed_all ts (new_stripper i f True))))"
    using feed_all_view [OF v, of ts] by (intro finish_view) blast
  then show ?thesis
    using feed_all_view [OF v, of ts] feed_all_concat [OF b, of ts True]
    by (simp add: split_thinking_blocks_def split_beta Let_def)
qed

section \<open>A stream with nothing to show\<close>

abbreviation blank :: "generation_chunk list \<Rightarrow> bool" where
  "blank cs \<equiv> \<forall>c \<in> set cs. py_strip (text_delta c) = []"

lemma emit_parts_flags:
  defines "e idx ps rd vd s \<equiv> emit_parts idx ps rd vd s"
  shows "emitted_tool_call (snd (snd (snd (e idx ps rd vd s)))) = emitted_tool_call s \<and>
    (emitted_meaningful_text (snd (snd (snd (e idx ps rd vd s)))) \<longleftrightarrow>
      emitted_meaningful_text s \<or> \<not> blank (fst (e idx ps rd vd s)))"
  unfolding e_def by (induction ps arbitrary: rd vd s) (auto simp: split_beta Let_def)

lemma suppress_chunkE:
  assumes "suppress_chunk opts c s = (out, s')"
  obtains early ps rd0 vd0 s0 rd rd' vd s1 cands h r where
    "emit_parts (choice_index c) ps rd0 vd0 s0 = (early, rd, vd, s1)"
    "emitted_meaningful_text s0 = emitted_meaningful_text s" "emitted_tool_call s0 = emitted_tool_call s"
    "rewrite_chunk c cands h rd' vd s1 = (r, s')" "out = early @ [r]"
  using assms unfolding suppress_chunk_def Let_def
  by (clarsimp split: prod.splits)

lemma rewrite_chunk_flags:
  "emitted_meaningful_text (snd (rewrite_chunk c cands h rd vd s)) \<longleftrightarrow> emitted_meaningful_text s \<or> py_strip vd \<noteq> []"
  "emitted_tool_call (snd (rewrite_chunk c cands h rd vd s)) \<longleftrightarrow> emitted_tool_call s \<or> tool_call_delta c \<noteq> None"
  by (simp_all add: rewrite_chunk_def Let_def)

lemma suppress_chunk_flags:
  assumes "suppress_chunk opts c s = (out, s')"
  shows "emitted_meaningful_text s' \<longleftrightarrow> emitted_meaningful_text s \<or> \<not> blank out"
    and "emitted_tool_call s' \<longleftrightarrow> emitted_tool_call s \<or> tool_call_delta c \<noteq> None"
    and "out \<noteq> []"
proof -
  obtain early ps rd0 vd0 s0 rd rd' vd s1 cands h r where
    e: "emit_parts (choice_index c) ps rd0 vd0 s0 = (early, rd, vd, s1)"
    and f: "emitted_meaningful_text s0 = emitted_meaningful_text s" "emitted_tool_call s0 = emitted_tool_call s"
    and r: "rewrite_chunk c cands h rd' vd s1 = (r, s')" and out: "out = early @ [r]"
    using suppress_chunkE [OF assms] by metis
  have "text_delta r = vd" using rewrite_chunk_fields(1) [of c cands h rd' vd s1] r by simp
  then show "emitted_meaningful_text s' \<longleftrightarrow> emitted_meaningful_text s \<or> \<not> blank out"
    "emitted_tool_call s' \<longleftrightarrow> emitted_tool_call s \<or> tool_call_delta c \<noteq> None" "out \<noteq> []"
    using emit_parts_flags [of "choice_index c" ps rd0 vd0 s0] rewrite_chunk_flags [of c cands h rd' vd s1] e f r out by auto
qed

lemma stamped_terminal:
  assumes "suppress_chunk opts c s = (out, s')" and "is_done c" and "error_code c = None"
    and "finish_reason c = Some FR_stop \<or> finish_reason c = Some FR_length"
  shows "error_code (last out) = Some ''empty_model_output'' \<longleftrightarrow>
    \<not> emitted_meaningful_text s' \<and> \<not> emitted_tool_call s' \<and> \<not> candidates_have_visible_text (candidates (last out))"
proof -
  obtain early cands h rd vd s1 r where r: "rewrite_chunk c cands h rd vd s1 = (r, s')" and out: "out = early @ [r]"
    using suppress_chunkE [OF assms(1)] by metis
  have "error_code r = Some ''empty_model_output'' \<longleftrightarrow>
      \<not> emitted_meaningful_text s' \<and> \<not> emitted_tool_call s' \<and> \<not> candidates_have_visible_text (candidates r)"
    using r assms(2-) by (auto simp: rewrite_chunk_def Let_def stamp_empty_def empty_terminal_def split: if_splits)
  then show ?thesis by (simp add: out)
qed

lemma suppress_nonempty: "cs \<noteq> [] \<Longrightarrow> suppress_thinking_blocks opts cs s \<noteq> []"
proof (induction cs arbitrary: s)
  case (Cons c cs)
  then show ?case using suppress_chunk_flags(3) [of opts c s] by (cases "suppress_chunk opts c s") auto
qed simp

lemma stamped_stream:
  assumes "is_done c" and "error_code c = None"
    and "finish_reason c = Some FR_stop \<or> finish_reason c = Some FR_length"
  shows "error_code (last (suppress_thinking_blocks opts (cs @ [c]) s)) = Some ''empty_model_output'' \<longleftrightarrow>
    \<not> emitted_meaningful_text s \<and> \<not> emitted_tool_call s \<and> blank (suppress_thinking_blocks opts (cs @ [c]) s) \<and>
    (\<forall>d \<in> set (cs @ [c]). tool_call_delta d = None) \<and>
    \<not> candidates_have_visible_text (candidates (last (suppress_thinking_blocks opts (cs @ [c]) s)))"
proof (induction cs arbitrary: s)
  case Nil
  obtain out s' where o: "suppress_chunk opts c s = (out, s')" by fastforce
  show ?case using stamped_terminal [OF o assms(1-3)] suppress_chunk_flags(1,2) [OF o] o by auto
next
  case (Cons d cs)
  obtain out s' where o: "suppress_chunk opts d s = (out, s')" by fastforce
  show ?case
    using Cons [of s'] suppress_chunk_flags(1,2) [OF o] suppress_nonempty [of "cs @ [c]" opts s'] o by auto
qed

section \<open>Properties\<close>

text \<open>
  C2. Reasoning is hidden however the engine cuts the text into chunks: feeding the pieces one
  by one and finishing shows and keeps exactly what \<open>_split_thinking_blocks\<close> makes of the
  whole text, so a marker split across chunks neither leaks nor swallows anything.
\<close>

theorem thinking_chunking_invariant:
  "(let (v, st) = feed_all ts (new_stripper i f True); (w, st') = finish st
    in (v @ w, fst (take_reasoning st'))) = split_thinking_blocks (concat ts) i f"
proof -
  have "buffer (new_stripper i f True) = []" by (simp add: new_stripper_def)
  from feed_all_concat [OF this, of ts] show ?thesis
    by (simp add: split_thinking_blocks_def split_beta Let_def)
qed

text \<open>
  C4. Exactly the ordinary text is shown and exactly the reasoning is kept back: for texts made
  of ordinary runs and reasoning blocks, also when reasoning began in the prompt, and also
  when the last block is cut off before its closing marker.
\<close>

theorem thinking_split_exact:
  assumes "\<forall>(p, r) \<in> set bs. unmarked f p \<and> unclosed f r" and "unmarked f t"
    and "unclosed f r0" and "unclosed f rc"
  shows "split_thinking_blocks (prompt_tail i f r0 @ blocks_text f bs @ t) i f =
      (concat (map fst bs) @ t, (if i then r0 else []) @ concat (map snd bs)) \<and>
    split_thinking_blocks (prompt_tail i f r0 @ blocks_text f bs @ t @ fst (reasoning_boundaries f) @ rc) i f =
      (concat (map fst bs) @ t, (if i then r0 else []) @ concat (map snd bs) @ rc)"
proof
  obtain st where st: "\<not> inside st" "rformat st = f" "buffer st = t"
    "reasoning_of st = (if i then r0 else []) @ concat (map snd bs)"
    "drain ((new_stripper i f True)\<lparr>buffer := prompt_tail i f r0 @ blocks_text f bs @ t\<rparr>) =
      (let (v, st2) = drain st in (concat (map fst bs) @ v, st2))"
    by (rule drain_text [OF assms(1,3)])
  then show "split_thinking_blocks (prompt_tail i f r0 @ blocks_text f bs @ t) i f =
      (concat (map fst bs) @ t, (if i then r0 else []) @ concat (map snd bs))"
    using drain_outside [of st] assms(2) by (simp add: split_drain split_beta Let_def)
next
  let ?t = "t @ fst (reasoning_boundaries f) @ rc"
  obtain st where st: "\<not> inside st" "rformat st = f" "keep_reasoning st" "buffer st = ?t"
    "reasoning_of st = (if i then r0 else []) @ concat (map snd bs)"
    "drain ((new_stripper i f True)\<lparr>buffer := prompt_tail i f r0 @ blocks_text f bs @ ?t\<rparr>) =
      (let (v, st2) = drain st in (concat (map fst bs) @ v, st2))"
    by (rule drain_text [OF assms(1,3)])
  let ?st = "(snd (show_text t st))\<lparr>buffer := rc, inside := True\<rparr>"
  have "drain st = (let (v, st2) = drain ?st in (t @ v, st2))"
    using feed_open [of st t rc] st(1,2,4) assms(2)
    by (simp add: drain_def split_beta Let_def buffer_same [OF st(4)])
  then show "split_thinking_blocks (prompt_tail i f r0 @ blocks_text f bs @ ?t) i f =
      (concat (map fst bs) @ t, (if i then r0 else []) @ concat (map snd bs) @ rc)"
    using drain_inside [of ?st] assms(4) st by (simp add: split_drain split_beta Let_def reasoning_show)
qed

theorem thinking_split_exact_witness:
  "split_thinking_blocks (prompt_tail True Qwen3 ''plan'' @ blocks_text Qwen3 [(''Hi '', ''secret'')] @ ''bye'') True Qwen3 =
      (''Hi bye'', ''plansecret'') \<and>
   split_thinking_blocks (prompt_tail True Qwen3 ''plan'' @ blocks_text Qwen3 [(''Hi '', ''secret'')] @ ''bye'' @
      fst (reasoning_boundaries Qwen3) @ ''cut off'') True Qwen3 = (''Hi bye'', ''plansecretcut off'')"
proof -
  have u: "unmarked Qwen3 ''Hi ''" "unclosed Qwen3 ''secret''" "unmarked Qwen3 ''bye''" "unclosed Qwen3 ''plan''"
    "unclosed Qwen3 ''cut off''"
    by code_simp+
  show ?thesis
    using thinking_split_exact [of "[(''Hi '', ''secret'')]" Qwen3 "''bye''" "''plan''" "''cut off''" True] u by simp
qed

text \<open>
  C7. The stream wrapper filters every choice on its own: however the chunks of the choices
  interleave, the text it emits for a choice whose last chunk ends it is the visible part of
  that choice's whole text.
\<close>

theorem choices_filtered_independently:
  assumes "filter (\<lambda>c. choice_index c = i) cs = ds @ [d]" and "\<forall>c \<in> set ds. \<not> ends_choice c" and "ends_choice d"
  shows "choice_text i (suppress_thinking_blocks opts cs suppress_start) =
    fst (split_thinking_blocks (choice_text i cs) (start_inside opts) (reasoning_fmt opts))"
proof -
  have "suppress_inv opts suppress_start" by (simp add: suppress_inv_def suppress_start_def)
  moreover have "stripper_of opts suppress_start i =
      new_stripper (start_inside opts) (reasoning_fmt opts) (keep_thoughts opts)"
    by (simp add: stripper_of_def suppress_start_def)
  moreover have "choice_text i cs = concat (map text_delta (ds @ [d]))"
    by (simp only: choice_text_def assms(1))
  ultimately show ?thesis
    using suppress_text [of opts suppress_start i cs] strip_choice_feed [OF assms(2,3)] assms(1)
    by (simp only: split_feed_all [where k = "keep_thoughts opts"])
qed

definition demo_chunk :: "int \<Rightarrow> string \<Rightarrow> bool \<Rightarrow> generation_chunk" where
  "demo_chunk i t e = chunk0\<lparr>text_delta := t, choice_index := i, is_done := e,
     finish_reason := (if e then Some FR_stop else None)\<rparr>"

definition demo_options :: suppress_options where
  "demo_options = \<lparr>start_inside = False, reasoning_fmt = Qwen3, keep_thoughts = False\<rparr>"

theorem choices_filtered_independently_witness:
  "choice_text 1 (suppress_thinking_blocks demo_options
      [demo_chunk 1 ''a<thi'' False, demo_chunk 0 ''b'' False, demo_chunk 1 ''nk>x</think>c'' True] suppress_start) =
   fst (split_thinking_blocks
      (choice_text 1 [demo_chunk 1 ''a<thi'' False, demo_chunk 0 ''b'' False, demo_chunk 1 ''nk>x</think>c'' True])
      (start_inside demo_options) (reasoning_fmt demo_options))"
  by (rule choices_filtered_independently [where ds = "[demo_chunk 1 ''a<thi'' False]" and
        d = "demo_chunk 1 ''nk>x</think>c'' True"])
    (simp_all add: demo_chunk_def ends_choice_def)

text \<open>
  C34. A stream that ends normally is stamped with the error \<open>empty_model_output\<close> exactly when
  it showed nothing: every emitted text is blank, no chunk carried a tool call and no
  candidate of the terminal has visible text.
\<close>

theorem empty_output_fails_closed:
  assumes "is_done c" and "error_code c = None"
    and "finish_reason c = Some FR_stop \<or> finish_reason c = Some FR_length"
  shows "error_code (last (suppress_thinking_blocks opts (cs @ [c]) suppress_start)) = Some ''empty_model_output'' \<longleftrightarrow>
    (\<forall>o' \<in> set (suppress_thinking_blocks opts (cs @ [c]) suppress_start). py_strip (text_delta o') = []) \<and>
    (\<forall>d \<in> set (cs @ [c]). tool_call_delta d = None) \<and>
    \<not> candidates_have_visible_text (candidates (last (suppress_thinking_blocks opts (cs @ [c]) suppress_start)))"
  using stamped_stream [OF assms, of opts cs suppress_start] by (simp add: suppress_start_def)

theorem empty_output_fails_closed_witness:
  "error_code (last (suppress_thinking_blocks demo_options
     [demo_chunk 0 ''<think>all of it'' False, demo_chunk 0 '' budget'' True] suppress_start)) = Some ''empty_model_output''"
proof -
  let ?cs = "[demo_chunk 0 ''<think>all of it'' False]" and ?c = "demo_chunk 0 '' budget'' True"
  have "\<forall>o' \<in> set (suppress_thinking_blocks demo_options (?cs @ [?c]) suppress_start). py_strip (text_delta o') = []"
    "\<forall>d \<in> set (?cs @ [?c]). tool_call_delta d = None"
    "\<not> candidates_have_visible_text (candidates (last (suppress_thinking_blocks demo_options (?cs @ [?c]) suppress_start)))"
    "is_done ?c" "error_code ?c = None" "finish_reason ?c = Some FR_stop \<or> finish_reason ?c = Some FR_length"
    by code_simp+
  with empty_output_fails_closed [of ?c demo_options ?cs] show ?thesis by simp
qed

end
