(* ===== verification/Generation_Collect.thy ===== *)
theory Generation_Collect
  imports Thinking_Blocks
begin

text \<open>
  The buffered consumer of a generation stream, \<^verbatim>\<open>collect_generation\<close> of
  \<^verbatim>\<open>adapters/_generation_base.py\<close>, composed with the filter for reasoning blocks: the
  collected answer is the visible text of the whole generation, and a generation that
  showed nothing is collected as an error.
\<close>

record generation_result =
  res_text :: string
  res_finish_reason :: finish_reason
  res_prompt_tokens :: int
  res_completion_tokens :: int
  res_error_code :: "string option"
  res_error_message :: "string option"
  res_cached_tokens :: "int option"
  res_upstream_reason :: "string option"

definition result0 :: generation_result where
  "result0 = \<lparr>res_text = [], res_finish_reason = FR_stop, res_prompt_tokens = 0, res_completion_tokens = 0,
     res_error_code = None, res_error_message = None, res_cached_tokens = None, res_upstream_reason = None\<rparr>"

definition or_else :: "'a option \<Rightarrow> 'a \<Rightarrow> 'a" where
  "or_else v d = (case v of None \<Rightarrow> d | Some x \<Rightarrow> x)"

text \<open>The loop: text is appended, the terminal chunk sets the rest and ends it.\<close>

fun collect_loop :: "generation_chunk list \<Rightarrow> generation_result \<Rightarrow> generation_result" where
  "collect_loop [] r = r"
| "collect_loop (c # cs) r =
     (let r1 = r\<lparr>res_text := res_text r @ text_delta c\<rparr>
      in if is_done c
         then r1\<lparr>res_finish_reason := or_else (finish_reason c) FR_stop,
                 res_prompt_tokens := or_else (prompt_tokens c) (res_prompt_tokens r1),
                 res_completion_tokens := or_else (completion_tokens c) (res_completion_tokens r1),
                 res_error_code := error_code c, res_error_message := error_message c,
                 res_cached_tokens := cached_tokens c, res_upstream_reason := upstream_reason c\<rparr>
         else collect_loop cs r1)"

definition collect_generation :: "generation_chunk list \<Rightarrow> generation_result" where
  "collect_generation cs = collect_loop cs result0"

section \<open>Collecting a filtered stream\<close>

lemma collect_loop_text:
  "\<forall>c \<in> set cs. \<not> is_done c \<Longrightarrow> is_done d \<Longrightarrow>
   res_text (collect_loop (cs @ d # ds) r) = res_text r @ concat (map text_delta (cs @ [d]))"
  by (induction cs arbitrary: r) simp_all

lemma collect_loop_terminal:
  "\<forall>c \<in> set cs. \<not> is_done c \<Longrightarrow> is_done d \<Longrightarrow>
   res_error_code (collect_loop (cs @ d # ds) r) = error_code d \<and>
   res_finish_reason (collect_loop (cs @ d # ds) r) = or_else (finish_reason d) FR_stop"
  by (induction cs arbitrary: r) simp_all

lemma emit_parts_chunks:
  "\<forall>c \<in> set (fst (emit_parts idx ps rd vd s)). \<not> is_done c \<and> choice_index c = idx"
  by (induction ps arbitrary: rd vd s) (auto simp: split_beta Let_def)

lemma rewrite_chunk_done: "is_done (fst (rewrite_chunk c cands h rd vd s)) = is_done c"
  by (simp add: rewrite_chunk_def Let_def)

text \<open>A chunk comes out as chunks of its choice, of which only the last may be terminal.\<close>

lemma suppress_chunk_shape:
  assumes "suppress_chunk opts c s = (out, s')"
  obtains early r where "out = early @ [r]" "\<forall>x \<in> set early. \<not> is_done x" "is_done r = is_done c"
    "\<forall>x \<in> set out. choice_index x = choice_index c"
proof -
  obtain early ps rd0 vd0 s0 rd rd' vd s1 cands h r where
    e: "emit_parts (choice_index c) ps rd0 vd0 s0 = (early, rd, vd, s1)"
    and r: "rewrite_chunk c cands h rd' vd s1 = (r, s')" and out: "out = early @ [r]"
    by (rule suppress_chunkE [OF assms])
  have "is_done r = is_done c" "choice_index r = choice_index c"
    using rewrite_chunk_done [of c cands h rd' vd s1] rewrite_chunk_fields(2) [of c cands h rd' vd s1] r by simp_all
  with that out show thesis using emit_parts_chunks [of "choice_index c" ps rd0 vd0 s0] e by auto
qed

lemma suppress_not_done:
  "\<forall>c \<in> set cs. \<not> is_done c \<Longrightarrow> \<forall>x \<in> set (suppress_thinking_blocks opts cs s). \<not> is_done x"
proof (induction cs arbitrary: s)
  case (Cons c cs)
  obtain out s' where o: "suppress_chunk opts c s = (out, s')" by fastforce
  then obtain early r where "out = early @ [r]" "\<forall>x \<in> set early. \<not> is_done x" "is_done r = is_done c"
    by (rule suppress_chunk_shape)
  with Cons o show ?case by auto
qed simp

lemma suppress_choice:
  "\<forall>c \<in> set cs. choice_index c = i \<Longrightarrow> \<forall>x \<in> set (suppress_thinking_blocks opts cs s). choice_index x = i"
proof (induction cs arbitrary: s)
  case (Cons c cs)
  obtain out s' where o: "suppress_chunk opts c s = (out, s')" by fastforce
  then have "\<forall>x \<in> set out. choice_index x = choice_index c" by (rule suppress_chunk_shape) blast
  with Cons o show ?case by auto
qed simp

lemma choice_text_all: "\<forall>c \<in> set cs. choice_index c = i \<Longrightarrow> choice_text i cs = concat (map text_delta cs)"
  by (simp add: choice_text_def)

text \<open>The state of the filter after some chunks.\<close>

primrec suppress_after :: "suppress_options \<Rightarrow> generation_chunk list \<Rightarrow> suppress_state \<Rightarrow> suppress_state" where
  "suppress_after opts [] s = s"
| "suppress_after opts (c # cs) s = suppress_after opts cs (snd (suppress_chunk opts c s))"

lemma suppress_append:
  "suppress_thinking_blocks opts (cs @ ds) s =
    suppress_thinking_blocks opts cs s @ suppress_thinking_blocks opts ds (suppress_after opts cs s)"
  by (induction cs arbitrary: s) (simp_all add: split_beta Let_def)

lemma suppress_terminated:
  assumes "\<forall>c \<in> set cs. \<not> is_done c" and "is_done d"
  obtains early r where "suppress_thinking_blocks opts (cs @ [d]) s = early @ [r]" "\<forall>x \<in> set early. \<not> is_done x" "is_done r"
proof -
  obtain out s' where o: "suppress_chunk opts d (suppress_after opts cs s) = (out, s')" by fastforce
  obtain early r where "out = early @ [r]" "\<forall>x \<in> set early. \<not> is_done x" "is_done r = is_done d"
    using suppress_chunk_shape [OF o] by metis
  with that [of "suppress_thinking_blocks opts cs s @ early" r] suppress_not_done [OF assms(1), of opts s] assms(2) o
  show thesis by (auto simp: suppress_append)
qed

text \<open>What the filter emits for a choice on its own.\<close>

lemma suppress_visible:
  assumes "\<forall>c \<in> set (cs @ [d]). choice_index c = i" and "\<forall>c \<in> set cs. \<not> ends_choice c" and "ends_choice d"
  shows "choice_text i (suppress_thinking_blocks opts (cs @ [d]) suppress_start) =
    fst (split_thinking_blocks (concat (map text_delta (cs @ [d]))) (start_inside opts) (reasoning_fmt opts))"
proof -
  have "choice_text i (suppress_thinking_blocks opts (cs @ [d]) suppress_start) =
      strip_choice (cs @ [d]) (stripper_of opts suppress_start i)"
    using suppress_text [of opts suppress_start i "cs @ [d]"] assms(1) by (simp add: suppress_inv_def suppress_start_def)
  also have "\<dots> = fst (split_thinking_blocks (concat (map text_delta (cs @ [d]))) (start_inside opts) (reasoning_fmt opts))"
    unfolding strip_choice_feed [OF assms(2,3)] split_feed_all [where k = "keep_thoughts opts"]
    by (simp add: stripper_of_def suppress_start_def)
  finally show ?thesis .
qed

section \<open>Properties\<close>

text \<open>
  The collected answer is the visible answer: draining the filtered stream of one choice
  gives the visible part of its whole text, however the engine cut it into chunks.
\<close>

theorem collected_answer_visible:
  assumes "\<forall>c \<in> set (cs @ [d]). choice_index c = i" and "\<forall>c \<in> set cs. \<not> ends_choice c" and "is_done d"
  shows "res_text (collect_generation (suppress_thinking_blocks opts (cs @ [d]) suppress_start)) =
    fst (split_thinking_blocks (concat (map text_delta (cs @ [d]))) (start_inside opts) (reasoning_fmt opts))"
proof -
  let ?out = "suppress_thinking_blocks opts (cs @ [d]) suppress_start"
  have nd: "\<forall>c \<in> set cs. \<not> is_done c" and e: "ends_choice d" using assms(2,3) by (auto simp: ends_choice_def)
  obtain early r where out: "?out = early @ [r]" "\<forall>x \<in> set early. \<not> is_done x" "is_done r"
    by (rule suppress_terminated [OF nd assms(3)])
  then have "res_text (collect_generation ?out) = concat (map text_delta ?out)"
    using collect_loop_text [of early r "[]" result0] by (simp add: collect_generation_def result0_def)
  also have "\<dots> = choice_text i ?out" using suppress_choice [OF assms(1)] by (simp add: choice_text_all)
  also have "\<dots> = fst (split_thinking_blocks (concat (map text_delta (cs @ [d]))) (start_inside opts) (reasoning_fmt opts))"
    by (rule suppress_visible [OF assms(1,2) e])
  finally show ?thesis .
qed

theorem collected_answer_visible_witness:
  "res_text (collect_generation (suppress_thinking_blocks demo_options
     ([demo_chunk 0 ''a<thi'' False, demo_chunk 0 ''nk>x</th'' False] @ [demo_chunk 0 ''ink>b'' True]) suppress_start)) =
   fst (split_thinking_blocks (concat (map text_delta
     ([demo_chunk 0 ''a<thi'' False, demo_chunk 0 ''nk>x</th'' False] @ [demo_chunk 0 ''ink>b'' True])))
     (start_inside demo_options) (reasoning_fmt demo_options))"
  by (rule collected_answer_visible [where i = 0]) (simp_all add: demo_chunk_def ends_choice_def)

text \<open>
  A generation that showed nothing is collected with the error code and with finish reason
  \<open>error\<close>; the docstring of \<open>collect_generation\<close> says it keeps \<open>stop\<close> or \<open>length\<close>.
\<close>

theorem empty_output_finish_reason:
  "let r = collect_generation (suppress_thinking_blocks demo_options
     [demo_chunk 0 ''<think>all of the budget'' True] suppress_start)
   in finish_reason (demo_chunk 0 ''<think>all of the budget'' True) = Some FR_stop \<and> res_text r = [] \<and>
      res_error_code r = Some ''empty_model_output'' \<and> res_finish_reason r = FR_error"
  by code_simp

end
