(* ===== verification/Tool_Call_Parser.thy ===== *)
theory Tool_Call_Parser
  imports Tool_Schema
begin

text \<open>
  The streaming parser for tagged tool calls, \<^verbatim>\<open>processors/tool_call_parser.py\<close>. A block
  between \<^verbatim>\<open><tool_call>\<close> and \<^verbatim>\<open></tool_call>\<close> holds a call in one of three encodings; the
  text around it is passed on. A scan position of the source is the rest of the text from
  that position on, and a \<open>ValueError\<close> is \<open>Inl\<close> of its message.
\<close>

section \<open>The encodings of a call\<close>

datatype tool_call_format = TF_auto | TF_qwen_xml | TF_hermes_json | TF_glm_xml | TF_muse_atem

definition tag_open :: string where "tag_open = ''<tool_call>''"

definition tag_close :: string where "tag_close = ''</tool_call>''"

definition max_tool_buffer_chars :: nat where "max_tool_buffer_chars = 256 * 1024"

definition max_text_buffer_chars :: nat where "max_text_buffer_chars = 256 * 1024"

definition max_tool_arguments_bytes :: nat where "max_tool_arguments_bytes = 2 * max_tool_buffer_chars"

definition max_xml_params :: nat where "max_xml_params = 256"

subsection \<open>XML\<close>

text \<open>The pattern \<^verbatim>\<open><function=([^>\s]+)\s*>\<close> at the start of the text.\<close>

definition match_function :: "string \<Rightarrow> string option" where
  "match_function s =
     (if py_startswith ''<function='' s
      then let r = drop 10 s;
               name = takeWhile (\<lambda>c. c \<noteq> CHR ''>'' \<and> \<not> is_space c) r;
               r' = dropWhile is_space (drop (length name) r)
           in if name \<noteq> [] \<and> r' \<noteq> [] \<and> hd r' = CHR ''>'' then Some name else None
      else None)"

fun search_function :: "string \<Rightarrow> string option" where
  "search_function [] = match_function []"
| "search_function (c # cs) =
     (case match_function (c # cs) of Some n \<Rightarrow> Some n | None \<Rightarrow> search_function cs)"

text \<open>
  The pattern \<^verbatim>\<open><parameter=([^<>]*[^<>\s])\s*>\<close>: the name without its trailing whitespace, and
  the text after the match.
\<close>

definition match_parameter :: "string \<Rightarrow> (string \<times> string) option" where
  "match_parameter s =
     (if py_startswith ''<parameter='' s
      then let r = drop 11 s;
               body = takeWhile (\<lambda>c. c \<noteq> CHR ''<'' \<and> c \<noteq> CHR ''>'') r;
               key = rev (dropWhile is_space (rev body));
               r' = drop (length body) r
           in if key \<noteq> [] \<and> r' \<noteq> [] \<and> hd r' = CHR ''>'' then Some (key, tl r') else None
      else None)"

fun search_parameter :: "string \<Rightarrow> (string \<times> string) option" where
  "search_parameter [] = match_parameter []"
| "search_parameter (c # cs) =
     (case match_parameter (c # cs) of Some m \<Rightarrow> Some m | None \<Rightarrow> search_parameter cs)"

definition remove_prefix :: "char \<Rightarrow> string \<Rightarrow> string" where
  "remove_prefix c s = (if s \<noteq> [] \<and> hd s = c then tl s else s)"

definition remove_suffix :: "char \<Rightarrow> string \<Rightarrow> string" where
  "remove_suffix c s = (if s \<noteq> [] \<and> last s = c then butlast s else s)"

text \<open>At most \<open>n\<close> parameters of the rest of the text.\<close>

primrec xml_params :: "py_lib \<Rightarrow> (string, pydict) odict \<Rightarrow> string \<Rightarrow> nat \<Rightarrow> string \<Rightarrow> pydict \<Rightarrow> pydict" where
  "xml_params lib schemas name 0 s args = args"
| "xml_params lib schemas name (Suc n) s args =
     (case search_parameter s of
        None \<Rightarrow> args
      | Some (key, r) \<Rightarrow>
          (case py_find ''</parameter>'' r of
             None \<Rightarrow> args
           | Some k \<Rightarrow>
               let val = remove_suffix CHR 0x0A (remove_prefix CHR 0x0A (take k r));
                   (schema, rdoc) = parameter_schema schemas name key
               in xml_params lib schemas name n (drop (k + 12) r)
                    (od_set key (convert_argument lib val schema rdoc) args)))"

definition parse_xml_tool_call :: "py_lib \<Rightarrow> (string, pydict) odict \<Rightarrow> string \<Rightarrow> string + pyval \<times> pyval" where
  "parse_xml_tool_call lib schemas raw =
     (case search_function raw of
        None \<Rightarrow> Inl ''malformed XML tool-call: missing <function=...>''
      | Some name \<Rightarrow> Inr (PStr name, PDict (xml_params lib schemas name max_xml_params raw [])))"

subsection \<open>Hermes JSON\<close>

definition parse_hermes_tool_call :: "py_lib \<Rightarrow> string \<Rightarrow> string + pyval \<times> pyval" where
  "parse_hermes_tool_call lib raw =
     (case json_loads lib raw of
        Inl msg \<Rightarrow> Inl (''malformed tool-call JSON: '' @ msg)
      | Inr (PDict d) \<Rightarrow> Inr (py_get d ''name'', py_get d ''arguments'')
      | Inr _ \<Rightarrow> Inl ''tool-call payload must be a JSON object'')"

subsection \<open>GLM\<close>

definition skip_whitespace :: "string \<Rightarrow> string" where
  "skip_whitespace s = dropWhile is_space s"

text \<open>The argument pairs, at most \<open>n\<close> of them; the result keeps what is left of the text.\<close>

primrec glm_args :: "py_lib \<Rightarrow> (string, pydict) odict \<Rightarrow> string \<Rightarrow> nat \<Rightarrow> string \<Rightarrow> pydict \<Rightarrow>
    string + pydict \<times> string" where
  "glm_args lib schemas name 0 s args = Inr (args, s)"
| "glm_args lib schemas name (Suc n) s0 args =
     (let s = skip_whitespace s0 in
      if s = [] then Inr (args, s)
      else if \<not> py_startswith ''<arg_key>'' s then Inl ''malformed GLM tool-call: expected <arg_key>''
      else
        (case py_find ''</arg_key>'' s of
           None \<Rightarrow> Inl ''malformed GLM tool-call: unterminated argument''
         | Some kc \<Rightarrow>
             let v = skip_whitespace (drop (kc + 10) s) in
             if \<not> py_startswith ''<arg_value>'' v then Inl ''malformed GLM tool-call: expected <arg_value>''
             else
               (case py_find ''</arg_value>'' v of
                  None \<Rightarrow> Inl ''malformed GLM tool-call: unterminated argument''
                | Some vc \<Rightarrow>
                    let key = py_strip (take (kc - 9) (drop 9 s)) in
                    if CHR ''<'' \<in> set key \<or> CHR ''>'' \<in> set key
                    then Inl ''malformed GLM tool-call: invalid argument key''
                    else
                      let value = take (vc - 11) (drop 11 v);
                          (schema, rdoc) = parameter_schema schemas name key
                      in glm_args lib schemas name n (drop (vc + 12) v)
                           (od_set key (convert_argument lib value schema rdoc) args))))"

definition parse_glm_tool_call :: "py_lib \<Rightarrow> (string, pydict) odict \<Rightarrow> string \<Rightarrow> string + pyval \<times> pyval" where
  "parse_glm_tool_call lib schemas raw =
     (let first_key = py_find ''<arg_key>'' raw;
          name = py_strip (case first_key of None \<Rightarrow> raw | Some k \<Rightarrow> take k raw)
      in if name = [] \<or> list_ex (\<lambda>c. is_space c \<or> c = CHR ''<'' \<or> c = CHR ''>'') name
         then Inl ''malformed GLM tool-call: invalid function name''
         else case glm_args lib schemas name max_xml_params (case first_key of None \<Rightarrow> [] | Some k \<Rightarrow> drop k raw) [] of
                Inl e \<Rightarrow> Inl e
              | Inr (args, r) \<Rightarrow>
                  if skip_whitespace r \<noteq> []
                  then Inl (''malformed GLM tool-call: more than '' @ show_nat max_xml_params @ '' arguments'')
                  else Inr (PStr name, PDict args))"

subsection \<open>The deltas of a block\<close>

definition parse_tool_call :: "py_lib \<Rightarrow> tool_call_format \<Rightarrow> (string, pydict) odict \<Rightarrow> string \<Rightarrow>
    string + pyval \<times> pyval" where
  "parse_tool_call lib fmt schemas raw =
     (case fmt of
        TF_qwen_xml \<Rightarrow> parse_xml_tool_call lib schemas raw
      | TF_muse_atem \<Rightarrow> parse_xml_tool_call lib schemas raw
      | TF_hermes_json \<Rightarrow> parse_hermes_tool_call lib raw
      | TF_glm_xml \<Rightarrow> parse_glm_tool_call lib schemas raw
      | TF_auto \<Rightarrow>
          if py_startswith ''<function='' raw then parse_xml_tool_call lib schemas raw
          else parse_hermes_tool_call lib raw)"

definition quoted :: "string \<Rightarrow> string" where
  "quoted s = CHR 0x27 # s @ [CHR 0x27]"

text \<open>\<open>site\<close> is the place the identifier is drawn for.\<close>

definition tool_call_deltas :: "py_lib \<Rightarrow> tool_call_format \<Rightarrow> (string, pydict) odict \<Rightarrow> string \<Rightarrow> nat \<Rightarrow> id_site \<Rightarrow>
    string + tool_call_delta list" where
  "tool_call_deltas lib fmt schemas raw index site =
     (case parse_tool_call lib fmt schemas (py_strip raw) of
        Inl e \<Rightarrow> Inl e
      | Inr (PStr name, arguments) \<Rightarrow>
          if name = [] then Inl (''tool-call payload missing string '' @ quoted ''name'')
          else
            (case json_dumps lib (if arguments = PNone then PDict [] else arguments) of
               Inl e \<Rightarrow> Inl (''tool-call '' @ quoted ''arguments'' @ '' is not JSON-serialisable: '' @ e)
             | Inr js \<Rightarrow>
                 if max_tool_arguments_bytes < utf8_size lib js
                 then Inl (''tool-call '' @ quoted ''arguments'' @ '' serialised to '' @ show_nat (utf8_size lib js) @
                           '' bytes, exceeds '' @ show_nat max_tool_arguments_bytes)
                 else Inr [\<lparr>call_index = index, call_id = Some (''call_'' @ take 24 (uuid_hex lib site)),
                            function_name = Some name, arguments_delta = []\<rparr>,
                           \<lparr>call_index = index, call_id = None, function_name = None, arguments_delta = js\<rparr>])
      | Inr _ \<Rightarrow> Inl (''tool-call payload missing string '' @ quoted ''name''))"

section \<open>One choice\<close>

record choice_state =
  text_buffer :: string
  in_tool_call :: bool
  tool_buffer :: string
  tool_index :: nat
  emitted_call :: bool
  first_emitted :: bool
  pending_finish :: "finish_reason option"
  pending_prompt_tokens :: "int option"
  pending_completion_tokens :: "int option"
  closed :: bool

definition choice0 :: choice_state where
  "choice0 = \<lparr>text_buffer = [], in_tool_call = False, tool_buffer = [], tool_index = 0, emitted_call = False,
     first_emitted = False, pending_finish = None, pending_prompt_tokens = None, pending_completion_tokens = None,
     closed = False\<rparr>"

record parser_options =
  call_format :: tool_call_format
  parallel_tool_calls :: bool
  schemas :: "(string, pydict) odict"
  lib :: py_lib

definition mark_first :: "choice_state \<Rightarrow> bool \<Rightarrow> bool \<times> choice_state" where
  "mark_first st hint = (if first_emitted st \<or> \<not> hint then (False, st) else (True, st\<lparr>first_emitted := True\<rparr>))"

definition parse_error_chunk :: "string \<Rightarrow> generation_chunk" where
  "parse_error_chunk msg =
     chunk0\<lparr>is_done := True, finish_reason := Some FR_error, error_code := Some ''MODEL_OUTPUT_PARSE_ERROR'',
       error_message := Some msg\<rparr>"

definition parallel_violation_chunk :: generation_chunk where
  "parallel_violation_chunk =
     chunk0\<lparr>is_done := True, finish_reason := Some FR_error, error_code := Some ''parallel_tool_calls_violated'',
       error_message := Some (''model attempted a second tool call but parallel_tool_calls=false was set; '' @
         ''refusing to silently drop additional calls'')\<rparr>"

definition text_chunk :: "int \<Rightarrow> string \<Rightarrow> bool \<Rightarrow> generation_chunk" where
  "text_chunk idx t first = chunk0\<lparr>text_delta := t, is_first := first, choice_index := idx\<rparr>"

definition call_chunk :: "int \<Rightarrow> tool_call_delta \<Rightarrow> generation_chunk" where
  "call_chunk idx d = chunk0\<lparr>tool_call_delta := Some d, choice_index := idx\<rparr>"

text \<open>Emit buffered text, if there is any.\<close>

definition flush_text :: "int \<Rightarrow> bool \<Rightarrow> string \<Rightarrow> choice_state \<Rightarrow> generation_chunk list \<times> choice_state" where
  "flush_text idx hint t st =
     (if t = [] then ([], st) else let (f, st1) = mark_first st hint in ([text_chunk idx t f], st1))"

text \<open>The loop of \<^verbatim>\<open>_process_text\<close>, on the text from the cursor on.\<close>

function process_loop :: "parser_options \<Rightarrow> int \<Rightarrow> bool \<Rightarrow> string \<Rightarrow> choice_state \<Rightarrow>
    generation_chunk list \<times> bool \<times> choice_state" where
  "process_loop opts idx hint s st =
     (if s = [] then ([], False, st)
      else if in_tool_call st then
        (case py_find tag_close s of
           None \<Rightarrow>
             let n = length s - (length tag_close - 1);
                 st1 = st\<lparr>tool_buffer := tool_buffer st @ take n s\<rparr>
             in if max_tool_buffer_chars < length (tool_buffer st1) + (length s - n)
                then ([parse_error_chunk (''unterminated <tool_call> block exceeded '' @
                        show_nat max_tool_buffer_chars @ '' chars without a closing tag'')], True, st1)
                else ([], False, st1\<lparr>text_buffer := drop n s\<rparr>)
         | Some k \<Rightarrow>
             let st1 = st\<lparr>tool_buffer := tool_buffer st @ take k s\<rparr> in
             case tool_call_deltas (lib opts) (call_format opts) (schemas opts) (tool_buffer st1) (tool_index st1)
                    (Stream_call idx (tool_index st1)) of
               Inl e \<Rightarrow> ([parse_error_chunk e], True, st1)
             | Inr ds \<Rightarrow>
                 let (out, term, st2) = process_loop opts idx hint (drop (k + length tag_close) s)
                       (st1\<lparr>emitted_call := True, tool_index := Suc (tool_index st1), tool_buffer := [],
                            in_tool_call := False\<rparr>)
                 in (map (call_chunk idx) ds @ out, term, st2))
      else
        (case py_find tag_open s of
           None \<Rightarrow>
             let buf = text_buffer st @ s; st1 = st\<lparr>text_buffer := buf\<rparr>
             in if max_text_buffer_chars < length buf
                then ([parse_error_chunk (''text buffer exceeded '' @ show_nat max_text_buffer_chars @
                        '' chars without producing a tool-call boundary'')], True, st1)
                else let n = length buf - (length tag_open - 1);
                         (out, st2) = flush_text idx hint (take n buf) st1
                     in (out, False, st2\<lparr>text_buffer := drop n buf\<rparr>)
         | Some k \<Rightarrow>
             let (out1, st1) = flush_text idx hint (text_buffer st @ take k s) st;
                 st2 = st1\<lparr>text_buffer := []\<rparr>
             in if \<not> parallel_tool_calls opts \<and> emitted_call st2
                then (out1 @ [parallel_violation_chunk], True, st2)
                else let (out, term, st3) = process_loop opts idx hint (drop (k + length tag_open) s)
                           (st2\<lparr>in_tool_call := True\<rparr>)
                     in (out1 @ out, term, st3)))"
  by pat_completeness auto
termination
  by (relation "measure (\<lambda>(opts, idx, hint, s, st). length s)") (auto simp: tag_open_def tag_close_def)

declare process_loop.simps [simp del]

definition process_text :: "parser_options \<Rightarrow> int \<Rightarrow> bool \<Rightarrow> string \<Rightarrow> choice_state \<Rightarrow>
    generation_chunk list \<times> bool \<times> choice_state" where
  "process_text opts idx hint incoming st =
     (if incoming = [] then ([], False, st)
      else process_loop opts idx hint (text_buffer st @ incoming) (st\<lparr>text_buffer := []\<rparr>))"

definition close_choice :: "choice_state \<Rightarrow> int \<Rightarrow> finish_reason option \<Rightarrow> generation_chunk list \<times> choice_state" where
  "close_choice st idx fallback =
     (if in_tool_call st then ([parse_error_chunk ''unterminated <tool_call> block''], st)
      else
        let (out, st1) = flush_text idx False (text_buffer st) st;
            fin = (if emitted_call st1 then FR_tool_calls
                   else case pending_finish st1 of
                          Some f \<Rightarrow> f
                        | None \<Rightarrow> (case fallback of Some f \<Rightarrow> f | None \<Rightarrow> FR_stop))
        in (out @ [chunk0\<lparr>finish_reason := Some fin, choice_index := idx, prompt_tokens := pending_prompt_tokens st1,
                          completion_tokens := pending_completion_tokens st1\<rparr>],
            st1\<lparr>text_buffer := [], closed := True\<rparr>))"

section \<open>Whole candidates\<close>

definition wire_call :: "tool_call_delta \<Rightarrow> tool_call_delta \<Rightarrow> pyval" where
  "wire_call announce body =
     PDict [(''id'', PStr (case call_id announce of Some i \<Rightarrow> i | None \<Rightarrow> [])), (''type'', PStr ''function''),
            (''function'', PDict [(''name'', PStr (case function_name announce of Some n \<Rightarrow> n | None \<Rightarrow> [])),
                                 (''arguments'', PStr (arguments_delta body))])]"

definition wire_calls :: "tool_call_delta list \<Rightarrow> pyval list" where
  "wire_calls ds = (case ds of [announce, body] \<Rightarrow> [wire_call announce body] | _ \<Rightarrow> [])"

text \<open>The loop of \<^verbatim>\<open>_parse_candidate_text\<close>: the parts of text and the calls. \<open>n\<close> is the position of the candidate.\<close>

function candidate_loop :: "parser_options \<Rightarrow> nat \<Rightarrow> nat \<Rightarrow> string \<Rightarrow> string list \<times> pyval list" where
  "candidate_loop opts n idx s =
     (if s = [] then ([], [])
      else case py_find tag_open s of
             None \<Rightarrow> ([s], [])
           | Some k \<Rightarrow>
               let body = drop (k + length tag_open) s in
               case py_find tag_close body of
                 None \<Rightarrow> ([take k s, drop k s], [])
               | Some m \<Rightarrow>
                   let r = drop (m + length tag_close) body in
                   case tool_call_deltas (lib opts) (call_format opts) (schemas opts) (take m body) idx (Candidate_call n idx) of
                     Inl e \<Rightarrow>
                       let (ts, cs) = candidate_loop opts n idx r
                       in (take k s # take (length tag_open + m + length tag_close) (drop k s) # ts, cs)
                   | Inr ds \<Rightarrow>
                       let (ts, cs) = candidate_loop opts n (Suc idx) r
                       in (take k s # ts, wire_calls ds @ cs))"
  by pat_completeness auto
termination
  by (relation "measure (\<lambda>(opts, n, idx, s). length s)") (auto simp: tag_open_def tag_close_def)

declare candidate_loop.simps [simp del]

definition parse_candidate_text :: "parser_options \<Rightarrow> nat \<Rightarrow> string \<Rightarrow> string \<times> pyval list" where
  "parse_candidate_text opts n t =
     (if t = [] \<or> \<not> py_contains tag_open t then (t, [])
      else let (ts, cs) = candidate_loop opts n 0 t in (concat ts, cs))"

definition parse_candidate :: "parser_options \<Rightarrow> nat \<times> pydict \<Rightarrow> pydict \<times> bool" where
  "parse_candidate opts p =
     (let (n, cand) = p in
      case (case map_of cand ''text'' of None \<Rightarrow> PStr [] | Some v \<Rightarrow> v) of
        PStr t \<Rightarrow>
          let (txt, calls) = parse_candidate_text opts n t
          in if calls \<noteq> []
             then (od_set ''finish_reason'' (PStr ''tool_calls'')
                     (od_set ''text'' (PStr txt) (od_set ''tool_calls'' (PList calls) cand)), True)
             else (od_set ''text'' (PStr txt) cand, False)
      | v \<Rightarrow> (od_set ''text'' v cand, False))"

section \<open>The stream\<close>

type_synonym choice_states = "(int, choice_state) odict"

definition choice_of :: "choice_states \<Rightarrow> int \<Rightarrow> choice_state" where
  "choice_of states i = (case map_of states i of None \<Rightarrow> choice0 | Some st \<Rightarrow> st)"

definition has_logprobs :: "generation_chunk \<Rightarrow> bool" where
  "has_logprobs c = (case logprobs c of None \<Rightarrow> False | Some ls \<Rightarrow> ls \<noteq> [])"

text \<open>The tails of the choices at the end of the stream; \<open>True\<close> when one ends inside a block.\<close>

fun close_tails :: "bool \<Rightarrow> choice_states \<Rightarrow> generation_chunk list \<times> bool \<times> choice_states" where
  "close_tails hint [] = ([], False, [])"
| "close_tails hint ((i, st) # rest) =
     (if closed st then let (out, e, sts) = close_tails hint rest in (out, e, (i, st) # sts)
      else if in_tool_call st then ([parse_error_chunk ''unterminated <tool_call> block''], True, (i, st) # rest)
      else let (out1, st1) = flush_text i hint (text_buffer st) st;
               (out, e, sts) = close_tails hint rest
           in (out1 @ out, e, (i, st1\<lparr>text_buffer := []\<rparr>) # sts))"

definition rewrite_terminal :: "parser_options \<Rightarrow> generation_chunk \<Rightarrow> generation_chunk" where
  "rewrite_terminal opts c =
     (case candidates c of
        None \<Rightarrow> c
      | Some [] \<Rightarrow> c
      | Some ds \<Rightarrow>
          let rs = map (parse_candidate opts) (enumerate 0 ds)
          in chunk0\<lparr>text_delta := text_delta c, is_done := True, is_first := is_first c,
               finish_reason := (if list_ex snd rs then Some FR_tool_calls else finish_reason c),
               prompt_tokens := prompt_tokens c, completion_tokens := completion_tokens c,
               cached_tokens := cached_tokens c, upstream_usage := upstream_usage c,
               candidates := Some (map fst rs), logprobs := logprobs c, error_code := error_code c,
               error_message := error_message c, upstream_reason := upstream_reason c\<rparr>)"

definition global_finish :: "generation_chunk \<Rightarrow> choice_states \<Rightarrow> finish_reason option" where
  "global_finish c states =
     (if length states = 1 \<and> od_mem 0 states \<and> emitted_call (choice_of states 0) then Some FR_tool_calls
      else case finish_reason c of
             Some f \<Rightarrow> Some f
           | None \<Rightarrow> Some (if list_ex (\<lambda>(i, st). emitted_call st) states then FR_tool_calls else FR_stop))"

text \<open>The global terminal: the remaining tails, then the terminal chunk.\<close>

definition finish_stream :: "parser_options \<Rightarrow> generation_chunk \<Rightarrow> choice_states \<Rightarrow> generation_chunk list" where
  "finish_stream opts c0 states0 =
     (let c = rewrite_terminal opts c0;
          states = (if states0 = [] then [(0, choice0)] else states0);
          (out, failed, states1) = close_tails (is_first c) states
      in if failed then out
         else out @ [chunk0\<lparr>is_done := True, is_first := fst (mark_first (choice_of states1 0) (is_first c)),
                finish_reason := global_finish c states1, prompt_tokens := prompt_tokens c,
                completion_tokens := completion_tokens c, cached_tokens := cached_tokens c,
                upstream_usage := upstream_usage c, error_code := error_code c,
                error_message := error_message c, upstream_reason := upstream_reason c,
                candidates := candidates c\<rparr>])"

text \<open>
  One chunk that is not passed through: its text, its logprobs, and the closure of its
  choice. The boolean says that the stream ends here.
\<close>

definition parse_choice_chunk :: "parser_options \<Rightarrow> generation_chunk \<Rightarrow> choice_state \<Rightarrow>
    generation_chunk list \<times> bool \<times> choice_state" where
  "parse_choice_chunk opts c st0 =
     (let idx = choice_index c;
          choice_finish = (finish_reason c \<noteq> None \<and> \<not> is_done c);
          (out1, term, st1) =
            (if text_delta c \<noteq> [] \<or> (choice_finish \<and> in_tool_call st0)
             then process_text opts idx (is_first c) (text_delta c) st0 else ([], False, st0));
          progress =
            (if (text_delta c \<noteq> [] \<or> (choice_finish \<and> in_tool_call st0)) \<and>
                \<not> (out1 \<noteq> [] \<or> reasoning_delta c \<noteq> [] \<or> has_logprobs c \<or> finish_reason c \<noteq> None \<or> is_done c)
             then [chunk0\<lparr>choice_index := idx\<rparr>] else [])
      in if term then (out1, True, st1)
         else
           let lp = (if has_logprobs c then [chunk0\<lparr>choice_index := idx, logprobs := logprobs c\<rparr>] else []);
               (out2, st2) =
                 (if choice_finish
                  then close_choice (st1\<lparr>pending_finish := finish_reason c, pending_prompt_tokens := prompt_tokens c,
                         pending_completion_tokens := completion_tokens c\<rparr>) idx (finish_reason c)
                  else ([], st1))
           in (out1 @ progress @ lp @ out2, False, st2))"

primrec parse_stream :: "parser_options \<Rightarrow> generation_chunk list \<Rightarrow> choice_states \<Rightarrow> generation_chunk list" where
  "parse_stream opts [] states =
     (let (out, failed, states1) = close_tails False states
      in if failed then out
         else out @ [chunk0\<lparr>is_done := True, finish_reason :=
                Some (if list_ex (\<lambda>(i, st). emitted_call st) states1 then FR_tool_calls else FR_stop)\<rparr>])"
| "parse_stream opts (c # cs) states =
     (if text_delta c = [] \<and> \<not> is_done c \<and> finish_reason c = None \<and> \<not> has_logprobs c
      then c # parse_stream opts cs states
      else
        let idx = choice_index c;
            reasoning = (if reasoning_delta c \<noteq> []
                         then [chunk0\<lparr>choice_index := idx, reasoning_delta := reasoning_delta c\<rparr>] else []);
            (out, term, st) = parse_choice_chunk opts c (choice_of states idx);
            states1 = od_set idx st states
        in reasoning @ out @
           (if term then []
            else if is_done c then finish_stream opts c states1
            else parse_stream opts cs states1))"

definition parse_tool_call_stream :: "py_lib \<Rightarrow> tool_call_format \<Rightarrow> bool \<Rightarrow> pyval list option \<Rightarrow>
    generation_chunk list \<Rightarrow> generation_chunk list" where
  "parse_tool_call_stream l fmt parallel tools cs =
     parse_stream \<lparr>call_format = fmt, parallel_tool_calls = parallel, schemas = tool_parameter_schemas tools, lib = l\<rparr>
       cs []"

section \<open>Printing and parsing a GLM call\<close>

definition glm_pair :: "string \<times> string \<Rightarrow> string" where
  "glm_pair kv = ''<arg_key>'' @ fst kv @ ''</arg_key><arg_value>'' @ snd kv @ ''</arg_value>''"

definition glm_key_ok :: "string \<Rightarrow> bool" where
  "glm_key_ok k = (CHR ''<'' \<notin> set k \<and> CHR ''>'' \<notin> set k \<and> py_strip k = k)"

definition glm_name_ok :: "string \<Rightarrow> bool" where
  "glm_name_ok n = (n \<noteq> [] \<and> list_all (\<lambda>c. \<not> is_space c \<and> c \<noteq> CHR ''<'' \<and> c \<noteq> CHR ''>'') n)"

definition add_argument :: "py_lib \<Rightarrow> (string, pydict) odict \<Rightarrow> string \<Rightarrow> pydict \<Rightarrow> string \<times> string \<Rightarrow> pydict" where
  "add_argument l sch name args kv =
     (let (schema, rdoc) = parameter_schema sch name (fst kv)
      in od_set (fst kv) (convert_argument l (snd kv) schema rdoc) args)"

lemma may_start_hd: "c \<noteq> d \<Longrightarrow> \<not> may_start (d # ds) (c # cs)"
  by (simp add: may_start_def)

lemma clean_no_bracket: "is_marker d \<Longrightarrow> CHR ''<'' \<notin> set p \<Longrightarrow> clean d p t"
proof (induction p)
  case (Cons c p)
  then show ?case by (cases d) (auto simp: is_marker_def may_start_hd)
qed simp

lemma find_after:
  assumes "is_marker d" and "clean d p (d @ t)"
  shows "py_find d (p @ d @ t) = Some (length p)"
  using py_find_clean [OF assms(2)] py_find_0 [of d "d @ t"] by (simp add: py_startswith_def)

lemma glm_markers: "is_marker ''</arg_key>''" "is_marker ''</arg_value>''" "is_marker ''<arg_key>''"
  by (simp_all add: is_marker_def)

lemma find_key_close:
  assumes "glm_key_ok k"
  shows "py_find ''</arg_key>'' (''<arg_key>'' @ k @ ''</arg_key>'' @ t) = Some (9 + length k)"
proof -
  have "clean ''</arg_key>'' (''<arg_key>'' @ k) (''</arg_key>'' @ t)"
    using assms clean_no_bracket [OF glm_markers(1), of "''arg_key>'' @ k" "''</arg_key>'' @ t"]
    by (simp add: glm_key_ok_def may_start_def)
  from find_after [OF glm_markers(1) this] show ?thesis by simp
qed

lemma find_value_close:
  assumes "\<not> py_contains ''</arg_value>'' v"
  shows "py_find ''</arg_value>'' (''<arg_value>'' @ v @ ''</arg_value>'' @ t) = Some (11 + length v)"
proof -
  have "clean ''</arg_value>'' v (''</arg_value>'' @ t)" using assms clean_before_marker glm_markers(2) by blast
  then have "clean ''</arg_value>'' (''<arg_value>'' @ v) (''</arg_value>'' @ t)"
    using clean_no_bracket [OF glm_markers(2), of "''arg_value>''" "v @ ''</arg_value>'' @ t"]
    by (simp add: may_start_def)
  from find_after [OF glm_markers(2) this] show ?thesis by simp
qed

lemma drop_three: "n = length a + length b + length c \<Longrightarrow> drop n (a @ b @ c @ t) = t"
  by simp

lemma glm_args_pairs:
  assumes "list_all (\<lambda>kv. glm_key_ok (fst kv) \<and> \<not> py_contains ''</arg_value>'' (snd kv)) kvs" and "length kvs \<le> n"
  shows "glm_args l sch name n (concat (map glm_pair kvs)) args = Inr (foldl (add_argument l sch name) args kvs, [])"
  using assms
proof (induction kvs arbitrary: n args)
  case Nil
  then show ?case by (cases n) (simp_all add: skip_whitespace_def)
next
  case (Cons kv kvs)
  obtain k v where kv: "kv = (k, v)" by fastforce
  obtain m where n: "n = Suc m" using Cons.prems(2) by (cases n) auto
  let ?rest = "concat (map glm_pair kvs)"
  let ?v = "''<arg_value>'' @ v @ ''</arg_value>'' @ ?rest"
  let ?s = "''<arg_key>'' @ k @ ''</arg_key>'' @ ?v"
  have s: "concat (map glm_pair (kv # kvs)) = ?s" by (simp add: glm_pair_def kv)
  have ws: "skip_whitespace ?s = ?s" "skip_whitespace ?v = ?v" by (simp_all add: skip_whitespace_def is_space_def char_code_def)
  have k: "glm_key_ok k" "\<not> py_contains ''</arg_value>'' v" using Cons.prems(1) kv by simp_all
  have d: "drop (9 + length k + 10) ?s = ?v" "drop (11 + length v + 12) ?v = ?rest"
    "take (9 + length k - 9) (drop 9 ?s) = k" "take (11 + length v - 11) (drop 11 ?v) = v"
    by (rule drop_three, simp)+ simp_all
  have st: "py_startswith ''<arg_key>'' ?s" "py_startswith ''<arg_value>'' ?v" "?s \<noteq> []"
    by (simp_all add: py_startswith_def)
  have ad: "add_argument l sch name args kv = od_set k (convert_argument l v (fst (parameter_schema sch name k))
      (snd (parameter_schema sch name k))) args"
    by (simp add: add_argument_def kv split_beta)
  have IH: "glm_args l sch name m ?rest (add_argument l sch name args kv) =
      Inr (foldl (add_argument l sch name) (add_argument l sch name args kv) kvs, [])"
    using Cons by (simp add: n)
  show ?case
    unfolding s n using find_key_close [OF k(1), of ?v] find_value_close [OF k(2), of ?rest] k(1) IH
    by (simp only: glm_args.simps Let_def ws st d option.simps not_True_eq_False if_False glm_key_ok_def
        ad split_beta foldl_Cons simp_thms)
qed

text \<open>
  C27. A GLM call survives printing and parsing: the name and up to 256 argument pairs, with keys
  free of tags and values free of the closing tag, are read back, each value converted by its
  declared type.
\<close>

theorem glm_call_roundtrip:
  assumes "glm_name_ok name" and "length kvs \<le> 256"
    and "list_all (\<lambda>kv. glm_key_ok (fst kv) \<and> \<not> py_contains ''</arg_value>'' (snd kv)) kvs"
  shows "parse_glm_tool_call l sch (name @ concat (map glm_pair kvs)) =
    Inr (PStr name, PDict (foldl (add_argument l sch name) [] kvs))"
proof -
  let ?args = "concat (map glm_pair kvs)"
  have name: "name \<noteq> []" "CHR ''<'' \<notin> set name" "\<forall>c \<in> set name. \<not> is_space c"
    "\<not> list_ex (\<lambda>c. is_space c \<or> c = CHR ''<'' \<or> c = CHR ''>'') name"
    using assms(1) by (auto simp: glm_name_ok_def list_all_iff list_ex_iff)
  have strip: "py_strip name = name" using name(1,3) by (intro py_strip_id) auto
  have fd: "py_find ''<arg_key>'' (name @ ?args) = (if kvs = [] then None else Some (length name))"
  proof (cases kvs)
    case Nil
    have "clean ''<arg_key>'' name []" using clean_no_bracket [OF glm_markers(3) name(2)] .
    from py_find_clean [OF this] Nil show ?thesis by simp
  next
    case (Cons kv rest)
    then have "?args = ''<arg_key>'' @ drop 9 ?args" by (simp add: glm_pair_def)
    moreover have "clean ''<arg_key>'' name (''<arg_key>'' @ drop 9 ?args)"
      using clean_no_bracket [OF glm_markers(3) name(2)] .
    ultimately show ?thesis using find_after [OF glm_markers(3)] Cons by (metis list.distinct(1))
  qed
  have args: "glm_args l sch name max_xml_params ?args [] = Inr (foldl (add_argument l sch name) [] kvs, [])"
    using assms(2,3) by (intro glm_args_pairs) (simp_all add: max_xml_params_def)
  show ?thesis
  proof (cases "kvs = []")
    case True
    then show ?thesis
      using fd args strip name by (simp add: parse_glm_tool_call_def skip_whitespace_def)
  next
    case False
    then show ?thesis
      using fd args strip name by (simp add: parse_glm_tool_call_def skip_whitespace_def)
  qed
qed

theorem glm_call_roundtrip_witness:
  "parse_glm_tool_call demo_lib [] (''get_weather'' @ concat (map glm_pair [(''city'', ''Tokyo <JP>''), (''n'', ''3'')])) =
     Inr (PStr ''get_weather'', PDict [(''city'', PStr ''Tokyo <JP>''), (''n'', PStr ''3'')])"
proof -
  let ?kvs = "[(''city'', ''Tokyo <JP>''), (''n'', ''3'')]"
  have "glm_name_ok ''get_weather''" "length ?kvs \<le> 256"
    "list_all (\<lambda>kv. glm_key_ok (fst kv) \<and> \<not> py_contains ''</arg_value>'' (snd kv)) ?kvs"
    "foldl (add_argument demo_lib [] ''get_weather'') [] ?kvs = [(''city'', PStr ''Tokyo <JP>''), (''n'', PStr ''3'')]"
    by code_simp+
  with glm_call_roundtrip [of "''get_weather''" ?kvs demo_lib "[]"] show ?thesis by simp
qed

end
