(* ===== verification/Tool_Call_Stream.thy ===== *)
theory Tool_Call_Stream
  imports Tool_Call_Parser "HOL-Library.Code_Target_Nat"
begin

text \<open>
  Correctness of the streaming tool-call parser: the text of a choice may be cut into
  chunks anywhere, the stream delivers the reading of the whole text (\<open>stream_reading\<close>) and agrees with
  the one-shot parser of candidates where that meets no error, the buffers stay bounded, and a
  streamed choice without parallel calls gets at most one.
\<close>

section \<open>What a list of chunks says\<close>

datatype token = TChar char | TCall tool_call_delta | TErr string

definition chunk_tokens :: "generation_chunk \<Rightarrow> token list" where
  "chunk_tokens c = map TChar (text_delta c) @
     (case tool_call_delta c of None \<Rightarrow> [] | Some d \<Rightarrow> [TCall d]) @
     (case error_code c of None \<Rightarrow> [] | Some e \<Rightarrow> [TErr e])"

definition tokens :: "generation_chunk list \<Rightarrow> token list" where
  "tokens cs = concat (map chunk_tokens cs)"

lemma tokens_simps [simp]:
  "tokens [] = []" "tokens (c # cs) = chunk_tokens c @ tokens cs" "tokens (cs @ ds) = tokens cs @ tokens ds"
  by (simp_all add: tokens_def)

lemma chunk_tokens_simps [simp]:
  "chunk_tokens (text_chunk i t f) = map TChar t" "chunk_tokens (call_chunk i d) = [TCall d]"
  by (simp_all add: chunk_tokens_def text_chunk_def call_chunk_def)

lemma tokens_calls [simp]: "tokens (map (call_chunk i) ds) = map TCall ds"
  by (induction ds) simp_all

text \<open>The parser state up to the marker of the first chunk, and the observable result.\<close>

definition unmarked_state :: "choice_state \<Rightarrow> choice_state" where
  "unmarked_state st = st\<lparr>first_emitted := False\<rparr>"

definition obs :: "generation_chunk list \<times> bool \<times> choice_state \<Rightarrow> token list \<times> bool \<times> choice_state" where
  "obs r = (tokens (fst r), fst (snd r), unmarked_state (snd (snd r)))"

lemma obs_simps [simp]: "obs (out, t, st) = (tokens out, t, unmarked_state st)"
  by (simp add: obs_def)

lemma unmarked_fields:
  assumes "unmarked_state st = unmarked_state st'"
  shows "text_buffer st' = text_buffer st" "in_tool_call st' = in_tool_call st" "tool_buffer st' = tool_buffer st"
    "tool_index st' = tool_index st" "emitted_call st' = emitted_call st"
  using assms by (cases st; cases st'; simp add: unmarked_state_def)+

lemma unmarked_upd:
  assumes "unmarked_state st = unmarked_state st'"
  shows "unmarked_state (st\<lparr>text_buffer := t\<rparr>) = unmarked_state (st'\<lparr>text_buffer := t\<rparr>)"
    "unmarked_state (st\<lparr>tool_buffer := t\<rparr>) = unmarked_state (st'\<lparr>tool_buffer := t\<rparr>)"
    "unmarked_state (st\<lparr>in_tool_call := b\<rparr>) = unmarked_state (st'\<lparr>in_tool_call := b\<rparr>)"
    "unmarked_state (st\<lparr>emitted_call := b\<rparr>) = unmarked_state (st'\<lparr>emitted_call := b\<rparr>)"
    "unmarked_state (st\<lparr>tool_index := n\<rparr>) = unmarked_state (st'\<lparr>tool_index := n\<rparr>)"
  using assms by (cases st; cases st'; simp add: unmarked_state_def)+

lemma flush_tokens [simp]: "tokens (fst (flush_text i h t st)) = map TChar t"
  by (simp add: flush_text_def mark_first_def Let_def)

lemma flush_state: "unmarked_state (snd (flush_text i h t st)) = unmarked_state st"
  by (simp add: flush_text_def mark_first_def unmarked_state_def Let_def)

lemma unmarked_first [simp]: "unmarked_state (st\<lparr>first_emitted := f\<rparr>) = unmarked_state st"
  by (simp add: unmarked_state_def)

lemma flush_fields [simp]:
  "text_buffer (snd (flush_text i h t st)) = text_buffer st"
  "in_tool_call (snd (flush_text i h t st)) = in_tool_call st"
  "tool_buffer (snd (flush_text i h t st)) = tool_buffer st"
  "tool_index (snd (flush_text i h t st)) = tool_index st"
  "emitted_call (snd (flush_text i h t st)) = emitted_call st"
  by (simp_all add: flush_text_def mark_first_def Let_def)

section \<open>The branches of the loop\<close>

lemma tags_nonempty [simp]: "tag_open \<noteq> []" "tag_close \<noteq> []"
  by (simp_all add: tag_open_def tag_close_def)

lemma loop_empty: "process_loop opts i h [] st = ([], False, st)"
  by (simp add: process_loop.simps)

lemma loop_in_none:
  assumes "s \<noteq> []" "in_tool_call st" "py_find tag_close s = None"
    and "n = length s - (length tag_close - 1)"
    and "length (tool_buffer st) + length s \<le> max_tool_buffer_chars"
  shows "process_loop opts i h s st =
    ([], False, st\<lparr>tool_buffer := tool_buffer st @ take n s, text_buffer := drop n s\<rparr>)"
  using assms by (subst process_loop.simps) (simp add: Let_def)

lemma loop_in_error:
  assumes "in_tool_call st" "py_find tag_close s = Some k"
    and "tool_call_deltas (lib opts) (call_format opts) (schemas opts) (tool_buffer st @ take k s) (tool_index st) (Stream_call i (tool_index st)) = Inl e"
  shows "process_loop opts i h s st =
    ([parse_error_chunk e], True, st\<lparr>tool_buffer := tool_buffer st @ take k s\<rparr>)"
proof -
  have "s \<noteq> []" using assms(2) by auto
  then show ?thesis using assms by (subst process_loop.simps) (simp add: Let_def)
qed

definition after_call :: "choice_state \<Rightarrow> choice_state" where
  "after_call st = st\<lparr>emitted_call := True, tool_index := Suc (tool_index st), tool_buffer := [], in_tool_call := False\<rparr>"

lemma loop_in_call:
  assumes "in_tool_call st" "py_find tag_close s = Some k"
    and "tool_call_deltas (lib opts) (call_format opts) (schemas opts) (tool_buffer st @ take k s) (tool_index st) (Stream_call i (tool_index st)) = Inr ds"
  shows "process_loop opts i h s st =
    (let (out, t, st2) = process_loop opts i h (drop (k + length tag_close) s) (after_call st)
     in (map (call_chunk i) ds @ out, t, st2))"
proof -
  have "s \<noteq> []" using assms(2) by auto
  then show ?thesis using assms by (subst process_loop.simps) (simp add: Let_def after_call_def)
qed

lemma loop_out_none:
  assumes "s \<noteq> []" "\<not> in_tool_call st" "py_find tag_open s = None" "text_buffer st = []"
    and "n = length s - (length tag_open - 1)" and "length s \<le> max_text_buffer_chars"
  shows "process_loop opts i h s st =
    (let (out, st2) = flush_text i h (take n s) (st\<lparr>text_buffer := s\<rparr>) in (out, False, st2\<lparr>text_buffer := drop n s\<rparr>))"
  using assms by (subst process_loop.simps) (simp add: Let_def)

lemma loop_out_open:
  assumes "\<not> in_tool_call st" "py_find tag_open s = Some k" "text_buffer st = []"
  shows "process_loop opts i h s st =
    (let (out1, st1) = flush_text i h (take k s) st; st2 = st1\<lparr>text_buffer := []\<rparr>
     in if \<not> parallel_tool_calls opts \<and> emitted_call st2 then (out1 @ [parallel_violation_chunk], True, st2)
        else let (out, t, st3) = process_loop opts i h (drop (k + length tag_open) s) (st2\<lparr>in_tool_call := True\<rparr>)
             in (out1 @ out, t, st3))"
proof -
  have "s \<noteq> []" using assms(2) by auto
  then show ?thesis using assms by (subst process_loop.simps) simp
qed

text \<open>The same branches, observed. \<open>ready\<close> holds when the loop starts on a text that fits.\<close>

definition ready :: "choice_state \<Rightarrow> string \<Rightarrow> bool" where
  "ready st s = (text_buffer st = [] \<and> length (tool_buffer st) + length s \<le> max_tool_buffer_chars)"

definition prepend :: "'a list \<Rightarrow> 'a list \<times> 'b \<Rightarrow> 'a list \<times> 'b" where
  "prepend p r = (p @ fst r, snd r)"

lemma prepend_simps [simp]: "prepend p (q, x) = (p @ q, x)" "prepend p (prepend q r) = prepend (p @ q) r" "prepend [] r = r"
  by (simp_all add: prepend_def)

abbreviation deltas :: "parser_options \<Rightarrow> int \<Rightarrow> choice_state \<Rightarrow> string \<Rightarrow> string + tool_call_delta list" where
  "deltas opts i st body \<equiv>
     tool_call_deltas (lib opts) (call_format opts) (schemas opts) (tool_buffer st @ body) (tool_index st)
       (Stream_call i (tool_index st))"

lemma loop_cases [case_names empty in_none in_error in_call out_none out_open]:
  obtains "s = []"
    | "s \<noteq> []" "in_tool_call st" "py_find tag_close s = None"
    | k e where "in_tool_call st" "py_find tag_close s = Some k" "deltas opts i st (take k s) = Inl e"
    | k ds where "in_tool_call st" "py_find tag_close s = Some k" "deltas opts i st (take k s) = Inr ds"
    | "s \<noteq> []" "\<not> in_tool_call st" "py_find tag_open s = None"
    | k where "\<not> in_tool_call st" "py_find tag_open s = Some k"
  by (metis option.exhaust sum.exhaust)

lemma error_tokens [simp]:
  "chunk_tokens (parse_error_chunk e) = [TErr ''MODEL_OUTPUT_PARSE_ERROR'']"
  "chunk_tokens parallel_violation_chunk = [TErr ''parallel_tool_calls_violated'']"
  by (simp_all add: chunk_tokens_def parse_error_chunk_def parallel_violation_chunk_def)

lemma obs_in_none:
  assumes "s \<noteq> []" "in_tool_call st" "py_find tag_close s = None" "ready st s"
    and "n = length s - (length tag_close - 1)"
  shows "obs (process_loop opts i h s st) =
    ([], False, unmarked_state (st\<lparr>tool_buffer := tool_buffer st @ take n s, text_buffer := drop n s\<rparr>))"
  using loop_in_none [OF assms(1-3,5)] assms(4) by (simp add: ready_def)

lemma obs_in_error:
  assumes "in_tool_call st" "py_find tag_close s = Some k" "deltas opts i st (take k s) = Inl e"
  shows "obs (process_loop opts i h s st) =
    ([TErr ''MODEL_OUTPUT_PARSE_ERROR''], True, unmarked_state (st\<lparr>tool_buffer := tool_buffer st @ take k s\<rparr>))"
  using loop_in_error [OF assms] by simp

lemma obs_in_call:
  assumes "in_tool_call st" "py_find tag_close s = Some k" "deltas opts i st (take k s) = Inr ds"
  shows "obs (process_loop opts i h s st) =
    prepend (map TCall ds) (obs (process_loop opts i h (drop (k + length tag_close) s) (after_call st)))"
  using loop_in_call [OF assms, of h] by (simp add: obs_def split_beta Let_def)

lemma obs_out_none:
  assumes "s \<noteq> []" "\<not> in_tool_call st" "py_find tag_open s = None" "ready st s"
    and "n = length s - (length tag_open - 1)"
  shows "obs (process_loop opts i h s st) =
    (map TChar (take n s), False, unmarked_state (st\<lparr>text_buffer := drop n s\<rparr>))"
proof -
  have "length s \<le> max_text_buffer_chars" "text_buffer st = []"
    using assms(4) by (simp_all add: ready_def max_tool_buffer_chars_def max_text_buffer_chars_def)
  moreover have "unmarked_state ((snd (flush_text i h (take n s) (st\<lparr>text_buffer := s\<rparr>)))\<lparr>text_buffer := drop n s\<rparr>) =
      unmarked_state (st\<lparr>text_buffer := drop n s\<rparr>)"
    using unmarked_upd(1) [OF flush_state] by simp
  ultimately show ?thesis
    using loop_out_none [OF assms(1-3) _ assms(5), of opts i h] by (simp add: split_beta Let_def)
qed

lemma obs_out_violation:
  assumes "\<not> in_tool_call st" "py_find tag_open s = Some k" "ready st s" "\<not> parallel_tool_calls opts" "emitted_call st"
  shows "obs (process_loop opts i h s st) =
    (map TChar (take k s) @ [TErr ''parallel_tool_calls_violated''], True, unmarked_state st)"
  using loop_out_open [OF assms(1,2), of opts i h] assms(3-5) unmarked_upd(1) [OF flush_state [of i h "take k s" st], of "[]"]
  by (simp add: split_beta Let_def ready_def) (simp add: unmarked_state_def)

lemma obs_out_open:
  assumes "\<not> in_tool_call st" "py_find tag_open s = Some k" "ready st s" "parallel_tool_calls opts \<or> \<not> emitted_call st"
  shows "\<exists>st'. unmarked_state st' = unmarked_state (st\<lparr>in_tool_call := True\<rparr>) \<and>
    obs (process_loop opts i h s st) =
      prepend (map TChar (take k s)) (obs (process_loop opts i h (drop (k + length tag_open) s) st'))"
proof (intro exI conjI)
  let ?st = "(snd (flush_text i h (take k s) st))\<lparr>text_buffer := [], in_tool_call := True\<rparr>"
  have "unmarked_state ?st = unmarked_state (st\<lparr>text_buffer := [], in_tool_call := True\<rparr>)"
    using flush_state by (intro unmarked_upd) simp
  then show "unmarked_state ?st = unmarked_state (st\<lparr>in_tool_call := True\<rparr>)"
    using assms(3) by (cases st) (simp add: ready_def)
  show "obs (process_loop opts i h s st) =
      prepend (map TChar (take k s)) (obs (process_loop opts i h (drop (k + length tag_open) s) ?st))"
    using loop_out_open [OF assms(1,2), of opts i h] assms(3,4)
    by (auto simp: obs_def split_beta Let_def ready_def)
qed

lemma ready_cong: "unmarked_state st = unmarked_state st' \<Longrightarrow> ready st s = ready st' s"
  using unmarked_fields [of st st'] by (simp add: ready_def)

lemma ready_rest:
  assumes "ready st s"
  shows "ready (after_call st) (drop n s)" "ready (st\<lparr>in_tool_call := b\<rparr>) (drop n s)"
  using assms by (auto simp: ready_def after_call_def)

lemma after_call_cong: "unmarked_state st = unmarked_state st' \<Longrightarrow> unmarked_state (after_call st) = unmarked_state (after_call st')"
  unfolding after_call_def by (cases st; cases st'; simp add: unmarked_state_def)

lemma find_shorter: "py_find d s = Some k \<Longrightarrow> d \<noteq> [] \<Longrightarrow> length (drop (k + length d) s) < length s"
  using py_find_Some [of d s k] by (cases s) auto

text \<open>The marker of the first chunk has no influence.\<close>

lemma obs_cong:
  assumes "ready st s" and "unmarked_state st = unmarked_state st'"
  shows "obs (process_loop opts i h s st) = obs (process_loop opts i h' s st')"
  using assms
proof (induction "length s" arbitrary: s st st' rule: less_induct)
  case less
  note f = unmarked_fields [OF less.prems(2)]
  have r': "ready st' s" using ready_cong less.prems by blast
  show ?case
  proof (cases rule: loop_cases [where s = s and st = st and opts = opts and i = i])
    case empty
    then show ?thesis using less.prems by (simp add: loop_empty)
  next
    case in_none
    then show ?thesis
      using obs_in_none [OF in_none less.prems(1) refl] obs_in_none [of s st' _ opts i h'] r' f
        unmarked_upd(1) [OF unmarked_upd(2) [OF less.prems(2)]] by simp
  next
    case (in_error k e)
    then show ?thesis
      using obs_in_error [OF in_error] obs_in_error [of st' s k opts i e] f unmarked_upd(2) [OF less.prems(2)] by simp
  next
    case (in_call k ds)
    have "obs (process_loop opts i h (drop (k + length tag_close) s) (after_call st)) =
        obs (process_loop opts i h' (drop (k + length tag_close) s) (after_call st'))"
      using in_call(2) less.prems by (intro less.hyps find_shorter after_call_cong ready_rest) auto
    then show ?thesis using obs_in_call [OF in_call] obs_in_call [of st' s k opts i ds] in_call f by simp
  next
    case out_none
    then show ?thesis
      using obs_out_none [OF out_none less.prems(1) refl] obs_out_none [of s st' _ opts i h'] r' f
        unmarked_upd(1) [OF less.prems(2)] by simp
  next
    case (out_open k)
    show ?thesis
    proof (cases "parallel_tool_calls opts \<or> \<not> emitted_call st")
      case False
      then show ?thesis
        using obs_out_violation [OF out_open less.prems(1)] obs_out_violation [of st' s k opts i h'] out_open r' f less.prems(2)
        by simp
    next
      case True
      obtain s1 where s1: "unmarked_state s1 = unmarked_state (st\<lparr>in_tool_call := True\<rparr>)"
        "obs (process_loop opts i h s st) =
          prepend (map TChar (take k s)) (obs (process_loop opts i h (drop (k + length tag_open) s) s1))"
        using obs_out_open [OF out_open less.prems(1) True] by metis
      obtain s2 where s2: "unmarked_state s2 = unmarked_state (st'\<lparr>in_tool_call := True\<rparr>)"
        "obs (process_loop opts i h' s st') =
          prepend (map TChar (take k s)) (obs (process_loop opts i h' (drop (k + length tag_open) s) s2))"
        using obs_out_open [of st' s k opts i h'] out_open r' True f by auto
      have e: "unmarked_state s1 = unmarked_state s2" using s1(1) s2(1) unmarked_upd(3) [OF less.prems(2)] by simp
      have "ready s1 (drop (k + length tag_open) s)" using ready_cong [OF s1(1)] ready_rest(2) [OF less.prems(1)] by simp
      with e show ?thesis unfolding s1(2) s2(2)
        using less.hyps [OF find_shorter [OF out_open(2)], of s1 s2] by simp
    qed
  qed
qed

lemma obs_open:
  assumes "\<not> in_tool_call st" "py_find tag_open s = Some k" "ready st s" "parallel_tool_calls opts \<or> \<not> emitted_call st"
  shows "obs (process_loop opts i h s st) =
    prepend (map TChar (take k s)) (obs (process_loop opts i h (drop (k + length tag_open) s) (st\<lparr>in_tool_call := True\<rparr>)))"
proof -
  obtain st' where st': "unmarked_state st' = unmarked_state (st\<lparr>in_tool_call := True\<rparr>)"
    "obs (process_loop opts i h s st) =
      prepend (map TChar (take k s)) (obs (process_loop opts i h (drop (k + length tag_open) s) st'))"
    using obs_out_open [OF assms] by metis
  have "ready st' (drop (k + length tag_open) s)" using ready_cong [OF st'(1)] ready_rest(2) [OF assms(3)] by simp
  from obs_cong [OF this st'(1)] show ?thesis unfolding st'(2) by metis
qed

section \<open>Chunk boundaries do not matter\<close>

lemma in_skip:
  assumes "in_tool_call st" "ready st (p @ t)" "clean tag_close p t" "p = [] \<or> length tag_close - 1 \<le> length t"
  shows "obs (process_loop opts i h (p @ t) st) =
    obs (process_loop opts i h t (st\<lparr>tool_buffer := tool_buffer st @ p\<rparr>))"
proof (cases "p = []")
  case False
  let ?st = "st\<lparr>tool_buffer := tool_buffer st @ p\<rparr>"
  have t: "t \<noteq> []" "length tag_close - 1 \<le> length t" using False assms(4) by (auto simp: tag_close_def)
  have fd: "py_find tag_close (p @ t) = map_option ((+) (length p)) (py_find tag_close t)"
    by (rule py_find_clean [OF assms(3)])
  have r: "ready ?st t" using assms(2) by (simp add: ready_def)
  show ?thesis
  proof (cases rule: loop_cases [where s = t and st = ?st and opts = opts and i = i])
    case in_none
    then show ?thesis
      using obs_in_none [OF in_none r refl] obs_in_none [of "p @ t" st] assms(1,2) fd t by simp
  next
    case (in_error k e)
    then show ?thesis
      using obs_in_error [OF in_error] obs_in_error [of st "p @ t" "length p + k" opts i e] assms(1) fd by simp
  next
    case (in_call k ds)
    then show ?thesis
      using obs_in_call [OF in_call] obs_in_call [of st "p @ t" "length p + k" opts i ds] assms(1) fd
      by (simp add: after_call_def add.assoc)
  qed (use t assms(1) in simp_all)
qed (simp add: process_loop.simps)

lemma out_skip:
  assumes "\<not> in_tool_call st" "ready st (p @ t)" "clean tag_open p t" "p = [] \<or> length tag_open - 1 \<le> length t"
  shows "obs (process_loop opts i h (p @ t) st) = prepend (map TChar p) (obs (process_loop opts i h t st))"
proof (cases "p = []")
  case False
  have t: "t \<noteq> []" "length tag_open - 1 \<le> length t" using False assms(4) by (auto simp: tag_open_def)
  have fd: "py_find tag_open (p @ t) = map_option ((+) (length p)) (py_find tag_open t)"
    by (rule py_find_clean [OF assms(3)])
  have r: "ready st t" using assms(2) by (simp add: ready_def)
  show ?thesis
  proof (cases rule: loop_cases [where s = t and st = st and opts = opts and i = i])
    case out_none
    then show ?thesis using obs_out_none [OF out_none r refl] obs_out_none [of "p @ t" st] assms(2) fd t by simp
  next
    case (out_open k)
    then show ?thesis
      using obs_out_violation [OF out_open r, of opts i h] obs_out_violation [of st "p @ t" "length p + k" opts i h]
        obs_open [OF out_open r, of opts i h] obs_open [of st "p @ t" "length p + k" opts i h] assms(2) fd
      by (cases "parallel_tool_calls opts \<or> \<not> emitted_call st") (simp_all add: add.assoc)
  qed (use t assms(1) in simp_all)
qed simp

text \<open>Going on after a piece that did not end the stream.\<close>

definition resume :: "parser_options \<Rightarrow> int \<Rightarrow> bool \<Rightarrow> string \<Rightarrow> token list \<times> bool \<times> choice_state \<Rightarrow>
    token list \<times> bool \<times> choice_state" where
  "resume opts i h b r =
     (case r of (tok, t, st) \<Rightarrow>
        if t then r else prepend tok (obs (process_loop opts i h (text_buffer st @ b) (st\<lparr>text_buffer := []\<rparr>))))"

lemma resume_prepend [simp]: "resume opts i h b (prepend p r) = prepend p (resume opts i h b r)"
  by (cases r) (auto simp: resume_def)

lemma unmarked_of [simp]:
  "text_buffer (unmarked_state st) = text_buffer st"
  "unmarked_state ((unmarked_state st)\<lparr>text_buffer := t\<rparr>) = unmarked_state (st\<lparr>text_buffer := t\<rparr>)"
  by (simp_all add: unmarked_state_def)

lemma text_buffer_same: "text_buffer st = [] \<Longrightarrow> st\<lparr>text_buffer := []\<rparr> = st"
  by (cases st) simp

lemma keep_long: "take (length s - m) s = [] \<or> m \<le> length (drop (length s - m) s @ b)"
  by (cases "length s \<le> m") auto

lemma resume_state:
  assumes "ready st (t @ b)"
  shows "resume opts i h b (tok, False, unmarked_state (st\<lparr>text_buffer := t\<rparr>)) =
    prepend tok (obs (process_loop opts i h (t @ b) st))"
proof -
  have "obs (process_loop opts i h (t @ b) st) =
      obs (process_loop opts i h (t @ b) ((unmarked_state (st\<lparr>text_buffer := t\<rparr>))\<lparr>text_buffer := []\<rparr>))"
    by (rule obs_cong [OF assms]) (use assms in \<open>simp add: ready_def text_buffer_same\<close>)
  then show ?thesis by (simp add: resume_def)
qed

lemma loop_append:
  assumes "ready st (s @ b)"
  shows "obs (process_loop opts i h (s @ b) st) = resume opts i h b (obs (process_loop opts i h s st))"
  using assms
proof (induction "length s" arbitrary: s st rule: less_induct)
  case less
  have r: "ready st s" and tb: "text_buffer st = []" using less.prems by (simp_all add: ready_def)
  show ?case
  proof (cases rule: loop_cases [where s = s and st = st and opts = opts and i = i])
    case empty
    then show ?thesis
      using resume_state [of st "[]" b opts i h "[]"] less.prems by (simp add: loop_empty text_buffer_same [OF tb])
  next
    case in_none
    let ?n = "length s - (length tag_close - 1)"
    let ?st = "st\<lparr>tool_buffer := tool_buffer st @ take ?n s\<rparr>"
    have "clean tag_close (take ?n s) (drop ?n s @ b)"
      using clean_keep [OF in_none(3)] by (simp add: clean_extend)
    from in_skip [OF in_none(2) _ this keep_long, of opts i h] less.prems
    have "obs (process_loop opts i h (s @ b) st) = obs (process_loop opts i h (drop ?n s @ b) ?st)" by simp
    then show ?thesis
      using obs_in_none [OF in_none r refl] resume_state [of ?st "drop ?n s" b opts i h "[]"] less.prems
      by (simp add: ready_def)
  next
    case (in_error k e)
    then show ?thesis
      using obs_in_error [OF in_error] obs_in_error [of st "s @ b" k opts i e] py_find_append [OF in_error(2)]
        py_find_Some [OF in_error(2)] by (simp add: resume_def)
  next
    case (in_call k ds)
    have k: "k + length tag_close \<le> length s" using py_find_Some [OF in_call(2)] by blast
    have "obs (process_loop opts i h (drop (k + length tag_close) s @ b) (after_call st)) =
        resume opts i h b (obs (process_loop opts i h (drop (k + length tag_close) s) (after_call st)))"
      using in_call(2) less.prems k by (intro less.hyps find_shorter) (auto simp: ready_def after_call_def)
    then show ?thesis
      using obs_in_call [OF in_call] obs_in_call [of st "s @ b" k opts i ds] in_call py_find_append [OF in_call(2)] k
      by simp
  next
    case out_none
    let ?n = "length s - (length tag_open - 1)"
    have "clean tag_open (take ?n s) (drop ?n s @ b)"
      using clean_keep [OF out_none(3)] by (simp add: clean_extend)
    from out_skip [OF out_none(2) _ this keep_long, of opts i h] less.prems
    have "obs (process_loop opts i h (s @ b) st) =
        prepend (map TChar (take ?n s)) (obs (process_loop opts i h (drop ?n s @ b) st))" by simp
    moreover have "ready st (drop ?n s @ b)" using less.prems by (auto simp: ready_def)
    ultimately show ?thesis
      using obs_out_none [OF out_none r refl] resume_state [of st "drop ?n s" b opts i h "map TChar (take ?n s)"] by simp
  next
    case (out_open k)
    have k: "k + length tag_open \<le> length s" using py_find_Some [OF out_open(2)] by blast
    show ?thesis
    proof (cases "parallel_tool_calls opts \<or> \<not> emitted_call st")
      case False
      then show ?thesis
        using obs_out_violation [OF out_open r, of opts i h] obs_out_violation [of st "s @ b" k opts i h]
          out_open py_find_append [OF out_open(2)] less.prems k by (simp add: resume_def)
    next
      case True
      let ?st = "st\<lparr>in_tool_call := True\<rparr>"
      have "obs (process_loop opts i h (drop (k + length tag_open) s @ b) ?st) =
          resume opts i h b (obs (process_loop opts i h (drop (k + length tag_open) s) ?st))"
        using out_open(2) less.prems k by (intro less.hyps find_shorter) (auto simp: ready_def)
      then show ?thesis
        using obs_open [OF out_open r True, of i h] obs_open [of st "s @ b" k opts i h] out_open True
          py_find_append [OF out_open(2)] less.prems k by simp
    qed
  qed
qed

text \<open>The pieces of a choice's text, one after the other, until one of them ends the stream.\<close>

primrec process_all :: "parser_options \<Rightarrow> int \<Rightarrow> (bool \<times> string) list \<Rightarrow> choice_state \<Rightarrow>
    generation_chunk list \<times> bool \<times> choice_state" where
  "process_all opts i [] st = ([], False, st)"
| "process_all opts i (p # ps) st =
     (let (out, t, st1) = process_text opts i (fst p) (snd p) st
      in if t then (out, t, st1)
         else let (out2, t2, st2) = process_all opts i ps st1 in (out @ out2, t2, st2))"

text \<open>The state between pieces: what is still to be decided, and the room left for more.\<close>

definition room :: "choice_state \<Rightarrow> string \<Rightarrow> bool" where
  "room st s = (length (tool_buffer st) + length (text_buffer st) + length s \<le> max_tool_buffer_chars)"

lemma unmarked_tool_buffer [simp]: "tool_buffer (unmarked_state st) = tool_buffer st"
  by (simp add: unmarked_state_def)

lemma obs_room:
  assumes "ready st s" and "obs (process_loop opts i h s st) = (tok, False, u)"
  shows "length (tool_buffer u) + length (text_buffer u) \<le> length (tool_buffer st) + length s"
  using assms
proof (induction "length s" arbitrary: s st tok rule: less_induct)
  case less
  have tb: "text_buffer st = []" using less.prems by (simp add: ready_def)
  show ?case
  proof (cases rule: loop_cases [where s = s and st = st and opts = opts and i = i])
    case empty
    then show ?thesis using less.prems(2) tb by (auto simp: loop_empty)
  next
    case in_none
    then show ?thesis using obs_in_none [OF in_none less.prems(1) refl] less.prems(2) by auto
  next
    case (in_error k e)
    then show ?thesis using obs_in_error [OF in_error] less.prems(2) by simp
  next
    case (in_call k ds)
    obtain tok' where "obs (process_loop opts i h (drop (k + length tag_close) s) (after_call st)) = (tok', False, u)"
      using obs_in_call [OF in_call, of h] less.prems(2)
      by (cases "obs (process_loop opts i h (drop (k + length tag_close) s) (after_call st))") auto
    then have "length (tool_buffer u) + length (text_buffer u) \<le>
        length (tool_buffer (after_call st)) + length (drop (k + length tag_close) s)"
      by (rule less.hyps [OF find_shorter [OF in_call(2) tags_nonempty(2)] ready_rest(1) [OF less.prems(1)]])
    then show ?thesis by (simp add: after_call_def)
  next
    case out_none
    then show ?thesis using obs_out_none [OF out_none less.prems(1) refl] less.prems(2) by auto
  next
    case (out_open k)
    let ?st = "st\<lparr>in_tool_call := True\<rparr>"
    have par: "parallel_tool_calls opts \<or> \<not> emitted_call st"
      using obs_out_violation [OF out_open less.prems(1), of opts i h] less.prems(2) by auto
    obtain tok' where "obs (process_loop opts i h (drop (k + length tag_open) s) ?st) = (tok', False, u)"
      using obs_open [OF out_open less.prems(1) par, of i h] less.prems(2)
      by (cases "obs (process_loop opts i h (drop (k + length tag_open) s) ?st)") auto
    then have "length (tool_buffer u) + length (text_buffer u) \<le>
        length (tool_buffer ?st) + length (drop (k + length tag_open) s)"
      by (rule less.hyps [OF find_shorter [OF out_open(2) tags_nonempty(1)] ready_rest(2) [OF less.prems(1)]])
    then show ?thesis by simp
  qed
qed

lemma room_ready: "room st s \<Longrightarrow> ready (st\<lparr>text_buffer := []\<rparr>) (text_buffer st @ s)"
  by (simp add: room_def ready_def)

lemma process_all_concat:
  assumes "room st (concat (map snd ps))"
  shows "obs (process_all opts i ps st) =
    (if concat (map snd ps) = [] then ([], False, unmarked_state st)
     else obs (process_loop opts i h (text_buffer st @ concat (map snd ps)) (st\<lparr>text_buffer := []\<rparr>)))"
  using assms
proof (induction ps arbitrary: st)
  case (Cons p ps)
  define rest where "rest = concat (map snd ps)"
  have c: "concat (map snd (p # ps)) = snd p @ rest" by (simp add: rest_def)
  let ?st0 = "st\<lparr>text_buffer := []\<rparr>" and ?s = "text_buffer st @ snd p"
  show ?case
  proof (cases "snd p = []")
    case True
    then show ?thesis using Cons by (simp add: process_text_def Let_def)
  next
    case False
    have rd: "ready ?st0 (?s @ rest)" "ready ?st0 ?s" using Cons.prems unfolding c by (auto simp: room_def ready_def)
    obtain out t st1 where l: "process_loop opts i (fst p) ?s ?st0 = (out, t, st1)" by (metis prod_cases3)
    have whole: "obs (process_loop opts i h (?s @ rest) ?st0) =
        resume opts i h rest (obs (out, t, st1))"
      using loop_append [OF rd(1), of opts i h] obs_cong [OF rd(2) refl, of opts i h "fst p"] l by simp
    have step: "process_text opts i (fst p) (snd p) st = (out, t, st1)" using False l by (simp add: process_text_def)
    show ?thesis
    proof (cases t)
      case True
      then show ?thesis using step whole False unfolding c by (simp add: resume_def)
    next
      case nt: False
      have room1: "room st1 rest"
        using obs_room [OF rd(2), of opts i "fst p"] l nt rd(1) by (auto simp: room_def ready_def)
      have "resume opts i h rest (obs (out, t, st1)) =
          prepend (tokens out) (obs (process_loop opts i h (text_buffer st1 @ rest) (st1\<lparr>text_buffer := []\<rparr>)))"
        using obs_cong [OF room_ready [OF room1], of "(unmarked_state st1)\<lparr>text_buffer := []\<rparr>" opts i h h] nt
        by (simp add: resume_def)
      moreover have "obs (process_all opts i (p # ps) st) = prepend (tokens out) (obs (process_all opts i ps st1))"
        using step nt by (simp add: obs_def split_beta Let_def)
      moreover have "obs (process_loop opts i h ?s ?st0) = obs (out, t, st1)"
        using obs_cong [OF rd(2) refl, of opts i h "fst p"] l by simp
      ultimately show ?thesis
        using Cons.IH [folded rest_def, OF room1] whole False nt unfolding c
        by (cases "rest = []") (simp_all del: process_all.simps)
    qed
  qed
qed simp

section \<open>What a stream delivers of a text\<close>

text \<open>The name and the arguments of the call a block holds.\<close>

definition call_content :: "parser_options \<Rightarrow> string \<Rightarrow> (string \<times> string) option" where
  "call_content opts raw =
     (case tool_call_deltas (lib opts) (call_format opts) (schemas opts) raw 0 (Stream_call 0 0) of
        Inr [a, b] \<Rightarrow> Some (case function_name a of Some n \<Rightarrow> n | None \<Rightarrow> [], arguments_delta b)
      | _ \<Rightarrow> None)"

text \<open>
  The reading of a whole text: the text outside the blocks, the calls, and the error that ends the reading at the first block that
  is not closed, holds no call, or opens a second call where only one is allowed.
\<close>

function stream_reading :: "parser_options \<Rightarrow> bool \<Rightarrow> string \<Rightarrow> string \<times> (string \<times> string) list \<times> string option" where
  "stream_reading opts called s =
     (case py_find tag_open s of
        None \<Rightarrow> (s, [], None)
      | Some k \<Rightarrow>
          if \<not> parallel_tool_calls opts \<and> called then (take k s, [], Some ''parallel_tool_calls_violated'')
          else let body = drop (k + length tag_open) s in
            case py_find tag_close body of
              None \<Rightarrow> (take k s, [], Some ''MODEL_OUTPUT_PARSE_ERROR'')
            | Some m \<Rightarrow>
                (case call_content opts (take m body) of
                   None \<Rightarrow> (take k s, [], Some ''MODEL_OUTPUT_PARSE_ERROR'')
                 | Some c \<Rightarrow>
                     let (t, cs, e) = stream_reading opts True (drop (m + length tag_close) body)
                     in (take k s @ t, c # cs, e)))"
  by pat_completeness auto
termination
  by (relation "measure (\<lambda>(opts, called, s). length s)") (auto dest!: py_find_Some simp: tag_open_def)

declare stream_reading.simps [simp del]

text \<open>The calls of deltas and of wire calls, without the identifiers, which are random.\<close>

fun call_contents :: "tool_call_delta list \<Rightarrow> (nat \<times> string \<times> string) list" where
  "call_contents (a # b # ds) =
     (call_index a, case function_name a of Some n \<Rightarrow> n | None \<Rightarrow> [], arguments_delta b) # call_contents ds"
| "call_contents ds = []"

definition wire_content :: "pyval \<Rightarrow> string \<times> string" where
  "wire_content v =
     (case v of
        PDict d \<Rightarrow>
          (case py_get d ''function'' of
             PDict f \<Rightarrow> (case (py_get f ''name'', py_get f ''arguments'') of (PStr n, PStr a) \<Rightarrow> (n, a) | _ \<Rightarrow> ([], []))
           | _ \<Rightarrow> ([], []))
      | _ \<Rightarrow> ([], []))"

definition token_text :: "token list \<Rightarrow> string" where
  "token_text ts = concat (map (\<lambda>t. case t of TChar c \<Rightarrow> [c] | _ \<Rightarrow> []) ts)"

definition token_calls :: "token list \<Rightarrow> tool_call_delta list" where
  "token_calls ts = concat (map (\<lambda>t. case t of TCall d \<Rightarrow> [d] | _ \<Rightarrow> []) ts)"

lemma token_simps [simp]:
  "token_text [] = []" "token_calls [] = []"
  "token_text (ts @ us) = token_text ts @ token_text us" "token_calls (ts @ us) = token_calls ts @ token_calls us"
  "token_text (map TChar s) = s" "token_calls (map TChar s) = []"
  "token_text (map TCall ds) = []" "token_calls (map TCall ds) = ds"
  "token_text [TErr e] = []" "token_calls [TErr e] = []" "token_text [TCall d] = []" "token_calls [TCall d] = [d]"
proof -
  show "token_text (map TChar s) = s" by (induction s) (simp_all add: token_text_def)
  show "token_calls (map TChar s) = []" by (induction s) (simp_all add: token_calls_def)
  show "token_text (map TCall ds) = []" by (induction ds) (simp_all add: token_text_def)
  show "token_calls (map TCall ds) = ds" by (induction ds) (simp_all add: token_calls_def)
qed (simp_all add: token_text_def token_calls_def)

lemma stream_simps [simp]:
  "stream_text [] = []" "stream_text (c # cs) = text_delta c @ stream_text cs" "stream_text (cs @ ds) = stream_text cs @ stream_text ds"
  "stream_calls [] = []" "stream_calls (cs @ ds) = stream_calls cs @ stream_calls ds"
  "stream_calls (c # cs) = (case tool_call_delta c of None \<Rightarrow> [] | Some d \<Rightarrow> [d]) @ stream_calls cs"
  by (simp_all add: stream_text_def stream_calls_def List.map_filter_def split: option.splits)

lemma tokens_stream: "token_text (tokens cs) = stream_text cs" "token_calls (tokens cs) = stream_calls cs"
  by (induction cs) (simp_all add: chunk_tokens_def split: option.splits)

lemma deltas_pair:
  assumes "tool_call_deltas l f sch raw idx site = Inr ds"
  obtains a b where "ds = [a, b]" "call_index a = idx" "call_index b = idx"
  using assms that unfolding tool_call_deltas_def by (auto split: sum.splits pyval.splits if_splits prod.splits)

text \<open>Where a call stands and which identifier was drawn for it does not change its content.\<close>

lemma deltas_content:
  "call_content opts raw = None \<longleftrightarrow> (\<exists>e. tool_call_deltas (lib opts) (call_format opts) (schemas opts) raw idx site = Inl e)"
  "tool_call_deltas (lib opts) (call_format opts) (schemas opts) raw idx site = Inr ds \<Longrightarrow>
     \<exists>c. call_content opts raw = Some c \<and> (\<forall>es. call_contents (ds @ es) = (idx, c) # call_contents es) \<and> map wire_content (wire_calls ds) = [c]"
  unfolding call_content_def tool_call_deltas_def
  by (auto simp: wire_calls_def wire_call_def wire_content_def py_get_def split: sum.splits pyval.splits if_splits prod.splits)

definition idle :: "choice_state \<Rightarrow> bool" where
  "idle st = (\<not> in_tool_call st \<and> tool_buffer st = [] \<and> text_buffer st = [])"

text \<open>How far the loop has delivered a reading: to its end, or up to an error that was or will be reported.\<close>

definition delivered :: "string \<times> (string \<times> string) list \<times> string option \<Rightarrow> nat \<Rightarrow> token list \<times> bool \<times> choice_state \<Rightarrow> bool" where
  "delivered r idx o1 =
     (case (r, o1) of ((t, cs, e), (tok, tm, u)) \<Rightarrow>
        call_contents (token_calls tok) = enumerate idx cs \<and>
        (case e of
           None \<Rightarrow> \<not> tm \<and> \<not> in_tool_call u \<and> token_text tok @ text_buffer u = t
         | Some x \<Rightarrow> token_text tok = t \<and>
             (if tm then TErr x \<in> set tok else in_tool_call u \<and> x = ''MODEL_OUTPUT_PARSE_ERROR'')))"

lemma delivered_prepend:
  assumes "delivered (t, cs, e) (Suc idx) o1" and "\<And>es. call_contents (ds @ es) = (idx, c) # call_contents es"
  shows "delivered (p @ t, c # cs, e) idx (prepend (map TChar p) (prepend (map TCall ds) o1))"
  using assms by (cases o1) (auto simp: delivered_def split: option.splits)

lemma reading_cases:
  assumes "py_find tag_open s = Some k"
  shows "\<not> parallel_tool_calls opts \<Longrightarrow> called \<Longrightarrow>
      stream_reading opts called s = (take k s, [], Some ''parallel_tool_calls_violated'')"
    "parallel_tool_calls opts \<or> \<not> called \<Longrightarrow> py_find tag_close (drop (k + length tag_open) s) = None \<Longrightarrow>
      stream_reading opts called s = (take k s, [], Some ''MODEL_OUTPUT_PARSE_ERROR'')"
    "parallel_tool_calls opts \<or> \<not> called \<Longrightarrow> py_find tag_close (drop (k + length tag_open) s) = Some m \<Longrightarrow>
      call_content opts (take m (drop (k + length tag_open) s)) = None \<Longrightarrow>
      stream_reading opts called s = (take k s, [], Some ''MODEL_OUTPUT_PARSE_ERROR'')"
    "parallel_tool_calls opts \<or> \<not> called \<Longrightarrow> py_find tag_close (drop (k + length tag_open) s) = Some m \<Longrightarrow>
      call_content opts (take m (drop (k + length tag_open) s)) = Some c \<Longrightarrow>
      stream_reading opts True (drop (m + length tag_close) (drop (k + length tag_open) s)) = (t, cs, e) \<Longrightarrow>
      stream_reading opts called s = (take k s @ t, c # cs, e)"
  by (subst stream_reading.simps, simp only: assms option.case Let_def prod.case split: if_split, blast?)+

lemma loop_reading:
  assumes "idle st" and "length s \<le> max_tool_buffer_chars"
  shows "delivered (stream_reading opts (emitted_call st) s) (tool_index st) (obs (process_loop opts i h s st))"
  using assms
proof (induction "length s" arbitrary: s st rule: less_induct)
  case less
  have rd: "ready st s" using less.prems by (simp add: ready_def idle_def)
  have st: "\<not> in_tool_call st" "tool_buffer st = []" "text_buffer st = []" using less.prems by (simp_all add: idle_def)
  show ?case
  proof (cases "py_find tag_open s")
    case None
    then have "stream_reading opts (emitted_call st) s = (s, [], None)" by (simp add: stream_reading.simps [of opts _ s])
    then show ?thesis
      using st obs_out_none [OF _ st(1) None rd refl, of opts i h]
      by (cases "s = []") (simp_all add: loop_empty delivered_def unmarked_state_def)
  next
    case (Some k)
    let ?body = "drop (k + length tag_open) s" and ?st1 = "st\<lparr>in_tool_call := True\<rparr>"
    show ?thesis
    proof (cases "parallel_tool_calls opts \<or> \<not> emitted_call st")
      case False
      then show ?thesis using obs_out_violation [OF st(1) Some rd, of opts i h] Some
        by (simp add: reading_cases(1) delivered_def)
    next
      case par: True
      note op = obs_open [OF st(1) Some rd par, of i h]
      have rb: "ready ?st1 ?body" by (rule ready_rest(2) [OF rd])
      show ?thesis
      proof (cases "py_find tag_close ?body")
        case None
        have "obs (process_loop opts i h ?body ?st1) = ([], False, unmarked_state (?st1\<lparr>tool_buffer := take (length ?body - (length tag_close - 1)) ?body,
            text_buffer := drop (length ?body - (length tag_close - 1)) ?body\<rparr>)) \<or> ?body = []"
          using obs_in_none [OF _ _ None rb refl, of opts i h] st(2) by auto
        then show ?thesis
          unfolding reading_cases(2) [OF Some par None] using op by (auto simp: delivered_def loop_empty unmarked_state_def)
      next
        case m: (Some m)
        show ?thesis
        proof (cases "deltas opts i ?st1 (take m ?body)")
          case (Inl e)
          then have "call_content opts (take m ?body) = None" using deltas_content(1) [of opts "take m ?body" "tool_index st" "Stream_call i (tool_index st)"] st(2) by auto
          then have "stream_reading opts (emitted_call st) s = (take k s, [], Some ''MODEL_OUTPUT_PARSE_ERROR'')"
            by (rule reading_cases(3) [OF Some par m])
          then show ?thesis using op obs_in_error [OF _ m Inl, of h] by (simp add: delivered_def)
        next
          case (Inr ds)
          let ?r = "drop (m + length tag_close) ?body" and ?st2 = "after_call ?st1"
          have "tool_call_deltas (lib opts) (call_format opts) (schemas opts) (take m ?body) (tool_index st) (Stream_call i (tool_index st)) = Inr ds"
            using Inr st(2) by simp
          then obtain c where c: "call_content opts (take m ?body) = Some c" "\<And>es. call_contents (ds @ es) = (tool_index st, c) # call_contents es"
            using deltas_content(2) by blast
          have lt: "length ?r < length s" using find_shorter [OF Some] find_shorter [OF m] by simp
          have IH: "delivered (stream_reading opts True ?r) (Suc (tool_index st)) (obs (process_loop opts i h ?r ?st2))"
            using less.hyps [OF lt, of ?st2] less.prems lt by (simp add: idle_def after_call_def)
          have "obs (process_loop opts i h s st) =
              prepend (map TChar (take k s)) (prepend (map TCall ds) (obs (process_loop opts i h ?r ?st2)))"
            using op obs_in_call [OF _ m Inr, of h] by simp
          moreover obtain t cs e where r: "stream_reading opts True ?r = (t, cs, e)" by (metis prod_cases3)
          ultimately show ?thesis
            unfolding reading_cases(4) [OF Some par m c(1) r] using delivered_prepend [OF IH [unfolded r] c(2), of "take k s"] by simp
        qed
      qed
    qed
  qed
qed

text \<open>The one-shot parser keeps the blocks that hold no call as text; where the reading meets no error the two agree.\<close>

lemma candidate_reading:
  assumes "stream_reading opts called s = (t, cs, None)"
  shows "concat (fst (candidate_loop opts n idx s)) = t \<and> map wire_content (snd (candidate_loop opts n idx s)) = cs"
  using assms
proof (induction opts n idx s arbitrary: called t cs rule: candidate_loop.induct)
  case (1 opts n idx s)
  show ?case
  proof (cases "py_find tag_open s")
    case None
    then have "candidate_loop opts n idx s = (if s = [] then [] else [s], [])"
      by (subst candidate_loop.simps) simp
    moreover have "t = s" "cs = []" using None 1(3) by (simp_all add: stream_reading.simps [of opts called s])
    ultimately show ?thesis by simp
  next
    case (Some k)
    let ?body = "drop (k + length tag_open) s"
    obtain m c t' cs' where m: "py_find tag_close ?body = Some m" "call_content opts (take m ?body) = Some c"
      "stream_reading opts True (drop (m + length tag_close) ?body) = (t', cs', None)" "t = take k s @ t'" "cs = c # cs'"
      using 1(3) Some by (subst (asm) stream_reading.simps) (auto simp: Let_def split: option.splits if_splits prod.splits)
    obtain ds where ds: "tool_call_deltas (lib opts) (call_format opts) (schemas opts) (take m ?body) idx (Candidate_call n idx) = Inr ds"
      using deltas_content(1) [of opts "take m ?body" idx "Candidate_call n idx"] m(2)
      by (cases "tool_call_deltas (lib opts) (call_format opts) (schemas opts) (take m ?body) idx (Candidate_call n idx)") auto
    have "s \<noteq> []" using Some by auto
    then show ?thesis
      using 1(2) [OF _ Some refl m(1) refl ds m(3)] deltas_content(2) [OF ds] m Some ds
      by (subst (1 2) candidate_loop.simps) (auto simp: Let_def split_beta)
  qed
qed

section \<open>Streams of one choice\<close>

lemma obs_closed:
  "ready st s \<Longrightarrow> closed (snd (snd (obs (process_loop opts i h s st)))) = closed st"
proof (induction "length s" arbitrary: s st rule: less_induct)
  case less
  show ?case
  proof (cases rule: loop_cases [where s = s and st = st and opts = opts and i = i])
    case (in_call k ds)
    have "closed (snd (snd (obs (process_loop opts i h (drop (k + length tag_close) s) (after_call st))))) =
        closed (after_call st)"
      by (rule less.hyps [OF find_shorter [OF in_call(2) tags_nonempty(2)] ready_rest(1) [OF less.prems]])
    then show ?thesis using obs_in_call [OF in_call] by (simp add: prepend_def after_call_def)
  next
    case (out_open k)
    have "closed (snd (snd (obs (process_loop opts i h (drop (k + length tag_open) s) (st\<lparr>in_tool_call := True\<rparr>))))) =
        closed (st\<lparr>in_tool_call := True\<rparr>)"
      by (rule less.hyps [OF find_shorter [OF out_open(2) tags_nonempty(1)] ready_rest(2) [OF less.prems]])
    then show ?thesis
      using obs_open [OF out_open less.prems, of opts i h] obs_out_violation [OF out_open less.prems, of opts i h]
      by (cases "parallel_tool_calls opts \<or> \<not> emitted_call st") (simp_all add: prepend_def unmarked_state_def)
  qed (use less.prems in \<open>simp_all add: loop_empty obs_in_none obs_in_error obs_out_none unmarked_state_def\<close>)
qed

definition plain :: "int \<Rightarrow> generation_chunk \<Rightarrow> bool" where
  "plain i c = (choice_index c = i \<and> \<not> is_done c \<and> finish_reason c = None \<and> tool_call_delta c = None)"

definition terminal :: "int \<Rightarrow> generation_chunk \<Rightarrow> bool" where
  "terminal i c = (choice_index c = i \<and> is_done c \<and> candidates c = None)"

abbreviation piece :: "generation_chunk \<Rightarrow> bool \<times> string" where
  "piece c \<equiv> (is_first c, text_delta c)"

lemma parse_choice_chunk_text:
  assumes "process_text opts (choice_index c) (is_first c) (text_delta c) st = (out, t, st1)"
    and "finish_reason c = None \<or> is_done c"
  obtains out' where "parse_choice_chunk opts c st = (out', t, st1)"
    "stream_text out' = stream_text out" "stream_calls out' = stream_calls out" "set out \<subseteq> set out'"
proof -
  let ?p = "if text_delta c \<noteq> [] \<and> \<not> (out \<noteq> [] \<or> reasoning_delta c \<noteq> [] \<or> has_logprobs c \<or>
      finish_reason c \<noteq> None \<or> is_done c) then [chunk0\<lparr>choice_index := choice_index c\<rparr>] else []"
  let ?lp = "if has_logprobs c then [chunk0\<lparr>choice_index := choice_index c, logprobs := logprobs c\<rparr>] else []"
  have "parse_choice_chunk opts c st = (if t then out else out @ ?p @ ?lp, t, st1)"
    using assms by (auto simp: parse_choice_chunk_def process_text_def split: if_splits)
  then show thesis by (rule that) simp_all
qed

lemma close_single:
  assumes "\<not> closed st"
  shows "stream_text (finish_stream opts d [(i, st)]) = (if in_tool_call st then [] else text_buffer st)"
    "stream_calls (finish_stream opts d [(i, st)]) = []"
    "in_tool_call st \<Longrightarrow> \<exists>c \<in> set (finish_stream opts d [(i, st)]). error_code c = Some ''MODEL_OUTPUT_PARSE_ERROR''"
  using assms
  by (simp_all add: finish_stream_def flush_text_def text_chunk_def parse_error_chunk_def split_beta Let_def)

text \<open>What the chunks of a stream of one choice say, from what the loop says of its pieces.\<close>

definition stream_of :: "generation_chunk list \<Rightarrow> bool \<Rightarrow> choice_state \<Rightarrow> generation_chunk list \<Rightarrow> bool" where
  "stream_of out tm st res =
     (stream_text res = stream_text out @ (if tm \<or> in_tool_call st then [] else text_buffer st) \<and>
      stream_calls res = stream_calls out \<and> set out \<subseteq> set res \<and>
      (\<not> tm \<and> in_tool_call st \<longrightarrow> (\<exists>c \<in> set res. error_code c = Some ''MODEL_OUTPUT_PARSE_ERROR'')))"

lemma stream_single:
  assumes "\<forall>c \<in> set cs. plain i c" and "terminal i d" and "states = [] \<or> (\<exists>st. states = [(i, st)])"
    and "process_all opts i (map piece (cs @ [d])) (choice_of states i) = (out, tm, st)" and "\<not> closed st"
  shows "stream_of out tm st (parse_stream opts (cs @ [d]) states)"
  using assms(1,3,4)
proof (induction cs arbitrary: states out)
  case Nil
  let ?st0 = "choice_of states i"
  have p: "process_text opts (choice_index d) (is_first d) (text_delta d) ?st0 = (out, tm, st)"
    using Nil.prems(3) assms(2) by (auto simp: terminal_def Let_def split: if_splits prod.splits)
  obtain out' where o: "parse_choice_chunk opts d ?st0 = (out', tm, st)"
    "stream_text out' = stream_text out" "stream_calls out' = stream_calls out" "set out \<subseteq> set out'"
    using parse_choice_chunk_text [OF p] assms(2) by (metis terminal_def)
  have "od_set i st states = [(i, st)]" using Nil.prems(2) by (auto simp: od_set_def od_mem_def od_keys_def)
  then show ?case
    using o assms(2) close_single [OF assms(5), of opts d i] by (cases tm) (auto simp: terminal_def stream_of_def Let_def)
next
  case (Cons c cs)
  let ?st0 = "choice_of states i"
  have c: "choice_index c = i" "\<not> is_done c" "finish_reason c = None" "tool_call_delta c = None" "\<forall>c \<in> set cs. plain i c"
    using Cons.prems(1) by (simp_all add: plain_def)
  obtain out1 t1 st1 where p: "process_text opts i (is_first c) (text_delta c) ?st0 = (out1, t1, st1)" by (metis prod_cases3)
  have os: "od_set i st1 states = [(i, st1)]" using Cons.prems(2) by (auto simp: od_set_def od_mem_def od_keys_def)
  show ?case
  proof (cases "text_delta c = [] \<and> \<not> has_logprobs c")
    case True
    then have "out1 = []" "st1 = ?st0" "\<not> t1" using p by (simp_all add: process_text_def)
    then show ?thesis
      using Cons.IH [OF c(5) Cons.prems(2), of out] Cons.prems(3) p True c by (auto simp: stream_of_def split: prod.splits)
  next
    case False
    obtain out' where o: "parse_choice_chunk opts c ?st0 = (out', t1, st1)"
      "stream_text out' = stream_text out1" "stream_calls out' = stream_calls out1" "set out1 \<subseteq> set out'"
      using parse_choice_chunk_text [of opts c ?st0 out1 t1 st1] p c by metis
    have ch: "choice_of [(i, st1)] i = st1" by (simp add: choice_of_def)
    show ?thesis
    proof (cases t1)
      case True
      then have "out = out1" "tm" "st = st1" using Cons.prems(3) p by simp_all
      then show ?thesis using o True False c by (auto simp: stream_of_def)
    next
      case nt: False
      obtain out2 where r: "process_all opts i (map piece (cs @ [d])) st1 = (out2, tm, st)" "out = out1 @ out2"
        using Cons.prems(3) p nt by (auto split: prod.splits)
      have "stream_of out2 tm st (parse_stream opts (cs @ [d]) [(i, st1)])"
        using Cons.IH [OF c(5), of "[(i, st1)]" out2] r(1) ch by simp
      then show ?thesis using o nt False c os r(2) by (auto simp: stream_of_def)
    qed
  qed
qed

lemma stream_reads:
  assumes "\<forall>c \<in> set cs. plain i c" and "terminal i d" and "s = concat (map text_delta (cs @ [d]))"
    and "length s \<le> max_tool_buffer_chars" and "stream_reading opts False s = (t, calls, e)"
    and "out = parse_stream opts (cs @ [d]) []"
  shows "stream_text out = t \<and> call_contents (stream_calls out) = enumerate 0 calls \<and>
    (\<forall>x. e = Some x \<longrightarrow> (\<exists>c \<in> set out. error_code c = Some x))"
proof -
  let ?ps = "map piece (cs @ [d])"
  have s: "concat (map snd ?ps) = s" by (simp add: assms(3) comp_def)
  have c0: "idle choice0" "tool_index choice0 = 0" "text_buffer choice0 = []" "tool_buffer choice0 = []"
    "choice0\<lparr>text_buffer := []\<rparr> = choice0" "\<not> closed choice0" "\<not> emitted_call choice0"
    by (simp_all add: choice0_def idle_def)
  have room: "room choice0 s" and rd: "ready choice0 s" using assms(4) c0 by (simp_all add: room_def ready_def)
  obtain out1 tm st where pa: "process_all opts i ?ps choice0 = (out1, tm, st)" by (metis prod_cases3)
  have eq: "(tokens out1, tm, unmarked_state st) = obs (process_loop opts i False s choice0)"
    using process_all_concat [of choice0 ?ps opts i False] room c0 pa unfolding s by (cases "s = []") (simp_all add: loop_empty)
  have cl: "\<not> closed st" using obs_closed [OF rd, of opts i False] c0(6) eq [symmetric] by (simp add: unmarked_state_def)
  have "stream_of out1 tm st out"
    unfolding assms(6) using stream_single [OF assms(1,2), of "[]" opts out1 tm st] pa cl by (simp add: choice_of_def)
  moreover have "delivered (t, calls, e) 0 (tokens out1, tm, unmarked_state st)"
    using loop_reading [OF c0(1) assms(4), of opts i False] assms(5) c0 eq by simp
  moreover have "\<exists>c \<in> set out1. error_code c = Some x" if "TErr x \<in> set (tokens out1)" for x
    using that by (auto simp: tokens_def chunk_tokens_def split: option.splits)
  ultimately show ?thesis
    by (cases e) (simp_all add: stream_of_def delivered_def tokens_stream unmarked_state_def subset_iff split: if_splits, blast?)
qed

lemma parse_candidate_reading:
  assumes "stream_reading opts called s = (t, calls, None)"
  shows "fst (parse_candidate_text opts n s) = t \<and> map wire_content (snd (parse_candidate_text opts n s)) = calls"
proof -
  have "parse_candidate_text opts n s = (concat (fst (candidate_loop opts n 0 s)), snd (candidate_loop opts n 0 s))"
    by (auto simp: parse_candidate_text_def candidate_loop.simps [of opts n 0 s] contains_find split_beta Let_def
        split: option.splits)
  then show ?thesis using candidate_reading [OF assms, of n 0] by simp
qed

section \<open>Contracts of the loop\<close>

lemma flush_upd: "flush_text i h x (st\<lparr>text_buffer := b\<rparr>) =
    (fst (flush_text i h x st), (snd (flush_text i h x st))\<lparr>text_buffer := b\<rparr>)"
  by (simp add: flush_text_def mark_first_def Let_def)

text \<open>
  A relation between the state before the loop, its output, whether it ended the stream and
  the state after it. It holds of every run when it holds of the runs that stop at once and
  carries over a call and the opening of a block.
\<close>

locale loop_contract =
  fixes opts :: parser_options and i :: int
    and pre :: "choice_state \<Rightarrow> bool"
    and rel :: "choice_state \<Rightarrow> generation_chunk list \<Rightarrow> bool \<Rightarrow> choice_state \<Rightarrow> bool"
  assumes stop: "pre st \<Longrightarrow> text_buffer st = [] \<Longrightarrow> rel st [] False st"
    and absorb: "pre st \<Longrightarrow> in_tool_call st \<Longrightarrow> length tb + length tx \<le> max_tool_buffer_chars \<Longrightarrow>
      rel st [] False (st\<lparr>tool_buffer := tb, text_buffer := tx\<rparr>)"
    and fail: "pre st \<Longrightarrow> rel st [parse_error_chunk e] True (st\<lparr>tool_buffer := tb, text_buffer := tx\<rparr>)"
    and call_pre: "pre st \<Longrightarrow> in_tool_call st \<Longrightarrow> pre (after_call st)"
    and call: "pre st \<Longrightarrow> in_tool_call st \<Longrightarrow> length ds = 2 \<Longrightarrow> rel (after_call st) out t st1 \<Longrightarrow>
      rel st (map (call_chunk i) ds @ out) t st1"
    and show_text: "pre st \<Longrightarrow> \<not> in_tool_call st \<Longrightarrow> length tx < length tag_open \<Longrightarrow>
      flush_text i h x st = (out, st') \<Longrightarrow> rel st out False (st'\<lparr>text_buffer := tx\<rparr>)"
    and second: "pre st \<Longrightarrow> \<not> in_tool_call st \<Longrightarrow> \<not> parallel_tool_calls opts \<Longrightarrow> emitted_call st \<Longrightarrow>
      flush_text i h x st = (out, st') \<Longrightarrow>
      rel st (out @ [parallel_violation_chunk]) True (st'\<lparr>text_buffer := []\<rparr>)"
    and open_pre: "pre st \<Longrightarrow> \<not> in_tool_call st \<Longrightarrow> parallel_tool_calls opts \<or> \<not> emitted_call st \<Longrightarrow>
      flush_text i h x st = (out, st') \<Longrightarrow> pre (st'\<lparr>text_buffer := [], in_tool_call := True\<rparr>)"
    and opened: "pre st \<Longrightarrow> \<not> in_tool_call st \<Longrightarrow> parallel_tool_calls opts \<or> \<not> emitted_call st \<Longrightarrow>
      flush_text i h x st = (out1, st') \<Longrightarrow> rel (st'\<lparr>text_buffer := [], in_tool_call := True\<rparr>) out t st1 \<Longrightarrow>
      rel st (out1 @ out) t st1"
begin

lemma fail_upd: "pre st \<Longrightarrow> text_buffer st = [] \<Longrightarrow> rel st [parse_error_chunk e] True (st\<lparr>tool_buffer := tb\<rparr>)"
  "pre st \<Longrightarrow> rel st [parse_error_chunk e] True (st\<lparr>text_buffer := tx\<rparr>)"
proof -
  assume p: "pre st"
  have "st\<lparr>tool_buffer := tool_buffer st, text_buffer := tx\<rparr> = st\<lparr>text_buffer := tx\<rparr>" by (cases st) simp
  with fail [OF p, where tb = "tool_buffer st" and tx = tx] show "rel st [parse_error_chunk e] True (st\<lparr>text_buffer := tx\<rparr>)" by simp
  assume "text_buffer st = []"
  then have "st\<lparr>tool_buffer := tb, text_buffer := []\<rparr> = st\<lparr>tool_buffer := tb\<rparr>" by (cases st) simp
  with fail [OF p, where tb = tb and tx = "[]"] show "rel st [parse_error_chunk e] True (st\<lparr>tool_buffer := tb\<rparr>)" by simp
qed

lemma loop_rel:
  assumes "process_loop opts i h s st = (out, t, st1)" and "pre st" and "text_buffer st = []"
  shows "rel st out t st1"
  using assms
proof (induction "length s" arbitrary: s st out rule: less_induct)
  case less
  show ?case
  proof (cases rule: loop_cases [where s = s and st = st and opts = opts and i = i])
    case empty
    then show ?thesis using less.prems stop by (auto simp: loop_empty)
  next
    case in_none
    then show ?thesis
      using less.prems absorb fail_upd(1)
      by (subst (asm) process_loop.simps) (auto simp: Let_def split: if_splits)
  next
    case (in_error k e)
    then show ?thesis using loop_in_error [OF in_error, of h] less.prems fail_upd(1) by auto
  next
    case (in_call k ds)
    obtain out' where o: "process_loop opts i h (drop (k + length tag_close) s) (after_call st) = (out', t, st1)"
      "out = map (call_chunk i) ds @ out'"
      using loop_in_call [OF in_call, of h] less.prems(1) by (auto simp: Let_def split: prod.splits)
    have "rel (after_call st) out' t st1"
      using less.hyps [OF find_shorter [OF in_call(2) tags_nonempty(2)] o(1)] call_pre less.prems(2,3) in_call(1)
      by (simp add: after_call_def)
    moreover have "length ds = 2" by (rule deltas_pair [OF in_call(3)]) simp
    ultimately show ?thesis using o(2) call less.prems(2) in_call(1) by simp
  next
    case out_none
    let ?n = "length s - (length tag_open - 1)"
    have "length (drop ?n s) < length tag_open" by (auto simp: tag_open_def)
    from show_text [OF less.prems(2) out_none(2) this surjective_pairing, of h "take ?n s"]
    show ?thesis
      using out_none less.prems fail_upd(2) [OF less.prems(2)]
      by (subst (asm) process_loop.simps) (auto simp: Let_def split_beta flush_upd split: if_splits)
  next
    case (out_open k)
    let ?f = "flush_text i h (take k s) st"
    let ?st = "(snd ?f)\<lparr>text_buffer := [], in_tool_call := True\<rparr>"
    show ?thesis
    proof (cases "parallel_tool_calls opts \<or> \<not> emitted_call st")
      case True
      obtain out' where o: "process_loop opts i h (drop (k + length tag_open) s) ?st = (out', t, st1)" "out = fst ?f @ out'"
        using loop_out_open [OF out_open less.prems(3), of opts i h] less.prems(1) True
        by (cases "process_loop opts i h (drop (k + length tag_open) s) ?st") (auto simp: Let_def split_beta)
      have "rel ?st out' t st1"
        using less.hyps [OF find_shorter [OF out_open(2) tags_nonempty(1)] o(1)]
          open_pre [OF less.prems(2) out_open(1) True surjective_pairing] by simp
      with o(2) opened [OF less.prems(2) out_open(1) True surjective_pairing] show ?thesis by simp
    next
      case False
      then show ?thesis
        using loop_out_open [OF out_open less.prems(3), of opts i h] less.prems(1)
          second [OF less.prems(2) out_open(1) _ _ surjective_pairing, of h "take k s"]
        by (auto simp: Let_def split_beta)
    qed
  qed
qed

lemma process_text_rel:
  assumes "process_text opts i h x st = (out, t, st1)" and "pre (st\<lparr>text_buffer := []\<rparr>)" and "x \<noteq> []"
  shows "rel (st\<lparr>text_buffer := []\<rparr>) out t st1"
  using loop_rel [of h "text_buffer st @ x" "st\<lparr>text_buffer := []\<rparr>" out t st1] assms by (simp add: process_text_def)

end

section \<open>Bounded buffers, one call, one terminal\<close>

text \<open>Between chunks a choice holds at most a block that is still allowed to grow, or the start of a tag.\<close>

definition buffers_bounded :: "choice_state \<Rightarrow> bool" where
  "buffers_bounded st =
     (if in_tool_call st then length (tool_buffer st) + length (text_buffer st) \<le> max_tool_buffer_chars
      else tool_buffer st = [] \<and> length (text_buffer st) < length tag_open)"

text \<open>The deltas a choice may still emit without parallel calls.\<close>

definition allowance :: "choice_state \<Rightarrow> nat" where
  "allowance st = (if emitted_call st then 0 else 2)"

definition single_call_inv :: "parser_options \<Rightarrow> choice_state \<Rightarrow> bool" where
  "single_call_inv opts st = (parallel_tool_calls opts \<or> \<not> (in_tool_call st \<and> emitted_call st))"

definition calls_on :: "int \<Rightarrow> generation_chunk list \<Rightarrow> bool" where
  "calls_on i cs = (\<forall>c \<in> set cs. tool_call_delta c = None \<or> choice_index c = i)"

text \<open>A terminal chunk is the last one and ends the stream.\<close>

definition done_last :: "bool \<Rightarrow> generation_chunk list \<Rightarrow> bool" where
  "done_last t cs =
     (if t then cs \<noteq> [] \<and> is_done (last cs) \<and> (\<forall>c \<in> set (butlast cs). \<not> is_done c)
      else \<forall>c \<in> set cs. \<not> is_done c)"

lemma done_last_append: "\<forall>c \<in> set xs. \<not> is_done c \<Longrightarrow> done_last t ys \<Longrightarrow> done_last t (xs @ ys)"
  by (auto simp: done_last_def butlast_append)

lemma done_last_simps [simp]: "done_last False []" "done_last True [c] = is_done c"
  "done_last False (xs @ ys) = (done_last False xs \<and> done_last False ys)"
  by (auto simp: done_last_def)

lemma chunk_facts [simp]:
  "stream_calls (fst (flush_text i h t st)) = []" "stream_calls (map (call_chunk i) ds) = ds"
  "tool_call_delta (parse_error_chunk e) = None" "tool_call_delta parallel_violation_chunk = None"
  "is_done (parse_error_chunk e)" "is_done parallel_violation_chunk" "\<not> is_done (call_chunk i d)"
  "choice_index (call_chunk i d) = i"
  by (induction ds) (simp_all add: flush_text_def text_chunk_def call_chunk_def parse_error_chunk_def
      parallel_violation_chunk_def split_beta Let_def)

lemma flush_plain: "c \<in> set (fst (flush_text i h t st)) \<Longrightarrow> \<not> is_done c \<and> tool_call_delta c = None \<and> choice_index c = i"
  by (auto simp: flush_text_def text_chunk_def split_beta Let_def split: if_splits)

lemma after_call_fields [simp]:
  "in_tool_call (after_call st) = False" "tool_buffer (after_call st) = []" "emitted_call (after_call st) = True"
  "text_buffer (after_call st) = text_buffer st"
  by (simp_all add: after_call_def)

lemma flush_eq:
  assumes "flush_text i h x st = (out, st')"
  shows "in_tool_call st' = in_tool_call st \<and> tool_buffer st' = tool_buffer st \<and> emitted_call st' = emitted_call st \<and>
    stream_calls out = [] \<and> (\<forall>c \<in> set out. \<not> is_done c \<and> tool_call_delta c = None \<and> choice_index c = i)"
  using flush_fields [of i h x st] flush_plain [of _ i h x st] chunk_facts(1) [of i h x st] assms by simp

interpretation bounded: loop_contract opts i
    "\<lambda>st. if in_tool_call st then length (tool_buffer st) \<le> max_tool_buffer_chars else tool_buffer st = []"
    "\<lambda>st out t st1. t \<or> buffers_bounded st1"
  for opts i
  by unfold_locales (auto simp: buffers_bounded_def tag_open_def dest!: flush_eq split: if_splits)

interpretation single: loop_contract opts i "single_call_inv opts"
    "\<lambda>st out t st1. parallel_tool_calls opts \<or>
       (length (stream_calls out) + allowance st1 \<le> allowance st \<and> single_call_inv opts st1 \<and> calls_on i out)"
  for opts i
  by unfold_locales (auto simp: single_call_inv_def allowance_def calls_on_def dest!: flush_eq split: if_splits)

interpretation ending: loop_contract opts i "\<lambda>st. True" "\<lambda>st out t st1. done_last t out"
  for opts i
  by unfold_locales (auto intro!: done_last_append dest!: flush_eq simp: done_last_def [of False])

text \<open>The candidates of a chunk, and the calls they carry.\<close>

definition no_candidates :: "generation_chunk list \<Rightarrow> bool" where
  "no_candidates cs = (\<forall>c \<in> set cs. candidates c = None)"

definition candidate_calls :: "generation_chunk list \<Rightarrow> pyval list" where
  "candidate_calls cs =
     concat (map (\<lambda>c. concat (map (\<lambda>cand. case map_of cand ''tool_calls'' of Some (PList calls) \<Rightarrow> calls | _ \<Rightarrow> [])
       (case candidates c of None \<Rightarrow> [] | Some ds \<Rightarrow> ds))) cs)"

lemma no_candidates_simps [simp]:
  "no_candidates []" "no_candidates (c # cs) = (candidates c = None \<and> no_candidates cs)"
  "no_candidates (cs @ ds) = (no_candidates cs \<and> no_candidates ds)"
  by (auto simp: no_candidates_def)

lemma no_candidate_calls: "no_candidates cs \<Longrightarrow> candidate_calls cs = []"
  by (induction cs) (simp_all add: candidate_calls_def)

lemma built_without_candidates [simp]:
  "no_candidates (fst (flush_text i h x st))" "no_candidates (map (call_chunk i) ds)"
  "candidates (parse_error_chunk e) = None" "candidates parallel_violation_chunk = None"
  by (auto simp: no_candidates_def flush_text_def text_chunk_def call_chunk_def parse_error_chunk_def
      parallel_violation_chunk_def split_beta Let_def)

interpretation solo: loop_contract opts i "\<lambda>st. True" "\<lambda>st out t st1. no_candidates out"
  for opts i
  by unfold_locales (simp_all, (metis built_without_candidates(1) fst_conv)+)

lemma process_all_bounded:
  "buffers_bounded st \<Longrightarrow> process_all opts i ps st = (out, False, st1) \<Longrightarrow> buffers_bounded st1"
proof (induction ps arbitrary: st out)
  case (Cons p ps)
  obtain out1 t st2 where p: "process_text opts i (fst p) (snd p) st = (out1, t, st2)" by (metis prod_cases3)
  then have t: "\<not> t" and r: "\<exists>out2. process_all opts i ps st2 = (out2, False, st1)"
    using Cons.prems(2) by (auto simp: Let_def split: if_splits prod.splits)
  have "buffers_bounded st2"
  proof (cases "snd p = []")
    case True
    then show ?thesis using p Cons.prems(1) by (simp add: process_text_def)
  next
    case False
    then show ?thesis
      using bounded.process_text_rel [OF p] t Cons.prems(1) by (auto simp: buffers_bounded_def split: if_splits)
  qed
  with r Cons.IH show ?case by blast
qed simp

section \<open>Whole streams\<close>

lemma close_choice_facts:
  assumes "close_choice st i f = (out, st1)"
  shows "stream_calls out = [] \<and> calls_on i out \<and> in_tool_call st1 = in_tool_call st \<and> emitted_call st1 = emitted_call st"
  using assms flush_plain [of _ i False "text_buffer st" st]
  by (auto simp: close_choice_def calls_on_def split_beta Let_def split: if_splits)

text \<open>Of a chunk, only the run over its text can emit calls or end the stream.\<close>

lemma parse_choice_chunkE:
  assumes "parse_choice_chunk opts c st = (out, t, st1)"
  obtains out1 st2 out2 where
    "process_text opts (choice_index c) (is_first c) (text_delta c) st = (out1, t, st2)" "out = out1 @ out2"
    "stream_calls out2 = []" "calls_on (choice_index c) out2" "in_tool_call st1 = in_tool_call st2"
    "emitted_call st1 = emitted_call st2" "t \<longrightarrow> out2 = []"
    "finish_reason c = None \<or> is_done c \<longrightarrow> done_last False out2"
proof -
  let ?i = "choice_index c"
  obtain out1 t2 st2 where p: "process_text opts ?i (is_first c) (text_delta c) st = (out1, t2, st2)" by (metis prod_cases3)
  define out2 where "out2 = drop (length out1) out"
  have e: "process_text opts ?i (is_first c) [] st = ([], False, st)" by (simp add: process_text_def)
  have "t = t2 \<and> out = out1 @ out2 \<and> stream_calls out2 = [] \<and> calls_on ?i out2 \<and> in_tool_call st1 = in_tool_call st2 \<and>
      emitted_call st1 = emitted_call st2 \<and> (t \<longrightarrow> out2 = []) \<and>
      (finish_reason c = None \<or> is_done c \<longrightarrow> done_last False out2)"
    using assms p e close_choice_facts unfolding out2_def parse_choice_chunk_def Let_def
    by (fastforce simp: calls_on_def done_last_def split: if_splits prod.splits)
  with p that show thesis by blast
qed

lemma close_tails_facts:
  assumes "close_tails h states = (out, failed, states1)"
  shows "done_last failed out \<and> (\<forall>c \<in> set out. tool_call_delta c = None)"
  using assms
proof (induction h states arbitrary: out states1 rule: close_tails.induct)
  case (2 h i st rest)
  obtain out' f sts where r: "close_tails h rest = (out', f, sts)" by (metis prod_cases3)
  have fp: "\<forall>c \<in> set (fst (flush_text i h (text_buffer st) st)). \<not> is_done c \<and> tool_call_delta c = None"
    using flush_plain by blast
  show ?case
  proof (cases "closed st \<or> in_tool_call st")
    case True
    then show ?thesis using 2 r by (auto simp: split: if_splits)
  next
    case False
    then have "out = fst (flush_text i h (text_buffer st) st) @ out'" "failed = f"
      using 2(3) r by (auto simp: split_beta Let_def)
    with 2(2) [OF _ _ refl surjective_pairing [symmetric], of out' sts] False r fp show ?thesis
      by (auto intro: done_last_append)
  qed
qed simp

lemma finish_stream_facts:
  "done_last True (finish_stream opts c states) \<and> (\<forall>x \<in> set (finish_stream opts c states). tool_call_delta x = None)"
proof -
  let ?c = "rewrite_terminal opts c" and ?s = "if states = [] then [(0, choice0)] else states"
  obtain out f sts where r: "close_tails (is_first ?c) ?s = (out, f, sts)" by (metis prod_cases3)
  then show ?thesis
    using close_tails_facts [OF r] by (auto simp: finish_stream_def Let_def done_last_def intro!: done_last_append)
qed

lemma close_tails_solo: "no_candidates (fst (close_tails h states))"
proof (induction states)
  case (Cons p rest)
  then show ?case by (cases p) (auto simp: split_beta Let_def)
qed simp

lemma parse_choice_chunk_solo: "no_candidates (fst (parse_choice_chunk opts c st))"
proof -
  have "no_candidates (fst (process_text opts i h x st))" for i h x
  proof (cases "x = []")
    case True
    then show ?thesis by (simp add: process_text_def)
  next
    case False
    obtain out t st1 where p: "process_text opts i h x st = (out, t, st1)" by (metis prod_cases3)
    with solo.process_text_rel [OF p _ False] show ?thesis by simp
  qed
  then show ?thesis by (auto simp: parse_choice_chunk_def close_choice_def split_beta Let_def)
qed

lemma stream_solo: "no_candidates cs \<Longrightarrow> no_candidates (parse_stream opts cs states)"
proof (induction cs arbitrary: states)
  case Nil
  then show ?case using close_tails_solo [of False states] by (auto simp: split_beta Let_def)
next
  case (Cons c cs)
  then show ?case
    using parse_choice_chunk_solo [of opts c "choice_of states (choice_index c)"] close_tails_solo
    by (auto simp: split_beta Let_def finish_stream_def rewrite_terminal_def)
qed

definition choice_calls :: "int \<Rightarrow> generation_chunk list \<Rightarrow> tool_call_delta list" where
  "choice_calls i cs = stream_calls (filter (\<lambda>c. choice_index c = i) cs)"

lemma choice_calls_simps [simp]:
  "choice_calls i [] = []" "choice_calls i (cs @ ds) = choice_calls i cs @ choice_calls i ds"
  "choice_calls i (c # cs) = (if choice_index c = i then (case tool_call_delta c of None \<Rightarrow> [] | Some d \<Rightarrow> [d]) else []) @ choice_calls i cs"
  by (simp_all add: choice_calls_def)

lemma choice_calls_none: "\<forall>c \<in> set cs. tool_call_delta c = None \<Longrightarrow> choice_calls i cs = []"
  by (induction cs) simp_all

lemma choice_calls_on: "calls_on j cs \<Longrightarrow> choice_calls i cs = (if i = j then stream_calls cs else [])"
  by (induction cs) (auto simp: calls_on_def split: option.splits)

lemma choice_of_set: "choice_of (od_set i st states) j = (if i = j then st else choice_of states j)"
  by (simp add: choice_of_def map_of_od_set)

lemma parse_choice_chunk_single:
  assumes "\<not> parallel_tool_calls opts" and "single_call_inv opts st" and "parse_choice_chunk opts c st = (out, t, st1)"
  shows "length (choice_calls i out) + (if choice_index c = i then allowance st1 else 0)
      \<le> (if choice_index c = i then allowance st else 0) \<and> single_call_inv opts st1"
proof -
  let ?j = "choice_index c"
  obtain out1 st2 out2 where p: "process_text opts ?j (is_first c) (text_delta c) st = (out1, t, st2)" "out = out1 @ out2"
    "stream_calls out2 = []" "calls_on ?j out2" "in_tool_call st1 = in_tool_call st2" "emitted_call st1 = emitted_call st2"
    by (rule parse_choice_chunkE [OF assms(3)])
  have "length (stream_calls out1) + allowance st2 \<le> allowance st \<and> single_call_inv opts st2 \<and> calls_on ?j out1"
  proof (cases "text_delta c = []")
    case True
    then show ?thesis using p(1) assms(2) by (auto simp: process_text_def calls_on_def)
  next
    case False
    then show ?thesis
      using single.process_text_rel [OF p(1)] assms(1,2) by (simp add: single_call_inv_def allowance_def)
  qed
  then show ?thesis
    using p(2-) choice_calls_on [of ?j out1 i] choice_calls_on [of ?j out2 i] by (auto simp: allowance_def single_call_inv_def)
qed

lemma stream_single_call:
  assumes "\<not> parallel_tool_calls opts" and "\<forall>c \<in> set cs. tool_call_delta c = None"
    and "\<forall>j. single_call_inv opts (choice_of states j)"
  shows "length (choice_calls i (parse_stream opts cs states)) \<le> allowance (choice_of states i)"
  using assms(2,3)
proof (induction cs arbitrary: states)
  case Nil
  obtain out f sts where r: "close_tails False states = (out, f, sts)" by (metis prod_cases3)
  then show ?case using close_tails_facts [OF r] choice_calls_none [of out i] by (simp add: Let_def)
next
  case (Cons c cs)
  show ?case
  proof (cases "text_delta c = [] \<and> \<not> is_done c \<and> finish_reason c = None \<and> \<not> has_logprobs c")
    case True
    then show ?thesis using Cons by simp
  next
    case False
    let ?j = "choice_index c" let ?st = "choice_of states ?j"
    obtain out t st where o: "parse_choice_chunk opts c ?st = (out, t, st)" by (metis prod_cases3)
    note s = parse_choice_chunk_single [OF assms(1) _ o, of i]
    have inv: "\<forall>j. single_call_inv opts (choice_of (od_set ?j st states) j)"
      using s Cons.prems(2) by (simp add: choice_of_set)
    have fs: "choice_calls i (finish_stream opts c (od_set ?j st states)) = []"
      using finish_stream_facts by (intro choice_calls_none) blast
    have "length (choice_calls i (parse_stream opts cs (od_set ?j st states))) \<le> allowance (choice_of (od_set ?j st states) i)"
      using Cons.IH [OF _ inv] Cons.prems(1) by simp
    then show ?thesis
      using s Cons.prems(2) o fs by (simp add: False choice_of_set Let_def split: if_splits)
  qed
qed

lemma stream_terminal:
  assumes "\<forall>c \<in> set cs. finish_reason c = None \<or> is_done c"
  shows "done_last True (parse_stream opts cs states)"
  using assms
proof (induction cs arbitrary: states)
  case Nil
  obtain out f sts where r: "close_tails False states = (out, f, sts)" by (metis prod_cases3)
  then show ?case using close_tails_facts [OF r] by (auto simp: Let_def done_last_def intro!: done_last_append)
next
  case (Cons c cs)
  show ?case
  proof (cases "text_delta c = [] \<and> \<not> is_done c \<and> finish_reason c = None \<and> \<not> has_logprobs c")
    case True
    then show ?thesis using Cons done_last_append [of "[c]" True] by simp
  next
    case False
    let ?j = "choice_index c" let ?st = "choice_of states ?j"
    let ?r = "if reasoning_delta c \<noteq> [] then [chunk0\<lparr>choice_index := ?j, reasoning_delta := reasoning_delta c\<rparr>] else []"
    obtain out t st where o: "parse_choice_chunk opts c ?st = (out, t, st)" by (metis prod_cases3)
    obtain out1 st2 out2 where p: "process_text opts ?j (is_first c) (text_delta c) ?st = (out1, t, st2)" "out = out1 @ out2"
      "t \<longrightarrow> out2 = []" "finish_reason c = None \<or> is_done c \<longrightarrow> done_last False out2"
      by (rule parse_choice_chunkE [OF o])
    let ?tail = "if t then [] else if is_done c then finish_stream opts c (od_set ?j st states)
        else parse_stream opts cs (od_set ?j st states)"
    have "done_last t out1"
      using ending.process_text_rel [OF p(1)] p(1) by (cases "text_delta c = []") (auto simp: process_text_def)
    then have "done_last t out" using p Cons.prems by (cases t) auto
    moreover have "done_last True (finish_stream opts c (od_set ?j st states))" using finish_stream_facts by blast
    moreover have "done_last True (parse_stream opts cs (od_set ?j st states))" using Cons by simp
    ultimately have "done_last True (out @ ?tail)" by (auto intro: done_last_append simp: done_last_def [of False])
    then have "done_last True (?r @ out @ ?tail)" by (rule done_last_append [rotated]) simp
    then show ?thesis using o by (simp add: False Let_def split: if_splits)
  qed
qed

section \<open>Properties\<close>

definition demo_tool_options :: "bool \<Rightarrow> parser_options" where
  "demo_tool_options par = \<lparr>call_format = TF_qwen_xml, parallel_tool_calls = par, schemas = [], lib = demo_lib\<rparr>"

definition demo_block :: string where
  "demo_block = ''<tool_call><function=f><parameter=x>1</parameter></function></tool_call>''"

definition tool_chunk :: "int \<Rightarrow> string \<Rightarrow> finish_reason option \<Rightarrow> bool \<Rightarrow> generation_chunk" where
  "tool_chunk i t f d = chunk0\<lparr>text_delta := t, choice_index := i, finish_reason := f, is_done := d\<rparr>"

text \<open>
  C3. Chunk boundaries do not matter: two ways of cutting the same text, within the buffer
  limit, give the same characters, calls and errors in the same order, end the stream
  together and leave the choice in the same state.
\<close>

theorem tool_chunking_invariant:
  assumes "concat (map snd ps) = concat (map snd qs)" and "room st (concat (map snd ps))"
  shows "obs (process_all opts i ps st) = obs (process_all opts i qs st)"
  using process_all_concat [OF assms(2), of opts i False] process_all_concat [of st qs opts i False] assms by simp

theorem tool_chunking_invariant_witness:
  "obs (process_all (demo_tool_options True) 0 [(True, ''a<tool_''), (False, ''call>x'')] choice0) =
   obs (process_all (demo_tool_options True) 0 [(True, ''a<tool_call''), (True, ''>''), (False, ''x'')] choice0)"
  by (rule tool_chunking_invariant) (simp_all add: room_def choice0_def max_tool_buffer_chars_def)

text \<open>
  C5. What a stream of one choice delivers of a text within the buffer limit, however it is cut into chunks, is the reading of the
  whole text: its text outside the blocks, its calls in order, numbered from 0, and the error at which the reading stopped, if any.
  Where the reading meets no error, so that every block is closed, holds a call and is allowed by the setting for parallel calls,
  \<open>_parse_candidate_text\<close> makes the same text and the same names and arguments of it. Where it meets one the two differ on
  purpose: the stream reports it, the candidate keeps the block as text. Identifiers are random and are not compared.
\<close>

theorem tool_stream_matches_candidate:
  assumes "\<forall>c \<in> set cs. plain i c" and "terminal i d" and "t = concat (map text_delta (cs @ [d]))"
    and "length t \<le> max_tool_buffer_chars" and "stream_reading opts False t = (shown, calls, e)"
    and "out = parse_stream opts (cs @ [d]) []"
  shows "stream_text out = shown \<and> call_contents (stream_calls out) = enumerate 0 calls \<and>
    (\<forall>x. e = Some x \<longrightarrow> (\<exists>c \<in> set out. error_code c = Some x)) \<and>
    (e = None \<longrightarrow> fst (parse_candidate_text opts n t) = shown \<and> map wire_content (snd (parse_candidate_text opts n t)) = calls)"
  using stream_reads [OF assms] parse_candidate_reading [of opts False t shown calls n] assms(5) by blast

theorem tool_stream_matches_candidate_witness:
  "let t = ''Hi '' @ demo_block @ '' bye''; calls = [(''f'', ''{}'')];
       out = parse_stream (demo_tool_options False)
         ([tool_chunk 0 (take 8 t) None False] @ [tool_chunk 0 (drop 8 t) (Some FR_stop) True]) []
   in stream_text out = ''Hi  bye'' \<and> call_contents (stream_calls out) = enumerate 0 calls \<and>
      map wire_content (snd (parse_candidate_text (demo_tool_options False) 0 t)) = calls"
proof -
  let ?t = "''Hi '' @ demo_block @ '' bye''" and ?d = "tool_chunk 0 (drop 8 (''Hi '' @ demo_block @ '' bye'')) (Some FR_stop) True"
  let ?c = "tool_chunk 0 (take 8 ?t) None False"
  have rd: "stream_reading (demo_tool_options False) False ?t = (''Hi  bye'', [(''f'', ''{}'')], None)" by code_simp
  have cs: "\<forall>c \<in> set [?c]. plain 0 c" "terminal 0 ?d" by (simp_all add: plain_def terminal_def tool_chunk_def)
  have t: "?t = concat (map text_delta ([?c] @ [?d]))" by (simp add: tool_chunk_def del: take_append drop_append append_assoc)
  have l: "length ?t \<le> max_tool_buffer_chars" by (simp add: demo_block_def max_tool_buffer_chars_def)
  show ?thesis unfolding Let_def using tool_stream_matches_candidate [OF cs t l rd refl, of 0] by blast
qed

text \<open>
  C26. Without parallel calls every choice of a streamed generation gets at most one: when no upstream chunk carries candidates, the
  chunks of a choice hold at most the two deltas of a single call, over the whole stream and however the choices interleave, and
  no chunk delivers calls in candidates.
\<close>

theorem single_call_without_parallel:
  assumes "\<not> parallel_tool_calls opts" and "\<forall>c \<in> set cs. tool_call_delta c = None \<and> candidates c = None"
  shows "length (choice_calls i (parse_stream opts cs [])) \<le> 2 \<and> candidate_calls (parse_stream opts cs []) = []"
proof -
  have inv: "\<forall>j. single_call_inv opts (choice_of [] j)" by (simp add: choice_of_def choice0_def single_call_inv_def)
  have nc: "no_candidates cs" and nd: "\<forall>c \<in> set cs. tool_call_delta c = None" using assms(2) by (auto simp: no_candidates_def)
  show ?thesis
    using stream_single_call [OF assms(1) nd inv, of i] no_candidate_calls [OF stream_solo [OF nc, of opts "[]"]]
    by (simp add: choice_of_def allowance_def choice0_def)
qed

theorem single_call_without_parallel_witness:
  "length (choice_calls 0 (parse_stream (demo_tool_options False)
     [tool_chunk 0 (demo_block @ demo_block) None False, tool_chunk 0 [] (Some FR_stop) True] [])) \<le> 2"
  using single_call_without_parallel [of "demo_tool_options False"
      "[tool_chunk 0 (demo_block @ demo_block) None False, tool_chunk 0 [] (Some FR_stop) True]" 0]
  by (simp add: demo_tool_options_def tool_chunk_def)

text \<open>
  The restriction does not reach the candidates of a terminal chunk: with parallel calls off, a candidate whose text holds two blocks
  is delivered with two calls.
\<close>

lemma candidate_calls_ignore_parallel:
  "length (candidate_calls (parse_stream (demo_tool_options False)
     [chunk0\<lparr>is_done := True, candidates := Some [[(''text'', PStr (demo_block @ demo_block))]]\<rparr>] [])) = 2"
  by code_simp

text \<open>
  C35. The buffers of a choice stay bounded: after any pieces of text that have not ended the
  stream, an open block and its tail fit 256 KiB, and outside a block nothing is held but the
  possible start of a tag.
\<close>

theorem tool_buffers_bounded:
  assumes "process_all opts i ps choice0 = (out, False, st)"
  shows "if in_tool_call st then length (tool_buffer st) + length (text_buffer st) \<le> 256 * 1024
    else tool_buffer st = [] \<and> length (text_buffer st) < length tag_open"
proof -
  have "buffers_bounded choice0" by (simp add: buffers_bounded_def choice0_def tag_open_def)
  from process_all_bounded [OF this assms] show ?thesis
    unfolding buffers_bounded_def max_tool_buffer_chars_def .
qed

theorem tool_buffers_bounded_witness:
  "process_all (demo_tool_options True) 0 [(True, ''ab<to'')] choice0 =
     ([], False, choice0\<lparr>text_buffer := ''ab<to''\<rparr>) \<and> length ''ab<to'' < length tag_open"
proof -
  have p: "process_all (demo_tool_options True) 0 [(True, ''ab<to'')] choice0 =
      ([], False, choice0\<lparr>text_buffer := ''ab<to''\<rparr>)"
    by code_simp
  show ?thesis using tool_buffers_bounded [OF p] p by (simp add: choice0_def)
qed

text \<open>
  The stream ends once: unless a choice is finished on its own before the end of the
  stream, exactly the last emitted chunk is terminal, also after a parse error and when the
  upstream ends without a terminal chunk.
\<close>

theorem tool_stream_ends_once:
  assumes "\<forall>c \<in> set cs. finish_reason c = None \<or> is_done c"
  shows "\<exists>early d. parse_stream opts cs [] = early @ [d] \<and> is_done d \<and> (\<forall>c \<in> set early. \<not> is_done c)"
proof -
  have "done_last True (parse_stream opts cs [])" by (rule stream_terminal [OF assms])
  then show ?thesis
    by (intro exI [of _ "butlast (parse_stream opts cs [])"] exI [of _ "last (parse_stream opts cs [])"])
      (simp add: done_last_def)
qed

theorem tool_stream_ends_once_witness:
  "\<exists>early d. parse_stream (demo_tool_options True) [tool_chunk 0 ''<tool_call>{'' None False] [] = early @ [d] \<and>
     is_done d \<and> (\<forall>c \<in> set early. \<not> is_done c)"
  by (rule tool_stream_ends_once) (simp add: tool_chunk_def)

text \<open>
  A choice that is finished inside an open block ends the stream twice: the closure emits
  the terminal parse error and the parser goes on, so the chunks of other choices follow a
  terminal chunk and the end of the stream emits a second one.
\<close>

theorem choice_finish_in_block_ends_twice:
  "map is_done (parse_stream (demo_tool_options True)
     [tool_chunk 1 ''<tool_call>{'' None False, tool_chunk 1 [] (Some FR_length) False,
      tool_chunk 0 ''a longer answer'' None False, tool_chunk 0 [] (Some FR_stop) True] []) =
   [False, True, False, True]"
  by code_simp

end
