(* ===== verification/Strict_Grammar.thy ===== *)
theory Strict_Grammar
  imports Generation_Chunk Tool_Schema
begin

text \<open>
  Verification of finished outputs for strict grammars, \<^verbatim>\<open>processors/strict_grammar.py\<close>, with the
  grammar value of \<^verbatim>\<open>types/grammar.py\<close>. The regular-expression engine and the JSON Schema validator
  are packages the module calls: they are the fields of \<open>verifier\<close>. Readings of the clock are
  arguments: \<open>ts\<close> gives for every output the reading that starts its pattern budget and the one
  that ends up checked against it.
\<close>

section \<open>Grammars\<close>

datatype grammar_kind = GK_json_schema | GK_regex | GK_ebnf

record grammar_spec =
  grammar_kind :: grammar_kind
  grammar_value :: pyval
  grammar_label :: "string option"
  grammar_strict :: "bool option"

record verifier =
  ver_lib :: py_lib
  fullmatch :: "string \<Rightarrow> string \<Rightarrow> real \<Rightarrow> bool result"
  schema_error :: "real \<Rightarrow> pydict \<Rightarrow> pyval \<Rightarrow> (string \<times> string) option result"

definition verifiable_grammar_kinds :: "grammar_kind list" where
  "verifiable_grammar_kinds = [GK_json_schema, GK_regex]"

definition requires_output_validation :: "grammar_spec option \<Rightarrow> bool" where
  "requires_output_validation g =
     (case g of None \<Rightarrow> False
      | Some g \<Rightarrow> grammar_strict g = Some True \<and> grammar_kind g \<in> set verifiable_grammar_kinds)"

definition pattern_budget_s :: real where
  "pattern_budget_s = 2"

definition max_path_chars :: nat where
  "max_path_chars = 200"

definition unverifiable_message :: string where
  "unverifiable_message = ''generated output could not be verified against the requested grammar''"

definition model_output_parse_error :: string where
  "model_output_parse_error = ''MODEL_OUTPUT_PARSE_ERROR''"

section \<open>Keywords the verifier cannot evaluate\<close>

datatype schema_context = Ctx_schema | Ctx_schema_map | Ctx_other

definition unverifiable_schema_keywords :: "string list" where
  "unverifiable_schema_keywords = [''unevaluatedProperties'']"

definition schema_map_keywords :: "string list" where
  "schema_map_keywords =
     [''properties'', ''patternProperties'', ''$defs'', ''definitions'', ''dependencies'', ''dependentRequired'',
      ''dependentSchemas'']"

definition data_keywords :: "string list" where
  "data_keywords = [''const'', ''default'', ''enum'', ''examples'']"

definition schema_child_context :: "schema_context \<Rightarrow> string \<Rightarrow> schema_context" where
  "schema_child_context parent key =
     (if parent = Ctx_schema_map then Ctx_schema
      else if parent \<noteq> Ctx_schema then Ctx_other
      else if key \<in> set schema_map_keywords then Ctx_schema_map
      else if key \<in> set data_keywords then Ctx_other
      else Ctx_schema)"

fun find_schema_keyword :: "pyval \<Rightarrow> schema_context \<Rightarrow> string option"
  and find_in_items :: "(string \<times> pyval) list \<Rightarrow> schema_context \<Rightarrow> string option"
  and find_in_list :: "pyval list \<Rightarrow> schema_context \<Rightarrow> string option" where
  "find_schema_keyword (PDict d) ctx =
     (case (if ctx = Ctx_schema then List.find (\<lambda>k. od_mem k d) unverifiable_schema_keywords else None) of
        Some k \<Rightarrow> Some k
      | None \<Rightarrow> find_in_items d ctx)"
| "find_schema_keyword (PList xs) ctx = find_in_list xs (if ctx = Ctx_schema then Ctx_schema else Ctx_other)"
| "find_schema_keyword v ctx = None"
| "find_in_items [] ctx = None"
| "find_in_items ((k, v) # d) ctx =
     (case find_schema_keyword v (schema_child_context ctx k) of Some f \<Rightarrow> Some f | None \<Rightarrow> find_in_items d ctx)"
| "find_in_list [] ctx = None"
| "find_in_list (v # vs) ctx =
     (case find_schema_keyword v ctx of Some f \<Rightarrow> Some f | None \<Rightarrow> find_in_list vs ctx)"

definition unverifiable_schema_keyword :: "pyval \<Rightarrow> string option" where
  "unverifiable_schema_keyword schema = find_schema_keyword schema Ctx_schema"

section \<open>Violations\<close>

definition remaining_pattern_budget :: "real \<Rightarrow> real \<Rightarrow> real result" where
  "remaining_pattern_budget deadline now =
     (if deadline - now \<le> 0 then Inl (TimeoutError ''strict grammar pattern budget exhausted'')
      else Inr (deadline - now))"

definition regex_violation :: "verifier \<Rightarrow> real \<Rightarrow> real \<Rightarrow> string \<Rightarrow> string \<Rightarrow> string option result" where
  "regex_violation ver deadline now pattern t =
     (case remaining_pattern_budget deadline now of
        Inl e \<Rightarrow> Inl e
      | Inr budget \<Rightarrow>
          (case fullmatch ver pattern t budget of
             Inl e \<Rightarrow> Inl e
           | Inr m \<Rightarrow> Inr (if m then None else Some ''generated output does not match the requested regex'')))"

definition shorten_path :: "string \<Rightarrow> string" where
  "shorten_path path = (if length path > max_path_chars then take (max_path_chars - 3) path @ ''...'' else path)"

definition json_schema_violation :: "verifier \<Rightarrow> real \<Rightarrow> pydict \<Rightarrow> string \<Rightarrow> string option result" where
  "json_schema_violation ver deadline schema t =
     (case json_loads_finite (ver_lib ver) t of
        None \<Rightarrow> Inr (Some ''generated output is not valid JSON'')
      | Some inst \<Rightarrow>
          if unverifiable_schema_keyword (PDict schema) \<noteq> None then Inr (Some unverifiable_message)
          else (case schema_error ver deadline schema inst of
                  Inl e \<Rightarrow> Inl e
                | Inr None \<Rightarrow> Inr None
                | Inr (Some (path, keyword)) \<Rightarrow>
                    Inr (Some (''generated output does not match the requested JSON schema at '' @ shorten_path path @
                      '' ('' @ [CHR 0x27] @ keyword @ [CHR 0x27] @ '' keyword)''))))"

definition output_violation :: "verifier \<Rightarrow> grammar_spec \<Rightarrow> real \<times> real \<Rightarrow> string \<Rightarrow> string option" where
  "output_violation ver g t01 t =
     (let deadline = fst t01 + pattern_budget_s;
          outcome = (case (grammar_kind g, grammar_value g) of
              (GK_json_schema, PDict schema) \<Rightarrow> json_schema_violation ver deadline schema t
            | (GK_regex, PStr pattern) \<Rightarrow> regex_violation ver deadline (snd t01) pattern t
            | _ \<Rightarrow> Inr (Some unverifiable_message))
      in case outcome of Inl e \<Rightarrow> Some unverifiable_message | Inr v \<Rightarrow> v)"

primrec first_output_violation :: "verifier \<Rightarrow> grammar_spec \<Rightarrow> string list \<Rightarrow> (nat \<Rightarrow> real \<times> real) \<Rightarrow> string option" where
  "first_output_violation ver g [] ts = None"
| "first_output_violation ver g (t # outs) ts =
     (case output_violation ver g (ts 0) t of
        Some v \<Rightarrow> Some v
      | None \<Rightarrow> first_output_violation ver g outs (\<lambda>n. ts (Suc n)))"

section \<open>The stream\<close>

record verify_state =
  choice_texts :: "(int, string list) odict"
  choice_finish_reasons :: "(int, finish_reason) odict"
  tool_call_choices :: "int list"

definition verify_start :: verify_state where
  "verify_start = \<lparr>choice_texts = [], choice_finish_reasons = [], tool_call_choices = []\<rparr>"

definition texts_of :: "verify_state \<Rightarrow> int \<Rightarrow> string list" where
  "texts_of s i = (case map_of (choice_texts s) i of None \<Rightarrow> [] | Some ts \<Rightarrow> ts)"

definition record_chunk :: "generation_chunk \<Rightarrow> verify_state \<Rightarrow> verify_state" where
  "record_chunk c s =
     (let i = choice_index c;
          s1 = (if text_delta c \<noteq> [] then s\<lparr>choice_texts := od_set i (texts_of s i @ [text_delta c]) (choice_texts s)\<rparr>
                else s);
          s2 = (if tool_call_delta c \<noteq> None then s1\<lparr>tool_call_choices := List.insert i (tool_call_choices s1)\<rparr> else s1)
      in case finish_reason c of
           Some r \<Rightarrow> if is_done c then s2 else s2\<lparr>choice_finish_reasons := od_set i r (choice_finish_reasons s2)\<rparr>
         | None \<Rightarrow> s2)"

definition candidate_output :: "pydict \<Rightarrow> string" where
  "candidate_output cand = (case py_get cand ''text'' of PStr t \<Rightarrow> t | _ \<Rightarrow> [])"

definition candidate_stopped :: "pydict \<Rightarrow> bool" where
  "candidate_stopped cand =
     (py_get cand ''finish_reason'' \<in> {PNone, PStr ''stop''} \<and> \<not> truthy (py_get cand ''tool_calls''))"

definition known_choices :: "verify_state \<Rightarrow> int list" where
  "known_choices s =
     sorted_list_of_set (set (od_keys (choice_texts s)) \<union> set (od_keys (choice_finish_reasons s)) \<union> set (tool_call_choices s))"

definition choice_stopped :: "verify_state \<Rightarrow> int \<Rightarrow> bool" where
  "choice_stopped s i =
     (i \<notin> set (tool_call_choices s) \<and>
      (case map_of (choice_finish_reasons s) i of None \<Rightarrow> True | Some r \<Rightarrow> r = FR_stop))"

definition truthy_list :: "'a list option \<Rightarrow> bool" where
  "truthy_list xs = (case xs of None \<Rightarrow> False | Some ys \<Rightarrow> ys \<noteq> [])"

definition terminal_outputs :: "generation_chunk \<Rightarrow> verify_state \<Rightarrow> string list" where
  "terminal_outputs c s =
     (case candidates c of
        Some (cand # cands) \<Rightarrow> map candidate_output (filter candidate_stopped (cand # cands))
      | _ \<Rightarrow>
          let choices = (if known_choices s = [] then [choice_index c] else known_choices s)
          in map (\<lambda>i. concat (texts_of s i)) (filter (choice_stopped s) choices))"

definition violation_terminal :: "string \<Rightarrow> generation_chunk \<Rightarrow> generation_chunk" where
  "violation_terminal v c =
     c\<lparr>finish_reason := Some FR_error, error_code := Some model_output_parse_error, error_message := Some v\<rparr>"

definition verified_terminal_reasons :: "finish_reason list" where
  "verified_terminal_reasons = [FR_stop, FR_tool_calls]"

definition verify_terminal :: "verifier \<Rightarrow> grammar_spec \<Rightarrow> (nat \<Rightarrow> real \<times> real) \<Rightarrow> verify_state \<Rightarrow> generation_chunk \<Rightarrow>
    generation_chunk" where
  "verify_terminal ver g ts s c =
     (if error_code c = None \<and> (case finish_reason c of None \<Rightarrow> FR_stop | Some r \<Rightarrow> r) \<in> set verified_terminal_reasons
      then (case first_output_violation ver g (terminal_outputs c s) ts of
              None \<Rightarrow> c
            | Some v \<Rightarrow> violation_terminal v c)
      else c)"

text \<open>\<open>tss n\<close> are the readings of the n-th verification; \<open>selected\<close> says that a terminal chunk was seen.\<close>

primrec validated_loop :: "verifier \<Rightarrow> grammar_spec \<Rightarrow> generation_chunk list \<Rightarrow> (nat \<Rightarrow> nat \<Rightarrow> real \<times> real) \<Rightarrow> bool \<Rightarrow>
    verify_state \<Rightarrow> generation_chunk list" where
  "validated_loop ver g [] tss selected s =
     (if selected then []
      else case first_output_violation ver g (terminal_outputs (chunk0\<lparr>is_done := True\<rparr>) s) (tss 0) of
             None \<Rightarrow> []
           | Some v \<Rightarrow> [violation_terminal v (chunk0\<lparr>is_done := True\<rparr>)])"
| "validated_loop ver g (c # cs) tss selected s =
     (let s1 = record_chunk c s
      in if is_done c
         then verify_terminal ver g (tss 0) s1 c # validated_loop ver g cs (\<lambda>n. tss (Suc n)) True s1
         else c # validated_loop ver g cs tss selected s1)"

definition enforce_strict_grammar :: "verifier \<Rightarrow> grammar_spec option \<Rightarrow> (nat \<Rightarrow> nat \<Rightarrow> real \<times> real) \<Rightarrow>
    generation_chunk list \<Rightarrow> generation_chunk list" where
  "enforce_strict_grammar ver g tss cs =
     (case g of
        Some spec \<Rightarrow> if requires_output_validation g then validated_loop ver spec cs tss False verify_start else cs
      | None \<Rightarrow> cs)"

section \<open>What the scan for keywords finds\<close>

text \<open>The dictionaries of a schema that stand where a schema is expected.\<close>

inductive schema_dict :: "schema_context \<Rightarrow> pyval \<Rightarrow> pydict \<Rightarrow> bool" where
  here: "schema_dict Ctx_schema (PDict d) d"
| item: "p \<in> set d \<Longrightarrow> schema_dict (schema_child_context ctx (fst p)) (snd p) e \<Longrightarrow> schema_dict ctx (PDict d) e"
| elem: "v \<in> set vs \<Longrightarrow> schema_dict (if ctx = Ctx_schema then Ctx_schema else Ctx_other) v e \<Longrightarrow>
    schema_dict ctx (PList vs) e"

inductive_simps schema_dict_simps:
  "schema_dict ctx (PDict d) e"
  "schema_dict ctx (PList vs) e"
  "schema_dict ctx PNone e"
  "schema_dict ctx (PBool b) e"
  "schema_dict ctx (PInt n) e"
  "schema_dict ctx (PFloat x) e"
  "schema_dict ctx (PStr t) e"
  "schema_dict ctx (PBytes t) e"

abbreviation scanned_clean :: "schema_context \<Rightarrow> pyval \<Rightarrow> bool" where
  "scanned_clean ctx v \<equiv> \<forall>e. schema_dict ctx v e \<longrightarrow> \<not> od_mem ''unevaluatedProperties'' e"

lemma scanned_clean_simps:
  "scanned_clean ctx (PDict d) \<longleftrightarrow> \<not> (ctx = Ctx_schema \<and> od_mem ''unevaluatedProperties'' d) \<and>
     (\<forall>p \<in> set d. scanned_clean (schema_child_context ctx (fst p)) (snd p))"
  "scanned_clean ctx (PList vs) \<longleftrightarrow> (\<forall>v \<in> set vs. scanned_clean (if ctx = Ctx_schema then Ctx_schema else Ctx_other) v)"
  by (simp_all only: schema_dict_simps Ball_def split_paired_All fst_conv snd_conv) blast+

lemma find_keyword_none:
  "find_schema_keyword v ctx = None \<longleftrightarrow> scanned_clean ctx v"
  "find_in_items d ctx = None \<longleftrightarrow> (\<forall>p \<in> set d. scanned_clean (schema_child_context ctx (fst p)) (snd p))"
  "find_in_list vs ctx = None \<longleftrightarrow> (\<forall>v \<in> set vs. scanned_clean ctx v)"
proof (induction v ctx and d ctx and vs ctx rule: find_schema_keyword_find_in_items_find_in_list.induct)
  case (1 d ctx)
  then show ?case unfolding scanned_clean_simps by (auto simp: unverifiable_schema_keywords_def split: option.splits)
next
  case (2 xs ctx)
  then show ?case unfolding scanned_clean_simps by simp
next
  case (5 k v d ctx)
  then show ?case by (cases "find_schema_keyword v (schema_child_context ctx k)") auto
next
  case (7 v vs ctx)
  then show ?case by (cases "find_schema_keyword v ctx") auto
qed (simp_all add: schema_dict_simps)

section \<open>What the stream records\<close>

lemma texts_record [simp]:
  "concat (texts_of (record_chunk c s) i) = concat (texts_of s i) @ (if choice_index c = i then text_delta c else [])"
  by (auto simp: record_chunk_def texts_of_def Let_def map_of_od_set split: option.splits)

lemma texts_fold: "concat (texts_of (fold record_chunk cs s) i) = concat (texts_of s i) @ choice_text i cs"
  by (induction cs arbitrary: s) auto

lemma tools_fold:
  "i \<in> set (tool_call_choices (fold record_chunk cs s)) \<longleftrightarrow>
     i \<in> set (tool_call_choices s) \<or> (\<exists>c \<in> set cs. choice_index c = i \<and> tool_call_delta c \<noteq> None)"
  by (induction cs arbitrary: s) (auto simp: record_chunk_def Let_def split: option.splits)

lemma finish_record [simp]:
  "map_of (choice_finish_reasons (record_chunk c s)) i =
     (if choice_index c = i \<and> \<not> is_done c \<and> finish_reason c \<noteq> None then finish_reason c
      else map_of (choice_finish_reasons s) i)"
  by (auto simp: record_chunk_def Let_def map_of_od_set split: option.splits)

lemma finish_fold:
  "\<forall>c \<in> set cs. choice_index c = i \<and> \<not> is_done c \<longrightarrow> finish_reason c \<in> {None, Some FR_stop} \<Longrightarrow>
     map_of (choice_finish_reasons s) i \<in> {None, Some FR_stop} \<Longrightarrow>
     map_of (choice_finish_reasons (fold record_chunk cs s)) i \<in> {None, Some FR_stop}"
proof (induction cs arbitrary: s)
  case (Cons c cs)
  have "map_of (choice_finish_reasons (record_chunk c s)) i \<in> {None, Some FR_stop}"
    using Cons.prems by (simp split: if_splits)
  with Cons show ?case by simp
qed simp

lemma known_record: "text_delta c \<noteq> [] \<Longrightarrow> choice_index c \<in> set (od_keys (choice_texts (record_chunk c s)))"
  by (auto simp: record_chunk_def Let_def od_simps od_mem_def split: option.splits)

lemma known_keeps: "i \<in> set (od_keys (choice_texts s)) \<Longrightarrow> i \<in> set (od_keys (choice_texts (fold record_chunk cs s)))"
  by (induction cs arbitrary: s) (auto simp: record_chunk_def Let_def od_simps split: option.splits)

lemma known_fold: "choice_text i cs \<noteq> [] \<Longrightarrow> i \<in> set (od_keys (choice_texts (fold record_chunk cs s)))"
  by (induction cs arbitrary: s) (auto simp: known_keeps known_record split: if_splits)

lemma validated_append:
  "\<forall>c \<in> set cs. \<not> is_done c \<Longrightarrow>
     validated_loop ver g (cs @ ds) tss sel s = cs @ validated_loop ver g ds tss sel (fold record_chunk cs s)"
  by (induction cs arbitrary: s) (auto simp: Let_def)

lemma first_violation_none:
  "first_output_violation ver g outs ts = None \<Longrightarrow> t \<in> set outs \<Longrightarrow> \<exists>n. output_violation ver g (ts n) t = None"
proof (induction outs arbitrary: ts)
  case (Cons a outs)
  show ?case
  proof (cases "t = a")
    case True
    with Cons.prems show ?thesis by (auto split: option.splits)
  next
    case False
    with Cons.prems Cons.IH [of "\<lambda>n. ts (Suc n)"] show ?thesis by (auto split: option.splits)
  qed
qed simp

lemma validated_text: "stream_text (validated_loop ver g cs tss sel s) = stream_text cs"
  by (induction cs arbitrary: tss sel s)
    (auto simp: stream_text_def Let_def verify_terminal_def violation_terminal_def split: option.splits)

lemma validated_calls: "stream_calls (validated_loop ver g cs tss sel s) = stream_calls cs"
  by (induction cs arbitrary: tss sel s)
    (auto simp: stream_calls_def map_filter_simps Let_def verify_terminal_def violation_terminal_def split: option.splits)

lemma enforce_text [simp]: "stream_text (enforce_strict_grammar ver g tss cs) = stream_text cs"
  by (simp add: enforce_strict_grammar_def validated_text split: option.splits)

lemma enforce_calls [simp]: "stream_calls (enforce_strict_grammar ver g tss cs) = stream_calls cs"
  by (simp add: enforce_strict_grammar_def validated_calls split: option.splits)

text \<open>A choice that stopped without a call is among the outputs the terminal verifies.\<close>

lemma output_listed:
  assumes "\<not> truthy_list (candidates d)" and "choice_text i (cs @ [d]) \<noteq> []"
    and "\<forall>c \<in> set (cs @ [d]). choice_index c = i \<longrightarrow> tool_call_delta c = None \<and>
      (\<not> is_done c \<longrightarrow> finish_reason c \<in> {None, Some FR_stop})"
  shows "choice_text i (cs @ [d]) \<in> set (terminal_outputs d (fold record_chunk (cs @ [d]) verify_start))"
proof -
  let ?s = "fold record_chunk (cs @ [d]) verify_start"
  have t: "concat (texts_of ?s i) = choice_text i (cs @ [d])"
    using texts_fold [of "cs @ [d]" verify_start i] by (simp add: verify_start_def texts_of_def)
  have "i \<in> set (known_choices ?s)"
    using known_fold [OF assms(2), of verify_start] by (simp add: known_choices_def)
  moreover have "choice_stopped ?s i"
    using tools_fold [of i "cs @ [d]" verify_start] finish_fold [of "cs @ [d]" i verify_start] assms(3)
    by (auto simp: choice_stopped_def verify_start_def)
  ultimately show ?thesis
    using assms(1) t by (force simp: terminal_outputs_def truthy_list_def Let_def split: option.splits list.splits)
qed

lemma verified_when_stopped:
  assumes "requires_output_validation (Some g)" and "\<forall>c \<in> set cs. \<not> is_done c" and "is_done d"
    and "\<not> truthy_list (candidates d)"
    and "r = last (enforce_strict_grammar ver (Some g) tss (cs @ [d]))"
    and "error_code r = None" and "finish_reason r \<in> {None, Some FR_stop, Some FR_tool_calls}"
    and "choice_text i (cs @ [d]) \<noteq> []"
    and "\<forall>c \<in> set (cs @ [d]). choice_index c = i \<longrightarrow> tool_call_delta c = None \<and>
      (\<not> is_done c \<longrightarrow> finish_reason c \<in> {None, Some FR_stop})"
  shows "\<exists>n. output_violation ver g (tss 0 n) (choice_text i (cs @ [d])) = None"
proof -
  let ?s = "fold record_chunk (cs @ [d]) verify_start"
  have "r = verify_terminal ver g (tss 0) ?s d"
    using assms(1-5) by (simp add: enforce_strict_grammar_def validated_append Let_def)
  then have "first_output_violation ver g (terminal_outputs d ?s) (tss 0) = None"
    using assms(6,7) by (auto simp: verify_terminal_def violation_terminal_def verified_terminal_reasons_def
        split: if_splits option.splits)
  then show ?thesis by (rule first_violation_none [OF _ output_listed [OF assms(4,8,9)]])
qed

section \<open>Properties\<close>

definition demo_grammar :: grammar_spec where
  "demo_grammar = \<lparr>grammar_kind = GK_regex, grammar_value = PStr ''ab'', grammar_label = None, grammar_strict = Some True\<rparr>"

definition demo_verifier :: verifier where
  "demo_verifier =
     \<lparr>ver_lib = demo_lib, fullmatch = (\<lambda>p t b. Inr (p = t)), schema_error = (\<lambda>dl s v. Inl (ValueError ''no validator''))\<rparr>"

definition demo_part :: "string \<Rightarrow> bool \<Rightarrow> generation_chunk" where
  "demo_part t d = chunk0\<lparr>text_delta := t, is_done := d, finish_reason := (if d then Some FR_stop else None)\<rparr>"

text \<open>
  A strict grammar holds of what is delivered: when the stream of a strict request ends without
  an error and as a stop, every choice that shows text and stopped without a tool call has a
  text that the verifier accepted.
\<close>

theorem strict_output_verified:
  assumes "requires_output_validation (Some g)" and "\<forall>c \<in> set cs. \<not> is_done c" and "is_done d"
    and "\<not> truthy_list (candidates d)"
    and "r = last (enforce_strict_grammar ver (Some g) tss (cs @ [d]))"
    and "error_code r = None" and "finish_reason r \<in> {None, Some FR_stop, Some FR_tool_calls}"
    and "choice_text i (cs @ [d]) \<noteq> []"
    and "\<forall>c \<in> set (cs @ [d]). choice_index c = i \<longrightarrow> tool_call_delta c = None \<and>
      (\<not> is_done c \<longrightarrow> finish_reason c \<in> {None, Some FR_stop})"
  shows "\<exists>n. output_violation ver g (tss 0 n) (choice_text i (cs @ [d])) = None"
  by (rule verified_when_stopped [OF assms])

theorem strict_output_verified_witness:
  "\<exists>n::nat. output_violation demo_verifier demo_grammar (0, 1) (choice_text 0 ([demo_part ''a'' False] @ [demo_part ''b'' True])) =
     None"
proof (rule strict_output_verified [where tss = "\<lambda>k m. (0, 1)"])
  show "error_code (last (enforce_strict_grammar demo_verifier (Some demo_grammar) (\<lambda>k m. (0, 1))
      ([demo_part ''a'' False] @ [demo_part ''b'' True]))) = None"
    and "finish_reason (last (enforce_strict_grammar demo_verifier (Some demo_grammar) (\<lambda>k m. (0, 1))
      ([demo_part ''a'' False] @ [demo_part ''b'' True]))) \<in> {None, Some FR_stop, Some FR_tool_calls}"
    by code_simp+
qed (simp_all add: demo_part_def truthy_list_def requires_output_validation_def verifiable_grammar_kinds_def demo_grammar_def)

text \<open>
  The scan for keywords the verifier cannot evaluate is exact: it finds none just when no
  dictionary of the schema that stands where a schema is expected has such a key.
\<close>

theorem unverifiable_scan_exact:
  "unverifiable_schema_keyword v = None \<longleftrightarrow>
     (\<forall>e. schema_dict Ctx_schema v e \<longrightarrow> \<not> od_mem ''unevaluatedProperties'' e)"
  by (simp only: unverifiable_schema_keyword_def find_keyword_none)

theorem unverifiable_scan_exact_witness:
  "\<exists>e. schema_dict Ctx_schema (PDict [(''properties'', PDict [(''a'', PDict [(''unevaluatedProperties'', PBool False)])])]) e \<and>
     od_mem ''unevaluatedProperties'' e"
proof -
  have "unverifiable_schema_keyword (PDict [(''properties'', PDict [(''a'', PDict [(''unevaluatedProperties'', PBool False)])])]) \<noteq> None"
    by code_simp
  then show ?thesis by (simp only: unverifiable_scan_exact) blast
qed

end
