(* ===== verification/Generation_Pipeline.thy ===== *)
theory Generation_Pipeline
  imports Hybrid_Usage Generation_Collect Tool_Call_Stream Strict_Grammar
begin

text \<open>
  The filters composed as \<^verbatim>\<open>processors/streaming.py\<close> stacks them on the adapter's chunks: the
  generation is counted, reasoning is hidden, tool calls are parsed and a strict grammar is
  enforced, each when the request asks for it. Of a run that the counter's exception ends only
  the exception is kept. For a stream of one choice every filter emits such a stream again.
\<close>

record stream_options =
  hybrid :: "hybrid_count option"
  keep_reasoning :: bool
  suppress_thinking :: bool
  thinking_starts_in_prompt :: bool
  stream_reasoning_format :: reasoning_format
  enable_tool_parser :: "bool option"
  stream_tools :: "pyval list option"
  stream_call_format :: tool_call_format
  stream_parallel :: bool
  stream_grammar :: "grammar_spec option"

definition hide_options :: "stream_options \<Rightarrow> suppress_options" where
  "hide_options o1 =
     \<lparr>start_inside = thinking_starts_in_prompt o1, reasoning_fmt = stream_reasoning_format o1,
      keep_thoughts = keep_reasoning o1\<rparr>"

definition wrap_parser :: "stream_options \<Rightarrow> bool" where
  "wrap_parser o1 =
     (case enable_tool_parser o1 of Some b \<Rightarrow> b
      | None \<Rightarrow> (case stream_tools o1 of None \<Rightarrow> False | Some ts \<Rightarrow> ts \<noteq> []))"

definition count_stage :: "stream_options \<Rightarrow> generation_chunk list \<Rightarrow> generation_chunk list result" where
  "count_stage o1 cs =
     (case hybrid o1 of
        None \<Rightarrow> Inr cs
      | Some h \<Rightarrow> (case count_hybrid_usage h (keep_reasoning o1) cs of (out, None) \<Rightarrow> Inr out | (out, Some e) \<Rightarrow> Inl e))"

definition hide_stage :: "stream_options \<Rightarrow> generation_chunk list \<Rightarrow> generation_chunk list" where
  "hide_stage o1 cs =
     (if suppress_thinking o1 then suppress_thinking_blocks (hide_options o1) cs suppress_start else cs)"

definition tools_stage :: "py_lib \<Rightarrow> stream_options \<Rightarrow> generation_chunk list \<Rightarrow> generation_chunk list" where
  "tools_stage l o1 cs =
     (if wrap_parser o1
      then parse_tool_call_stream l (stream_call_format o1) (stream_parallel o1) (stream_tools o1) cs else cs)"

definition wrap_stream :: "verifier \<Rightarrow> (nat \<Rightarrow> nat \<Rightarrow> real \<times> real) \<Rightarrow> stream_options \<Rightarrow> generation_chunk list \<Rightarrow>
    generation_chunk list result" where
  "wrap_stream ver tss o1 cs =
     (case count_stage o1 cs of
        Inl e \<Rightarrow> Inl e
      | Inr cs1 \<Rightarrow>
          Inr (enforce_strict_grammar ver (stream_grammar o1) tss (tools_stage (ver_lib ver) o1 (hide_stage o1 cs1))))"

lemma emit_parts_plain: "\<forall>c \<in> set (fst (emit_parts idx ps rd vd s)). plain idx c"
  by (induction ps arbitrary: rd vd s) (auto simp: split_beta Let_def plain_def)

lemma rewrite_chunk_plain:
  assumes "plain i c"
  shows "plain i (fst (rewrite_chunk c cands h rd vd s))"
  using assms by (simp add: plain_def rewrite_chunk_def empty_terminal_def Let_def)

lemma rewrite_chunk_terminal:
  assumes "terminal i c"
  shows "terminal i (fst (rewrite_chunk c None h rd vd s))"
    and "tool_call_delta (fst (rewrite_chunk c None h rd vd s)) = tool_call_delta c"
  using assms by (simp_all add: terminal_def rewrite_chunk_def stamp_empty_def Let_def)

lemma suppress_chunk_parts:
  assumes "suppress_chunk opts c s = (out, s')" and "candidates c = None"
  obtains early ps rd0 vd0 s0 rd rd' vd s1 h r where
    "emit_parts (choice_index c) ps rd0 vd0 s0 = (early, rd, vd, s1)" "rewrite_chunk c None h rd' vd s1 = (r, s')"
    "out = early @ [r]"
  using assms unfolding suppress_chunk_def Let_def by (clarsimp split: prod.splits)

lemma suppress_chunk_plain:
  assumes "suppress_chunk opts c s = (out, s')" and "plain i c" and "candidates c = None"
  shows "\<forall>x \<in> set out. plain i x"
proof -
  obtain early ps rd0 vd0 s0 rd rd' vd s1 h r where
    e: "emit_parts (choice_index c) ps rd0 vd0 s0 = (early, rd, vd, s1)" "rewrite_chunk c None h rd' vd s1 = (r, s')"
    "out = early @ [r]"
    by (rule suppress_chunk_parts [OF assms(1,3)])
  have "choice_index c = i" using assms(2) by (simp add: plain_def)
  then show ?thesis
    using emit_parts_plain [of i ps rd0 vd0 s0] rewrite_chunk_plain [OF assms(2), of None h rd' vd s1] e by auto
qed

lemma suppress_chunk_terminal:
  assumes "suppress_chunk opts c s = (out, s')" and "terminal i c" and "tool_call_delta c = None"
  obtains early r where "out = early @ [r]" "\<forall>x \<in> set early. plain i x" "terminal i r" "tool_call_delta r = None"
proof -
  have c: "choice_index c = i" "candidates c = None" using assms(2) by (simp_all add: terminal_def)
  obtain early ps rd0 vd0 s0 rd rd' vd s1 h r where
    e: "emit_parts (choice_index c) ps rd0 vd0 s0 = (early, rd, vd, s1)" "rewrite_chunk c None h rd' vd s1 = (r, s')"
    "out = early @ [r]"
    by (rule suppress_chunk_parts [OF assms(1) c(2)])
  then show thesis
    using that emit_parts_plain [of i ps rd0 vd0 s0] rewrite_chunk_terminal [OF assms(2), of h rd' vd s1] c assms(3) by auto
qed

lemma suppress_plain:
  "\<forall>c \<in> set cs. plain i c \<and> candidates c = None \<Longrightarrow> \<forall>x \<in> set (suppress_thinking_blocks opts cs s). plain i x"
proof (induction cs arbitrary: s)
  case (Cons c cs)
  obtain out s' where o: "suppress_chunk opts c s = (out, s')" by fastforce
  with Cons suppress_chunk_plain [OF o, of i] show ?case by auto
qed simp

text \<open>Hiding reasoning turns a stream of one choice into one with the visible text.\<close>

lemma suppress_single:
  assumes "\<forall>c \<in> set cs. plain i c \<and> candidates c = None" and "terminal i d" and "tool_call_delta d = None"
  obtains early r where "suppress_thinking_blocks opts (cs @ [d]) suppress_start = early @ [r]"
    "\<forall>x \<in> set early. plain i x" "terminal i r" "tool_call_delta r = None"
    "concat (map text_delta (early @ [r])) =
      fst (split_thinking_blocks (concat (map text_delta (cs @ [d]))) (start_inside opts) (reasoning_fmt opts))"
proof -
  obtain out s' where o: "suppress_chunk opts d (suppress_after opts cs suppress_start) = (out, s')" by fastforce
  obtain e1 r where e1: "out = e1 @ [r]" "\<forall>x \<in> set e1. plain i x" "terminal i r" "tool_call_delta r = None"
    by (rule suppress_chunk_terminal [OF o assms(2,3)])
  let ?early = "suppress_thinking_blocks opts cs suppress_start @ e1"
  have eq: "suppress_thinking_blocks opts (cs @ [d]) suppress_start = ?early @ [r]"
    using o e1(1) by (simp add: suppress_append)
  have pl: "\<forall>x \<in> set ?early. plain i x" using suppress_plain [OF assms(1)] e1(2) by auto
  have ci: "\<forall>c \<in> set (cs @ [d]). choice_index c = i" and ne: "\<forall>c \<in> set cs. \<not> ends_choice c" and e: "ends_choice d"
    using assms by (auto simp: plain_def terminal_def ends_choice_def)
  have "concat (map text_delta (?early @ [r])) = choice_text i (?early @ [r])"
    using pl e1(3) by (intro choice_text_all [symmetric]) (auto simp: plain_def terminal_def)
  also have "\<dots> = fst (split_thinking_blocks (concat (map text_delta (cs @ [d]))) (start_inside opts) (reasoning_fmt opts))"
    using suppress_visible [OF ci ne e, of opts] by (simp only: eq)
  finally show thesis by (intro that [OF eq pl e1(3,4)])
qed

section \<open>The stages on a stream of one choice\<close>

text \<open>Chunks of choice \<open>i\<close> that carry text only, then the terminal.\<close>

definition one_choice :: "int \<Rightarrow> generation_chunk list \<Rightarrow> bool" where
  "one_choice i cs =
     (cs \<noteq> [] \<and> (\<forall>c \<in> set (butlast cs). plain i c \<and> candidates c = None) \<and> terminal i (last cs) \<and>
      tool_call_delta (last cs) = None)"

lemma one_choiceE:
  assumes "one_choice i cs"
  obtains ds d where "cs = ds @ [d]" "\<forall>c \<in> set ds. plain i c \<and> candidates c = None" "terminal i d"
  using assms that [of "butlast cs" "last cs"] by (auto simp: one_choice_def)

lemma same_delivery_plain:
  "same_delivery a b \<Longrightarrow> plain i b \<Longrightarrow> plain i a"
  "same_delivery a b \<Longrightarrow> terminal i b \<Longrightarrow> terminal i a"
  by (simp_all add: same_delivery_def plain_def terminal_def)

lemma same_delivery_text: "list_all2 same_delivery as bs \<Longrightarrow> stream_text as = stream_text bs"
  by (induction rule: list_all2_induct) (auto simp: stream_text_def same_delivery_def)

lemma count_stage_one_choice:
  assumes "count_stage o1 cs = Inr out" and "one_choice i cs"
  shows "one_choice i out \<and> stream_text out = stream_text cs"
proof (cases "hybrid o1")
  case (Some h)
  then have l: "list_all2 same_delivery out cs"
    using assms(1) count_same by (auto simp: count_stage_def count_hybrid_usage_def split: prod.splits option.splits)
  obtain ds d where cs: "cs = ds @ [d]" by (rule one_choiceE [OF assms(2)])
  from l cs obtain es e where o: "out = es @ [e]" "list_all2 same_delivery es ds" "same_delivery e d"
    by (auto simp: list_all2_append2 list_all2_Cons2)
  have "\<forall>c \<in> set es. plain i c \<and> candidates c = None"
    using o(2) assms(2) same_delivery_plain(1)
    by (fastforce simp: one_choice_def cs list_all2_conv_all_nth in_set_conv_nth same_delivery_def)
  moreover have "terminal i e" "tool_call_delta e = None"
    using same_delivery_plain(2) [OF o(3)] o(3) assms(2) by (simp_all add: one_choice_def cs same_delivery_def)
  ultimately have "one_choice i out" using o(1) by (simp add: one_choice_def)
  with same_delivery_text [OF l] show ?thesis by simp
qed (use assms in \<open>simp add: count_stage_def\<close>)

definition count_out :: "stream_options \<Rightarrow> generation_chunk list \<Rightarrow> generation_chunk list" where
  "count_out o1 cs = (case count_stage o1 cs of Inl e \<Rightarrow> [] | Inr cs1 \<Rightarrow> cs1)"

text \<open>What the later stages are given when reasoning is hidden.\<close>

lemma hidden_stream:
  assumes "wrap_stream ver tss o1 cs = Inr out" and "one_choice i cs" and "suppress_thinking o1"
  obtains early r where "hide_stage o1 (count_out o1 cs) = early @ [r]" "\<forall>x \<in> set early. plain i x" "terminal i r"
    "stream_text (early @ [r]) =
      fst (split_thinking_blocks (stream_text cs) (thinking_starts_in_prompt o1) (stream_reasoning_format o1))"
    "tool_call_delta r = None"
    "out = enforce_strict_grammar ver (stream_grammar o1) tss (tools_stage (ver_lib ver) o1 (early @ [r]))"
proof -
  obtain cs1 where c: "count_stage o1 cs = Inr cs1" using assms(1) by (auto simp: wrap_stream_def split: sum.splits)
  have cs1: "one_choice i cs1" "stream_text cs1 = stream_text cs" using count_stage_one_choice [OF c assms(2)] by simp_all
  obtain ds d where d: "cs1 = ds @ [d]" "\<forall>c \<in> set ds. plain i c \<and> candidates c = None" "terminal i d"
    by (rule one_choiceE [OF cs1(1)])
  have n: "tool_call_delta d = None" using cs1(1) d(1) by (simp add: one_choice_def)
  obtain early r where e: "suppress_thinking_blocks (hide_options o1) (ds @ [d]) suppress_start = early @ [r]"
    "\<forall>x \<in> set early. plain i x" "terminal i r" "tool_call_delta r = None" "concat (map text_delta (early @ [r])) =
      fst (split_thinking_blocks (concat (map text_delta (ds @ [d]))) (start_inside (hide_options o1))
        (reasoning_fmt (hide_options o1)))"
    by (rule suppress_single [OF d(2,3) n])
  show thesis
    using assms(1,3) c d(1) e cs1(2)
    by (intro that [of early r]) (simp_all add: count_out_def hide_stage_def wrap_stream_def hide_options_def stream_text_def)
qed

section \<open>Properties\<close>

text \<open>
  C1. Through all the filters, for a stream of one choice with reasoning hidden, tools parsed and at most 256 KiB of visible text:
  the text and the calls delivered are the reading of the visible part of the model's output, however the chunks cut it. A call
  the model writes inside a reasoning block is never delivered. Every call of the visible text is delivered, in order and numbered
  from 0, up to the first block that is not closed, holds no call or is one too many, where the reading stops with an error. Neither
  the token count nor the verification of a strict grammar changes what is delivered.
\<close>

theorem hidden_calls_never_run:
  assumes "wrap_stream ver tss o1 cs = Inr out" and "one_choice i cs" and "suppress_thinking o1" and "wrap_parser o1"
    and "t = fst (split_thinking_blocks (stream_text cs) (thinking_starts_in_prompt o1) (stream_reasoning_format o1))"
    and "popts = \<lparr>call_format = stream_call_format o1, parallel_tool_calls = stream_parallel o1,
      schemas = tool_parameter_schemas (stream_tools o1), lib = ver_lib ver\<rparr>"
    and "length t \<le> max_tool_buffer_chars" and "stream_reading popts False t = (shown, calls, e)"
  shows "stream_text out = shown \<and> call_contents (stream_calls out) = enumerate 0 calls"
proof -
  obtain early r where e: "hide_stage o1 (count_out o1 cs) = early @ [r]" "\<forall>x \<in> set early. plain i x" "terminal i r"
    "stream_text (early @ [r]) = t" "tool_call_delta r = None"
    "out = enforce_strict_grammar ver (stream_grammar o1) tss (tools_stage (ver_lib ver) o1 (early @ [r]))"
    by (rule hidden_stream [OF assms(1-3)]) (use assms in simp)
  from stream_reads [OF e(2,3) e(4) [unfolded stream_text_def, symmetric] assms(7,8) refl] show ?thesis
    using assms(4,6) e(6) by (simp add: tools_stage_def parse_tool_call_stream_def)
qed

definition demo_stream :: "bool \<Rightarrow> grammar_spec option \<Rightarrow> stream_options" where
  "demo_stream parser g =
     \<lparr>hybrid = Some demo_count, keep_reasoning = False, suppress_thinking = True, thinking_starts_in_prompt = False,
      stream_reasoning_format = Qwen3, enable_tool_parser = Some parser, stream_tools = None,
      stream_call_format = TF_qwen_xml, stream_parallel = True, stream_grammar = g\<rparr>"

definition demo_output :: "generation_chunk list" where
  "demo_output =
     [tool_chunk 0 (''<think>no '' @ demo_block) None False,
      (tool_chunk 0 (''</think>Hi '' @ demo_block) (Some FR_stop) True)\<lparr>prompt_tokens := Some 1, completion_tokens := Some 2,
        image_tokens := Some 3\<rparr>]"

theorem hidden_calls_never_run_witness:
  "\<exists>out. wrap_stream demo_verifier (\<lambda>k m. (0, 1)) (demo_stream True None) demo_output = Inr out \<and>
     stream_text out = ''Hi '' \<and> call_contents (stream_calls out) = enumerate 0 [(''f'', ''{}'')]"
proof -
  let ?w = "wrap_stream demo_verifier (\<lambda>k m. (0, 1)) (demo_stream True None) demo_output"
  let ?p = "\<lparr>call_format = TF_qwen_xml, parallel_tool_calls = True, schemas = tool_parameter_schemas None,
    lib = ver_lib demo_verifier\<rparr>"
  have "\<not> Sum_Type.isl ?w" by code_simp
  then obtain out where o: "?w = Inr out" by (cases ?w) auto
  have "stream_text out = ''Hi '' \<and> call_contents (stream_calls out) = enumerate 0 [(''f'', ''{}'')]"
  proof (rule hidden_calls_never_run [OF o])
    show "one_choice 0 demo_output" by (simp add: one_choice_def demo_output_def tool_chunk_def plain_def terminal_def)
    show "''Hi '' @ demo_block = fst (split_thinking_blocks (stream_text demo_output)
        (thinking_starts_in_prompt (demo_stream True None)) (stream_reasoning_format (demo_stream True None)))"
      by code_simp
    show "length (''Hi '' @ demo_block) \<le> max_tool_buffer_chars" by (simp add: demo_block_def max_tool_buffer_chars_def)
    show "stream_reading ?p False (''Hi '' @ demo_block) = (''Hi '', [(''f'', ''{}'')], None)" by code_simp
  qed (simp_all add: demo_stream_def wrap_parser_def)
  with o show ?thesis by blast
qed

text \<open>
  C9. End to end, a strict grammar holds of the visible answer: when the stream of a strict request
  without tools ends without an error and as a stop, the text delivered is the visible part of
  the model's output and the verifier accepted exactly that text.
\<close>

theorem strict_stream_conforms:
  assumes "wrap_stream ver tss o1 cs = Inr out" and "one_choice i cs"
    and "suppress_thinking o1" and "\<not> wrap_parser o1"
    and "stream_grammar o1 = Some g" and "requires_output_validation (Some g)"
    and "error_code (last out) = None" and "finish_reason (last out) \<in> {None, Some FR_stop, Some FR_tool_calls}"
    and "t = fst (split_thinking_blocks (stream_text cs) (thinking_starts_in_prompt o1) (stream_reasoning_format o1))"
    and "t \<noteq> []"
  shows "stream_text out = t \<and> (\<exists>n. output_violation ver g (tss 0 n) t = None)"
proof -
  obtain early r where e: "hide_stage o1 (count_out o1 cs) = early @ [r]" "\<forall>x \<in> set early. plain i x" "terminal i r"
    "stream_text (early @ [r]) = t" "tool_call_delta r = None" "out = enforce_strict_grammar ver (Some g) tss (early @ [r])"
    by (rule hidden_stream [OF assms(1-3)]) (use assms in \<open>auto simp: tools_stage_def\<close>)
  have t: "choice_text i (early @ [r]) = t"
    using e(2-4) by (subst choice_text_all) (auto simp: plain_def terminal_def stream_text_def)
  have "\<exists>n. output_violation ver g (tss 0 n) (choice_text i (early @ [r])) = None"
  proof (rule verified_when_stopped [OF assms(6)])
    show "\<forall>c \<in> set early. \<not> is_done c" using e(2) by (simp add: plain_def)
    show "is_done r" "\<not> truthy_list (candidates r)" using e(3) by (simp_all add: terminal_def truthy_list_def)
    show "\<forall>c \<in> set (early @ [r]). choice_index c = i \<longrightarrow> tool_call_delta c = None \<and>
        (\<not> is_done c \<longrightarrow> finish_reason c \<in> {None, Some FR_stop})"
      using e(2,3,5) by (auto simp: plain_def terminal_def)
  qed (use assms e(6) t in simp_all)
  then show ?thesis using e(4,6) t by simp
qed

definition demo_answer :: "generation_chunk list" where
  "demo_answer =
     [tool_chunk 0 ''<think>no</thi'' None False,
      (tool_chunk 0 ''nk>ab'' (Some FR_stop) True)\<lparr>prompt_tokens := Some 1, completion_tokens := Some 2,
        image_tokens := Some 3\<rparr>]"

theorem strict_stream_conforms_witness:
  "\<exists>out. wrap_stream demo_verifier (\<lambda>k m. (0, 1)) (demo_stream False (Some demo_grammar)) demo_answer = Inr out \<and>
     stream_text out = ''ab'' \<and> (\<exists>n::nat. output_violation demo_verifier demo_grammar (0, 1) ''ab'' = None)"
proof -
  let ?w = "wrap_stream demo_verifier (\<lambda>k m. (0, 1)) (demo_stream False (Some demo_grammar)) demo_answer"
  have "case ?w of Inl e \<Rightarrow> False | Inr out \<Rightarrow> error_code (last out) = None \<and> finish_reason (last out) = Some FR_stop"
    by code_simp
  then obtain out where o: "?w = Inr out" "error_code (last out) = None" "finish_reason (last out) = Some FR_stop"
    by (cases ?w) auto
  have "stream_text out = ''ab'' \<and> (\<exists>n::nat. output_violation demo_verifier demo_grammar (0, 1) ''ab'' = None)"
  proof (rule strict_stream_conforms [where tss = "\<lambda>k m. (0, 1)", OF o(1) _ _ _ _ _ o(2)])
    show "one_choice 0 demo_answer" by (simp add: one_choice_def demo_answer_def tool_chunk_def plain_def terminal_def)
    show "''ab'' = fst (split_thinking_blocks (stream_text demo_answer)
        (thinking_starts_in_prompt (demo_stream False (Some demo_grammar)))
        (stream_reasoning_format (demo_stream False (Some demo_grammar))))"
      by code_simp
  qed (simp_all add: o demo_stream_def wrap_parser_def requires_output_validation_def verifiable_grammar_kinds_def
      demo_grammar_def)
  with o(1) show ?thesis by blast
qed

end
