(* ===== verification/Kv_Admission.thy ===== *)
theory Kv_Admission
  imports Py_Text
begin

text \<open>
  Admission of generations on a worker: the ledger of reserved KV-cache tokens and the handles
  and tombstones of cancelled requests, from \<^verbatim>\<open>processors/streaming.py\<close>; the switches of
  \<^verbatim>\<open>processors/admission.py\<close>; the hysteresis gate of \<^verbatim>\<open>health/saturation.py\<close> that reads the
  ledger; and the readiness flag of \<^verbatim>\<open>core/readiness.py\<close>. The life of an attempt is an
  \<open>inductive\<close> step relation that calls the operations in the order of \<^verbatim>\<open>_process_inner\<close> and
  \<^verbatim>\<open>_process_inner_guarded\<close>. Telemetry and logging are left out.
\<close>

section \<open>Configuration\<close>

datatype admission_mode = Mode_auto | Mode_on | Mode_off

definition parse_admission_env :: "string option \<Rightarrow> admission_mode" where
  "parse_admission_env value =
     (case value of
        None \<Rightarrow> Mode_auto
      | Some v \<Rightarrow>
          if py_strip v = [] then Mode_auto
          else let n = py_lower (py_strip v)
               in if n = ''auto'' then Mode_auto else if n = ''on'' then Mode_on
                  else if n = ''off'' then Mode_off else Mode_auto)"

text \<open>\<open>environ\<close> is the variable of the process, used when no value is passed.\<close>

definition resolve_admission_enabled :: "bool option \<Rightarrow> string option \<Rightarrow> string option \<Rightarrow> bool" where
  "resolve_admission_enabled profile env_value environ =
     (case parse_admission_env (if env_value \<noteq> None then env_value else environ) of
        Mode_on \<Rightarrow> True
      | Mode_off \<Rightarrow> False
      | Mode_auto \<Rightarrow> (case profile of Some b \<Rightarrow> b | None \<Rightarrow> False))"

text \<open>What the registry or the resolver gives for a model: an integer, a boolean or anything else.\<close>

datatype setting = S_int int | S_bool bool | S_other

definition positive_budget :: "setting \<Rightarrow> int option" where
  "positive_budget v = (case v of S_int n \<Rightarrow> if n \<le> 0 then None else Some n | S_bool True \<Rightarrow> Some 1 | _ \<Rightarrow> None)"

text \<open>The lookup of a model's configuration: it may fail, and it may declare no generation task.\<close>

datatype profile_lookup = No_config | No_generation | Unresolvable | Profile_budget setting

definition resolve_budget_for_model :: "profile_lookup \<Rightarrow> int option" where
  "resolve_budget_for_model l = (case l of Profile_budget v \<Rightarrow> positive_budget v | _ \<Rightarrow> None)"

datatype resolver_answer = No_resolver | Resolver_raises | Resolved setting setting

definition resolve_admission_for_model :: "resolver_answer \<Rightarrow> profile_lookup \<Rightarrow> int option \<times> bool option" where
  "resolve_admission_for_model r l =
     (case r of
        No_resolver \<Rightarrow> (resolve_budget_for_model l, None)
      | Resolver_raises \<Rightarrow> (None, None)
      | Resolved budget enabled \<Rightarrow>
          (positive_budget budget, case enabled of S_bool b \<Rightarrow> Some b | _ \<Rightarrow> None))"

section \<open>The size of a reservation\<close>

definition estimate_tokens_from_chars :: "string \<Rightarrow> real \<Rightarrow> int result" where
  "estimate_tokens_from_chars t chars_per_token =
     (if chars_per_token \<le> 0 then Inl (ValueError ''chars_per_token must be positive'')
      else if t = [] then Inr 0
      else Inr (max 1 (py_int (real (length t) / chars_per_token))))"

definition vision_tokens_per_image_estimate :: int where
  "vision_tokens_per_image_estimate = 1280"

definition vision_tokens_for_images :: "(string \<Rightarrow> setting) \<Rightarrow> int \<Rightarrow> int" where
  "vision_tokens_for_images adapter n =
     (if n \<le> 0 then 0
      else let name = (if n = 1 then ''image_token_budget'' else ''multi_image_token_budget'')
           in n * (case adapter name of
                     S_int b \<Rightarrow> if b > vision_tokens_per_image_estimate then b else vision_tokens_per_image_estimate
                   | _ \<Rightarrow> vision_tokens_per_image_estimate))"

section \<open>The ledger\<close>

definition released_requests_max :: nat where
  "released_requests_max = 1024"

definition cancel_tombstone_max :: nat where
  "cancel_tombstone_max = 1024"

definition cancel_tombstone_ttl_s :: real where
  "cancel_tombstone_ttl_s = 120"

record processor =
  kv_budget_tokens :: "int option"
  admission_enabled :: bool
  kv_reserved :: int
  generation_inflight :: int
  released_requests :: "(string, unit) odict"
  in_flight_cancels :: "(string, (string, bool) odict) odict"
  cancel_tombstones :: "(string, real) odict"

definition new_processor :: "int option \<Rightarrow> bool \<Rightarrow> processor" where
  "new_processor budget enabled =
     \<lparr>kv_budget_tokens = budget, admission_enabled = enabled, kv_reserved = 0, generation_inflight = 0,
      released_requests = [], in_flight_cancels = [], cancel_tombstones = []\<rparr>"

definition release_dedup_key :: "string option \<Rightarrow> string option \<Rightarrow> string option" where
  "release_dedup_key request_id attempt_id = (if attempt_id \<noteq> None then attempt_id else request_id)"

definition effective_budget :: "int option \<Rightarrow> processor \<Rightarrow> int option" where
  "effective_budget override p = (if override \<noteq> None then override else kv_budget_tokens p)"

definition effective_admission :: "bool option \<Rightarrow> processor \<Rightarrow> bool" where
  "effective_admission override p = (case override of Some b \<Rightarrow> b | None \<Rightarrow> admission_enabled p)"

definition try_reserve :: "int \<Rightarrow> int option \<Rightarrow> bool option \<Rightarrow> string option \<Rightarrow> string option \<Rightarrow> processor \<Rightarrow>
    bool \<times> processor" where
  "try_reserve n budget_override enabled_override request_id attempt_id p =
     (if effective_admission enabled_override p \<and>
         (case effective_budget budget_override p of None \<Rightarrow> False | Some b \<Rightarrow> kv_reserved p + n > b)
      then (False, p)
      else
        (True, p\<lparr>kv_reserved := kv_reserved p + n, generation_inflight := generation_inflight p + 1,
                 released_requests :=
                   (case release_dedup_key request_id attempt_id of
                      None \<Rightarrow> released_requests p
                    | Some k \<Rightarrow> od_del k (released_requests p))\<rparr>))"

text \<open>The keys remembered after a release: the newest \<open>released_requests_max\<close>.\<close>

definition remember_release :: "string \<Rightarrow> (string, unit) odict \<Rightarrow> (string, unit) odict" where
  "remember_release k d =
     (let d1 = od_set k () d in drop (length d1 - released_requests_max) d1)"

definition release_reservation :: "int \<Rightarrow> string option \<Rightarrow> string option \<Rightarrow> processor \<Rightarrow> processor" where
  "release_reservation n request_id attempt_id p =
     (let drop_it = (\<lambda>q. q\<lparr>kv_reserved := max 0 (kv_reserved q - n),
                          generation_inflight := max 0 (generation_inflight q - 1)\<rparr>)
      in case release_dedup_key request_id attempt_id of
           None \<Rightarrow> drop_it p
         | Some k \<Rightarrow>
             if od_mem k (released_requests p) then p
             else drop_it (p\<lparr>released_requests := remember_release k (released_requests p)\<rparr>))"

section \<open>Cancellation\<close>

definition register_cancel :: "string \<Rightarrow> string \<Rightarrow> processor \<Rightarrow> processor" where
  "register_cancel r a p =
     (let attempts = (case map_of (in_flight_cancels p) r of None \<Rightarrow> [] | Some d \<Rightarrow> d)
      in p\<lparr>in_flight_cancels := od_set r (od_set a False attempts) (in_flight_cancels p)\<rparr>)"

definition unregister_cancel :: "string \<Rightarrow> string \<Rightarrow> processor \<Rightarrow> processor" where
  "unregister_cancel r a p =
     (case map_of (in_flight_cancels p) r of
        None \<Rightarrow> p
      | Some attempts \<Rightarrow>
          if od_del a attempts = [] then p\<lparr>in_flight_cancels := od_del r (in_flight_cancels p)\<rparr>
          else p\<lparr>in_flight_cancels := od_set r (od_del a attempts) (in_flight_cancels p)\<rparr>)"

definition make_room :: "real \<Rightarrow> (string, real) odict \<Rightarrow> (string, real) odict" where
  "make_room now d =
     (if cancel_tombstone_max \<le> length d
      then let live = filter (\<lambda>e. \<not> snd e \<le> now) d in drop (Suc (length live) - cancel_tombstone_max) live
      else d)"

definition add_tombstone :: "string \<Rightarrow> real \<Rightarrow> processor \<Rightarrow> processor" where
  "add_tombstone r now p =
     p\<lparr>cancel_tombstones := od_del r (make_room now (cancel_tombstones p)) @ [(r, now + cancel_tombstone_ttl_s)]\<rparr>"

definition signal_cancel :: "string \<Rightarrow> real \<Rightarrow> processor \<Rightarrow> bool \<times> processor" where
  "signal_cancel r now p =
     (case map_of (in_flight_cancels p) r of
        Some (e # es) \<Rightarrow>
          (True, p\<lparr>in_flight_cancels := od_set r (map (\<lambda>x. (fst x, True)) (e # es)) (in_flight_cancels p)\<rparr>)
      | _ \<Rightarrow> (False, add_tombstone r now p))"

definition check_and_consume_tombstone :: "string \<Rightarrow> real \<Rightarrow> processor \<Rightarrow> bool \<times> processor" where
  "check_and_consume_tombstone r now p =
     (case map_of (cancel_tombstones p) r of
        None \<Rightarrow> (False, p)
      | Some deadline \<Rightarrow> (now < deadline, p\<lparr>cancel_tombstones := od_del r (cancel_tombstones p)\<rparr>))"

definition in_flight_request_ids :: "processor \<Rightarrow> string list" where
  "in_flight_request_ids p = od_keys (in_flight_cancels p)"

definition in_flight_count :: "processor \<Rightarrow> nat" where
  "in_flight_count p = length (in_flight_cancels p)"

section \<open>The saturation gate and readiness\<close>

record saturation_gate =
  gate_high :: real
  gate_low :: real
  saturated :: bool

definition default_high_watermark :: real where
  "default_high_watermark = 90 / 100"

definition default_low_watermark :: real where
  "default_low_watermark = 70 / 100"

definition new_gate :: "real \<Rightarrow> real \<Rightarrow> bool \<Rightarrow> saturation_gate result" where
  "new_gate high low s =
     (if 0 \<le> low \<and> low \<le> high \<and> high \<le> 1 then Inr \<lparr>gate_high = high, gate_low = low, saturated = s\<rparr>
      else Inl (ValueError ''SaturationGate thresholds invalid''))"

definition gate_update :: "int \<Rightarrow> int \<Rightarrow> saturation_gate \<Rightarrow> bool \<times> saturation_gate" where
  "gate_update in_flight capacity g =
     (if capacity \<le> 0 then (saturated g, g)
      else
        let frac = real_of_int (max 0 in_flight) / real_of_int capacity;
            g1 = (if saturated g then (if frac \<le> gate_low g then g\<lparr>saturated := False\<rparr> else g)
                  else if frac \<ge> gate_high g then g\<lparr>saturated := True\<rparr> else g)
        in (saturated g1, g1))"

record readiness =
  ready_flag :: bool
  liveness_probe :: "bool option"

text \<open>The registered probe is represented by what it would answer.\<close>

definition is_ready :: "readiness \<Rightarrow> bool" where
  "is_ready s = (if \<not> ready_flag s then False else \<not> (liveness_probe s \<noteq> None \<and> liveness_probe s = Some False))"

definition mark_ready :: "readiness \<Rightarrow> readiness" where
  "mark_ready s = s\<lparr>ready_flag := True\<rparr>"

definition mark_not_ready :: "readiness \<Rightarrow> readiness" where
  "mark_not_ready s = s\<lparr>ready_flag := False\<rparr>"

definition register_liveness_probe :: "bool option \<Rightarrow> readiness \<Rightarrow> readiness" where
  "register_liveness_probe probe s = s\<lparr>liveness_probe := probe\<rparr>"

section \<open>The life of an attempt\<close>

text \<open>
  Where the handler of an attempt stands: the handle is registered and no tombstone was found;
  tokens are reserved; or the handler is on its way out, with the handle still registered.
\<close>

datatype phase = Started | Admitted int | Leaving | Gone

record world =
  proc :: processor
  phases :: "(string, string \<times> phase) odict"

definition set_phase :: "string \<Rightarrow> string \<Rightarrow> phase \<Rightarrow> world \<Rightarrow> world" where
  "set_phase a r ph w = w\<lparr>phases := od_set a (r, ph) (phases w)\<rparr>"

datatype proc_event =
    Start string string real
  | Reserve string int "int option" "bool option"
  | Release string
  | Leave string
  | Cancel string real

inductive proc_step :: "world \<Rightarrow> proc_event \<Rightarrow> world \<Rightarrow> bool" where
  start: "\<not> od_mem a (phases w) \<Longrightarrow> check_and_consume_tombstone r t (register_cancel r a (proc w)) = (False, p) \<Longrightarrow>
    proc_step w (Start r a t) (set_phase a r Started (w\<lparr>proc := p\<rparr>))"
| refused: "\<not> od_mem a (phases w) \<Longrightarrow> check_and_consume_tombstone r t (register_cancel r a (proc w)) = (True, p) \<Longrightarrow>
    proc_step w (Start r a t) (set_phase a r Leaving (w\<lparr>proc := p\<rparr>))"
| admitted: "map_of (phases w) a = Some (r, Started) \<Longrightarrow> 0 \<le> n \<Longrightarrow>
    try_reserve n bo eo (Some r) (Some a) (proc w) = (True, p) \<Longrightarrow>
    proc_step w (Reserve a n bo eo) (set_phase a r (Admitted n) (w\<lparr>proc := p\<rparr>))"
| rejected: "map_of (phases w) a = Some (r, Started) \<Longrightarrow> 0 \<le> n \<Longrightarrow>
    try_reserve n bo eo (Some r) (Some a) (proc w) = (False, p) \<Longrightarrow>
    proc_step w (Reserve a n bo eo) (set_phase a r Leaving (w\<lparr>proc := p\<rparr>))"
| release: "map_of (phases w) a = Some (r, Admitted n) \<Longrightarrow>
    proc_step w (Release a) (set_phase a r Leaving (w\<lparr>proc := release_reservation n (Some r) (Some a) (proc w)\<rparr>))"
| leave: "map_of (phases w) a = Some (r, ph) \<Longrightarrow> ph \<in> {Started, Leaving} \<Longrightarrow>
    proc_step w (Leave a) (set_phase a r Gone (w\<lparr>proc := unregister_cancel r a (proc w)\<rparr>))"
| cancel: "proc_step w (Cancel r t) (w\<lparr>proc := snd (signal_cancel r t (proc w))\<rparr>)"

inductive proc_run :: "world \<Rightarrow> proc_event list \<Rightarrow> world \<Rightarrow> bool" where
  run_nil: "proc_run w [] w"
| run_snoc: "proc_run w es w1 \<Longrightarrow> proc_step w1 e w2 \<Longrightarrow> proc_run w (es @ [e]) w2"

definition boot :: "int option \<Rightarrow> bool \<Rightarrow> world" where
  "boot budget enabled = \<lparr>proc = new_processor budget enabled, phases = []\<rparr>"

text \<open>The relation is a partial function; this is how a concrete run is evaluated.\<close>

definition proc_exec :: "proc_event \<Rightarrow> world \<Rightarrow> world option" where
  "proc_exec e w =
     (case e of
        Start r a t \<Rightarrow>
          if od_mem a (phases w) then None
          else let (hit, p) = check_and_consume_tombstone r t (register_cancel r a (proc w))
               in Some (set_phase a r (if hit then Leaving else Started) (w\<lparr>proc := p\<rparr>))
      | Reserve a n bo eo \<Rightarrow>
          (case map_of (phases w) a of
             Some (r, Started) \<Rightarrow>
               if n < 0 then None
               else let (ok, p) = try_reserve n bo eo (Some r) (Some a) (proc w)
                    in Some (set_phase a r (if ok then Admitted n else Leaving) (w\<lparr>proc := p\<rparr>))
           | _ \<Rightarrow> None)
      | Release a \<Rightarrow>
          (case map_of (phases w) a of
             Some (r, Admitted n) \<Rightarrow>
               Some (set_phase a r Leaving (w\<lparr>proc := release_reservation n (Some r) (Some a) (proc w)\<rparr>))
           | _ \<Rightarrow> None)
      | Leave a \<Rightarrow>
          (case map_of (phases w) a of
             Some (r, ph) \<Rightarrow>
               if ph = Started \<or> ph = Leaving
               then Some (set_phase a r Gone (w\<lparr>proc := unregister_cancel r a (proc w)\<rparr>)) else None
           | None \<Rightarrow> None)
      | Cancel r t \<Rightarrow> Some (w\<lparr>proc := snd (signal_cancel r t (proc w))\<rparr>))"

lemma proc_exec_step: "proc_step w e w' \<longleftrightarrow> proc_exec e w = Some w'"
proof
  show "proc_step w e w' \<Longrightarrow> proc_exec e w = Some w'"
    by (induction rule: proc_step.induct) (auto simp: proc_exec_def)
  show "proc_exec e w = Some w' \<Longrightarrow> proc_step w e w'"
    by (cases e) (auto simp: proc_exec_def Let_def intro: proc_step.intros
        split: if_splits prod.splits option.splits phase.splits)
qed

primrec exec_all :: "proc_event list \<Rightarrow> world \<Rightarrow> world option" where
  "exec_all [] w = Some w"
| "exec_all (e # es) w = (case proc_exec e w of None \<Rightarrow> None | Some w1 \<Rightarrow> exec_all es w1)"

lemma proc_run_cons: "proc_run w1 es w2 \<Longrightarrow> proc_step w e w1 \<Longrightarrow> proc_run w (e # es) w2"
proof (induction rule: proc_run.induct)
  case (run_nil w')
  then show ?case using run_snoc [OF proc_run.run_nil, of w e w'] by simp
next
  case (run_snoc w1 es w2 e' w3)
  then show ?case using proc_run.run_snoc [of w "e # es" w2 e' w3] by simp
qed

lemma exec_all_run: "exec_all es w = Some w' \<Longrightarrow> proc_run w es w'"
proof (induction es arbitrary: w)
  case (Cons e es)
  then obtain w1 where "proc_exec e w = Some w1" "exec_all es w1 = Some w'" by (auto split: option.splits)
  with Cons.IH show ?case by (intro proc_run_cons [of w1]) (simp_all add: proc_exec_step)
qed (simp add: run_nil)

section \<open>The ledger is exact\<close>

primrec tokens :: "phase \<Rightarrow> int" where
  "tokens Started = 0"
| "tokens (Admitted n) = n"
| "tokens Leaving = 0"
| "tokens Gone = 0"

primrec running :: "phase \<Rightarrow> int" where
  "running Started = 0"
| "running (Admitted n) = 1"
| "running Leaving = 0"
| "running Gone = 0"

definition total_of :: "(phase \<Rightarrow> int) \<Rightarrow> world \<Rightarrow> int" where
  "total_of g w = sum_list (map (\<lambda>e. g (snd (snd e))) (phases w))"

definition ledger_inv :: "world \<Rightarrow> bool" where
  "ledger_inv w =
     (od_wf (phases w) \<and> kv_reserved (proc w) = total_of tokens w \<and> generation_inflight (proc w) = total_of running w \<and>
      (\<forall>e \<in> set (phases w). 0 \<le> tokens (snd (snd e))) \<and>
      (\<forall>k \<in> set (od_keys (released_requests (proc w))). \<exists>r ph. map_of (phases w) k = Some (r, ph) \<and> ph \<in> {Leaving, Gone}))"

lemma total_set_phase:
  assumes "od_wf (phases w)"
  shows "total_of g (set_phase a r ph w) =
    total_of g w - (case map_of (phases w) a of None \<Rightarrow> 0 | Some e \<Rightarrow> g (snd e)) + g ph"
  using sum_od_set [OF assms, of "\<lambda>e. g (snd e)" a "(r, ph)"]
  by (simp add: total_of_def set_phase_def split: option.splits)

lemma phases_proc [simp]: "phases (w\<lparr>proc := p\<rparr>) = phases w" "proc (set_phase a r ph w) = proc w"
  "phases (set_phase a r ph w) = od_set a (r, ph) (phases w)"
  by (simp_all add: set_phase_def)

lemma total_proc [simp]: "total_of g (w\<lparr>proc := p\<rparr>) = total_of g w"
  by (simp add: total_of_def)

lemma ledger_fields [simp]:
  "kv_reserved (register_cancel r a p) = kv_reserved p" "kv_reserved (unregister_cancel r a p) = kv_reserved p"
  "kv_reserved (snd (signal_cancel r t p)) = kv_reserved p"
  "generation_inflight (register_cancel r a p) = generation_inflight p"
  "generation_inflight (unregister_cancel r a p) = generation_inflight p"
  "generation_inflight (snd (signal_cancel r t p)) = generation_inflight p"
  "released_requests (register_cancel r a p) = released_requests p"
  "released_requests (unregister_cancel r a p) = released_requests p"
  "released_requests (snd (signal_cancel r t p)) = released_requests p"
  by (simp_all add: register_cancel_def unregister_cancel_def signal_cancel_def add_tombstone_def Let_def
      split: option.splits list.splits)

lemma consume_fields:
  assumes "check_and_consume_tombstone r t p = (b, q)"
  shows "kv_reserved q = kv_reserved p" "generation_inflight q = generation_inflight p"
    "released_requests q = released_requests p" "in_flight_cancels q = in_flight_cancels p"
    "kv_budget_tokens q = kv_budget_tokens p" "admission_enabled q = admission_enabled p"
  using assms by (auto simp: check_and_consume_tombstone_def split: option.splits)

lemma ledger_keep:
  assumes "ledger_inv w" and "kv_reserved p = kv_reserved (proc w)" and "generation_inflight p = generation_inflight (proc w)"
    and "released_requests p = released_requests (proc w)"
  shows "ledger_inv (w\<lparr>proc := p\<rparr>)"
  using assms by (simp add: ledger_inv_def)

text \<open>A phase without tokens may follow any phase without tokens.\<close>

lemma ledger_set_phase:
  assumes "ledger_inv w" and "tokens ph = 0" and "running ph = 0"
    and "case map_of (phases w) a of None \<Rightarrow> True | Some e \<Rightarrow> tokens (snd e) = 0 \<and> running (snd e) = 0"
    and "ph \<in> {Leaving, Gone} \<or> a \<notin> set (od_keys (released_requests (proc w)))"
  shows "ledger_inv (set_phase a r ph w)"
proof -
  have wf: "od_wf (phases w)" using assms(1) by (simp add: ledger_inv_def)
  have "total_of tokens (set_phase a r ph w) = total_of tokens w" "total_of running (set_phase a r ph w) = total_of running w"
    using assms(2-4) by (auto simp: total_set_phase [OF wf] split: option.splits)
  moreover have "\<forall>e \<in> set (od_set a (r, ph) (phases w)). 0 \<le> tokens (snd (snd e))"
    using assms(1,2) by (auto simp: ledger_inv_def od_set_def split: if_splits)
  ultimately show ?thesis
    using assms(1,5) od_wf_ops(1) [OF wf] by (auto simp: ledger_inv_def map_of_od_set)
qed

lemma released_phase:
  assumes "ledger_inv w" and "map_of (phases w) a = None \<or> (\<exists>r ph. map_of (phases w) a = Some (r, ph) \<and> ph \<notin> {Leaving, Gone})"
  shows "a \<notin> set (od_keys (released_requests (proc w)))"
  using assms by (auto simp: ledger_inv_def)

lemma ledger_admit:
  assumes "ledger_inv w" and "map_of (phases w) a = Some (r, Started)" and "0 \<le> n"
    and "try_reserve n bo eo (Some r) (Some a) (proc w) = (True, p)"
  shows "ledger_inv (set_phase a r (Admitted n) (w\<lparr>proc := p\<rparr>))"
proof -
  have wf: "od_wf (phases w)" using assms(1) by (simp add: ledger_inv_def)
  have p: "kv_reserved p = kv_reserved (proc w) + n" "generation_inflight p = generation_inflight (proc w) + 1"
    "released_requests p = od_del a (released_requests (proc w))"
    using assms(4) by (auto simp: try_reserve_def release_dedup_key_def split: if_splits)
  have t: "total_of g (set_phase a r (Admitted n) (w\<lparr>proc := p\<rparr>)) = total_of g w - g Started + g (Admitted n)" for g
    using total_set_phase [of "w\<lparr>proc := p\<rparr>" g a r "Admitted n"] wf assms(2) by simp
  have nn: "\<forall>e \<in> set (od_set a (r, Admitted n) (phases w)). 0 \<le> tokens (snd (snd e))"
    using assms(1,3) by (auto simp: ledger_inv_def od_set_def split: if_splits)
  show ?thesis
    using assms(1) nn od_wf_ops(1) [OF wf] p by (auto simp: ledger_inv_def t map_of_od_set od_simps)
qed

lemma tokens_le_total:
  assumes "ledger_inv w" and "map_of (phases w) a = Some (r, ph)"
  shows "tokens ph \<le> total_of tokens w" and "running ph \<le> total_of running w"
proof -
  have wf: "od_wf (phases w)" using assms(1) by (simp add: ledger_inv_def)
  have r: "0 \<le> running x" for x by (cases x) simp_all
  have "0 \<le> sum_list (map (\<lambda>e. g (snd (snd e))) (filter (\<lambda>e. fst e \<noteq> a) (phases w)))"
    if "\<forall>e \<in> set (phases w). 0 \<le> g (snd (snd e))" for g :: "phase \<Rightarrow> int"
    using that by (intro sum_list_nonneg) auto
  note nonneg = this
  have "\<forall>e \<in> set (phases w). 0 \<le> tokens (snd (snd e))" using assms(1) by (simp add: ledger_inv_def)
  from nonneg [OF this] show "tokens ph \<le> total_of tokens w"
    using sum_od_filter [OF wf assms(2), of "\<lambda>e. tokens (snd e)"] by (simp add: total_of_def)
  have "\<forall>e \<in> set (phases w). 0 \<le> running (snd (snd e))" using r by simp
  from nonneg [OF this] show "running ph \<le> total_of running w"
    using sum_od_filter [OF wf assms(2), of "\<lambda>e. running (snd e)"] by (simp add: total_of_def)
qed

lemma remembered_keys: "set (od_keys (remember_release k d)) \<subseteq> insert k (set (od_keys d))"
proof -
  have "set (od_keys (drop m x)) \<subseteq> set (od_keys x)" for m and x :: "(string, unit) odict"
    by (auto simp: od_keys_def dest: in_set_dropD)
  then have "set (od_keys (remember_release k d)) \<subseteq> set (od_keys (od_set k () d))" by (simp add: remember_release_def Let_def)
  then show ?thesis by (auto simp: od_simps split: if_splits)
qed

lemma ledger_release:
  assumes "ledger_inv w" and "map_of (phases w) a = Some (r, Admitted n)"
  shows "ledger_inv (set_phase a r Leaving (w\<lparr>proc := release_reservation n (Some r) (Some a) (proc w)\<rparr>))"
proof -
  let ?p = "release_reservation n (Some r) (Some a) (proc w)"
  have wf: "od_wf (phases w)" using assms(1) by (simp add: ledger_inv_def)
  have "\<not> od_mem a (released_requests (proc w))"
    using released_phase [OF assms(1), of a] assms(2) by (simp add: od_mem_def)
  then have p: "kv_reserved ?p = max 0 (kv_reserved (proc w) - n)"
    "generation_inflight ?p = max 0 (generation_inflight (proc w) - 1)"
    "released_requests ?p = remember_release a (released_requests (proc w))"
    by (simp_all add: release_reservation_def release_dedup_key_def Let_def)
  have le: "n \<le> total_of tokens w" "1 \<le> total_of running w" using tokens_le_total [OF assms] by simp_all
  have t: "total_of g (set_phase a r Leaving (w\<lparr>proc := ?p\<rparr>)) = total_of g w - g (Admitted n) + g Leaving" for g
    using total_set_phase [of "w\<lparr>proc := ?p\<rparr>" g a r Leaving] wf assms(2) by simp
  have nn: "\<forall>e \<in> set (od_set a (r, Leaving) (phases w)). 0 \<le> tokens (snd (snd e))"
    using assms(1) by (auto simp: ledger_inv_def od_set_def split: if_splits)
  have "\<exists>r' ph. map_of (od_set a (r, Leaving) (phases w)) k = Some (r', ph) \<and> ph \<in> {Leaving, Gone}"
    if "k \<in> set (od_keys (released_requests ?p))" for k
    using that remembered_keys [of a "released_requests (proc w)"] assms(1) p(3) by (auto simp: ledger_inv_def map_of_od_set)
  then show ?thesis
    using assms(1) nn od_wf_ops(1) [OF wf] p(1,2) le by (auto simp: ledger_inv_def t)
qed

lemma ledger_start:
  assumes "ledger_inv w" and "\<not> od_mem a (phases w)" and "check_and_consume_tombstone r t (register_cancel r a (proc w)) = (b, p)"
    and "tokens ph = 0" and "running ph = 0"
  shows "ledger_inv (set_phase a r ph (w\<lparr>proc := p\<rparr>))"
proof -
  have n: "map_of (phases w) a = None" using assms(2) unfolding od_mem_map_of by blast
  have "ledger_inv (w\<lparr>proc := p\<rparr>)" using consume_fields(1-3) [OF assms(3)] by (intro ledger_keep [OF assms(1)]) simp_all
  moreover have "a \<notin> set (od_keys (released_requests p))"
    using released_phase [OF assms(1), of a] n consume_fields(3) [OF assms(3)] by simp
  ultimately show ?thesis using assms(4,5) n by (intro ledger_set_phase) simp_all
qed

lemma ledger_step: "proc_step w e w' \<Longrightarrow> ledger_inv w \<Longrightarrow> ledger_inv w'"
proof (induction rule: proc_step.induct)
  case (rejected w a r n bo eo p)
  then have "p = proc w" by (auto simp: try_reserve_def split: if_splits)
  with rejected show ?case by (intro ledger_set_phase ledger_keep) auto
next
  case (leave w a r ph)
  then show ?case by (intro ledger_set_phase ledger_keep) auto
next
  case (cancel w r t)
  then show ?case by (intro ledger_keep) simp_all
qed (simp_all add: ledger_start ledger_admit ledger_release)

lemma ledger_boot: "ledger_inv (boot b en)"
  by (simp add: ledger_inv_def boot_def new_processor_def total_of_def od_keys_def)

lemma run_induct_inv:
  assumes "proc_run w es w'" and "P w" and "\<And>w e w'. proc_step w e w' \<Longrightarrow> P w \<Longrightarrow> P w'"
  shows "P w'"
  using assms(1,2) by (induction rule: proc_run.induct) (auto intro: assms(3))

lemma ledger_run: "proc_run (boot b en) es w \<Longrightarrow> ledger_inv w"
  by (rule run_induct_inv [where P = ledger_inv]) (auto intro: ledger_boot ledger_step)

text \<open>While the key of an attempt is remembered a second release changes nothing.\<close>

lemma remembered: "\<not> od_mem k d \<Longrightarrow> od_mem k (remember_release k d)"
  by (simp add: remember_release_def Let_def od_set_absent od_mem_def od_keys_def released_requests_max_def)

lemma release_twice:
  "release_reservation n r (Some a) (release_reservation n r (Some a) p) = release_reservation n r (Some a) p"
  using remembered [of a "released_requests p"]
  by (cases "od_mem a (released_requests p)") (simp_all add: release_reservation_def release_dedup_key_def Let_def)

text \<open>A cancel without a live attempt answers \<open>False\<close>, although it writes a tombstone.\<close>

lemma early_cancel_answer:
  "map_of (in_flight_cancels p) r = None \<Longrightarrow> signal_cancel r t p = (False, add_tombstone r t p)"
  by (simp add: signal_cancel_def)

section \<open>The budget\<close>

text \<open>A reservation is gated by a bound when admission is on and the budget it uses is within the bound.\<close>

definition gated :: "int \<Rightarrow> int option \<Rightarrow> bool \<Rightarrow> proc_event \<Rightarrow> bool" where
  "gated bound budget enabled e =
     (case e of
        Reserve a n bo eo \<Rightarrow>
          (case eo of Some b \<Rightarrow> b | None \<Rightarrow> enabled) \<and>
          (case (if bo \<noteq> None then bo else budget) of None \<Rightarrow> False | Some x \<Rightarrow> x \<le> bound)
      | _ \<Rightarrow> True)"

lemma settings_step: "proc_step w e w' \<Longrightarrow>
  kv_budget_tokens (proc w') = kv_budget_tokens (proc w) \<and> admission_enabled (proc w') = admission_enabled (proc w)"
  by (induction rule: proc_step.induct)
    (auto simp: consume_fields(5,6) register_cancel_def unregister_cancel_def signal_cancel_def add_tombstone_def
      try_reserve_def release_reservation_def Let_def split: option.splits list.splits if_splits)

lemma budget_step:
  assumes "proc_step w e w'" and "gated bound (kv_budget_tokens (proc w)) (admission_enabled (proc w)) e"
    and "0 \<le> bound" and "kv_reserved (proc w) \<le> bound" and "ledger_inv w"
  shows "kv_reserved (proc w') \<le> bound"
  using assms
proof (induction rule: proc_step.induct)
  case (release w a r n)
  have "0 \<le> n" using release by (auto simp: ledger_inv_def dest!: map_of_SomeD)
  with release show ?case by (auto simp: release_reservation_def Let_def split: option.splits)
qed (auto simp: consume_fields(1) gated_def try_reserve_def effective_budget_def effective_admission_def
    split: option.splits if_splits)

lemma budget_run:
  "proc_run w0 es w \<Longrightarrow> w0 = boot budget enabled \<Longrightarrow> \<forall>e \<in> set es. gated bound budget enabled e \<Longrightarrow> 0 \<le> bound \<Longrightarrow>
     kv_reserved (proc w) \<le> bound \<and> kv_budget_tokens (proc w) = budget \<and> admission_enabled (proc w) = enabled \<and> ledger_inv w"
proof (induction rule: proc_run.induct)
  case (run_nil w)
  then show ?case using ledger_boot by (simp add: boot_def new_processor_def)
next
  case (run_snoc w es w1 e w2)
  then show ?case using budget_step [OF run_snoc.hyps(2), of bound] settings_step [OF run_snoc.hyps(2)]
    ledger_step [OF run_snoc.hyps(2)] by simp
qed

section \<open>Handles of live attempts\<close>

definition handle :: "string \<Rightarrow> string \<Rightarrow> processor \<Rightarrow> bool option" where
  "handle r a p = (case map_of (in_flight_cancels p) r of None \<Rightarrow> None | Some d \<Rightarrow> map_of d a)"

definition live :: "string \<Rightarrow> string \<Rightarrow> world \<Rightarrow> bool" where
  "live r a w = (\<exists>ph. map_of (phases w) a = Some (r, ph) \<and> ph \<noteq> Gone)"

lemma handle_register:
  "handle r' a' (register_cancel r a p) = (if r' = r \<and> a' = a then Some False else handle r' a' p)"
  by (simp add: handle_def register_cancel_def Let_def map_of_od_set split: option.splits)

lemma handle_unregister:
  "handle r' a' (unregister_cancel r a p) = (if r' = r \<and> a' = a then None else handle r' a' p)"
proof (cases "map_of (in_flight_cancels p) r")
  case (Some d)
  have "map_of d a' = None" if "od_del a d = []" "a' \<noteq> a"
    using that map_of_od_del [of a d a'] by simp
  with Some show ?thesis by (auto simp: handle_def unregister_cancel_def map_of_od_set map_of_od_del split: option.splits)
qed (auto simp: handle_def unregister_cancel_def)

lemma map_of_flags: "map_of (map (\<lambda>x. (fst x, True)) d) a = map_option (\<lambda>_. True) (map_of d a)"
  by (induction d) auto

lemma handle_cancel:
  "handle r' a (snd (signal_cancel r t p)) = (if r' = r then map_option (\<lambda>_. True) (handle r a p) else handle r' a p)"
  using map_of_flags [of _ a]
  by (auto simp: handle_def signal_cancel_def add_tombstone_def map_of_od_set split: option.splits list.splits)

lemma handle_same: "in_flight_cancels p = in_flight_cancels q \<Longrightarrow> handle r a p = handle r a q"
  by (simp add: handle_def)

lemma cancels_reserve: "try_reserve n bo eo ri ai p = (b, q) \<Longrightarrow> in_flight_cancels q = in_flight_cancels p"
  by (auto simp: try_reserve_def split: if_splits)

lemma cancels_release: "in_flight_cancels (release_reservation n ri ai p) = in_flight_cancels p"
  by (simp add: release_reservation_def Let_def split: option.splits)

lemma live_set_phase: "live r' a' (set_phase a r ph w) = (if a' = a then r' = r \<and> ph \<noteq> Gone else live r' a' w)"
  by (auto simp: live_def map_of_od_set)

lemma live_proc [simp]: "live r a (w\<lparr>proc := p\<rparr>) = live r a w"
  by (simp add: live_def)

definition handles_inv :: "world \<Rightarrow> bool" where
  "handles_inv w = (\<forall>r a. (handle r a (proc w) \<noteq> None) = live r a w)"

lemma handles_step: "proc_step w e w' \<Longrightarrow> handles_inv w \<Longrightarrow> handles_inv w'"
proof (induction rule: proc_step.induct)
  case (start a w r t p)
  then have "\<not> live r' a w" for r' by (simp add: live_def od_mem_map_of)
  with start handle_same [OF consume_fields(4) [OF start(2)]] show ?case
    by (auto simp: handles_inv_def live_set_phase handle_register)
next
  case (refused a w r t p)
  then have "\<not> live r' a w" for r' by (simp add: live_def od_mem_map_of)
  with refused handle_same [OF consume_fields(4) [OF refused(2)]] show ?case
    by (auto simp: handles_inv_def live_set_phase handle_register)
next
  case (admitted w a r n bo eo p)
  with handle_same [OF cancels_reserve [OF admitted(3)]] show ?case
    by (auto simp: handles_inv_def live_set_phase) (auto simp: live_def)
next
  case (rejected w a r n bo eo p)
  with handle_same [OF cancels_reserve [OF rejected(3)]] show ?case
    by (auto simp: handles_inv_def live_set_phase) (auto simp: live_def)
next
  case (release w a r n)
  with handle_same [OF cancels_release] show ?case
    by (auto simp: handles_inv_def live_set_phase) (auto simp: live_def)
next
  case (leave w a r ph)
  then have "live r' a w \<longleftrightarrow> r' = r" for r' by (auto simp: live_def)
  with leave(3) have "handle r' a (proc w) = None" if "r' \<noteq> r" for r' using that by (metis handles_inv_def)
  with leave show ?case by (auto simp: handles_inv_def live_set_phase handle_unregister)
next
  case (cancel w r t)
  then show ?case by (auto simp: handles_inv_def handle_cancel)
qed

lemma handles_boot: "handles_inv (boot b en)"
  by (simp add: handles_inv_def boot_def new_processor_def handle_def live_def)

lemma handles_run: "proc_run (boot b en) es w \<Longrightarrow> handles_inv w"
  by (rule run_induct_inv [where P = handles_inv]) (auto intro: handles_boot handles_step)

text \<open>A set event stays set until its attempt leaves.\<close>

lemma flag_step:
  "proc_step w e w' \<Longrightarrow> handles_inv w \<Longrightarrow> handle r a (proc w) = Some True \<Longrightarrow> e \<noteq> Leave a \<Longrightarrow> handle r a (proc w') = Some True"
proof (induction rule: proc_step.induct)
  case (start b w q t p)
  have "live r a w" using start(3,4) by (metis handles_inv_def option.distinct(1))
  then have "a \<noteq> b" using start(1) by (auto simp: live_def od_mem_map_of)
  with start handle_same [OF consume_fields(4) [OF start(2)]] show ?case by (simp add: handle_register)
next
  case (refused b w q t p)
  have "live r a w" using refused(3,4) by (metis handles_inv_def option.distinct(1))
  then have "a \<noteq> b" using refused(1) by (auto simp: live_def od_mem_map_of)
  with refused handle_same [OF consume_fields(4) [OF refused(2)]] show ?case by (simp add: handle_register)
next
  case (admitted w b q n bo eo p)
  then show ?case using handle_same [OF cancels_reserve [OF admitted(3)]] by simp
next
  case (rejected w b q n bo eo p)
  then show ?case using handle_same [OF cancels_reserve [OF rejected(3)]] by simp
next
  case (release w b q n)
  then show ?case using handle_same [OF cancels_release] by simp
qed (auto simp: handle_unregister handle_cancel)

lemma flag_run:
  assumes "proc_run w es w'" and "handles_inv w" and "handle r a (proc w) = Some True" and "Leave a \<notin> set es"
  shows "handle r a (proc w') = Some True \<and> handles_inv w'"
  using assms
proof (induction rule: proc_run.induct)
  case (run_snoc w es w1 e w2)
  then show ?case using flag_step [OF run_snoc.hyps(2)] handles_step [OF run_snoc.hyps(2)] by auto
qed simp

section \<open>Tombstones\<close>

text \<open>The tombstone of \<open>r\<close> lives until \<open>T\<close> at least, and at most \<open>k\<close> were written after it.\<close>

definition entombed :: "string \<Rightarrow> nat \<Rightarrow> real \<Rightarrow> (string, real) odict \<Rightarrow> bool" where
  "entombed r k T d = (\<exists>pre x post. d = pre @ (r, x) # post \<and> T \<le> x \<and> length post \<le> k \<and> r \<notin> fst ` set pre)"

lemma entombedI:
  "d = pre @ (r, x) # post \<Longrightarrow> T \<le> x \<Longrightarrow> length post \<le> k \<Longrightarrow> r \<notin> fst ` set pre \<Longrightarrow> entombed r k T d"
  unfolding entombed_def by blast

lemma entombed_mono: "entombed r k T d \<Longrightarrow> k \<le> l \<Longrightarrow> entombed r l T d"
  unfolding entombed_def [of r k] by (elim exE conjE) (rule entombedI, assumption+, simp, assumption)

lemma entombed_lookup: "entombed r k T d \<Longrightarrow> \<exists>x \<ge> T. map_of d r = Some x"
  by (auto simp: entombed_def map_add_def dest: map_of_SomeD split: option.splits) (force dest: map_of_SomeD)

lemma entombed_filter:
  assumes "entombed r k T d" and "\<And>x. T \<le> x \<Longrightarrow> P (r, x)"
  shows "entombed r k T (filter P d)"
proof -
  obtain pre x post where d: "d = pre @ (r, x) # post" "T \<le> x" "length post \<le> k" "r \<notin> fst ` set pre"
    using assms(1) by (auto simp: entombed_def)
  have "filter P d = filter P pre @ (r, x) # filter P post" "length (filter P post) \<le> k"
    using d assms(2) by (simp_all add: le_trans [OF length_filter_le])
  with d(2,4) show ?thesis by (intro entombedI [of _ "filter P pre" r x "filter P post"]) auto
qed

lemma entombed_drop:
  assumes "entombed r k T d" and "k + 2 \<le> cancel_tombstone_max"
  shows "entombed r k T (drop (Suc (length d) - cancel_tombstone_max) d)"
proof -
  obtain pre x post where d: "d = pre @ (r, x) # post" "T \<le> x" "length post \<le> k" "r \<notin> fst ` set pre"
    using assms(1) by (auto simp: entombed_def)
  let ?n = "Suc (length d) - cancel_tombstone_max"
  have "?n \<le> length pre" using d(1,3) assms(2) by simp
  then have "drop ?n d = drop ?n pre @ (r, x) # post" using d(1) by simp
  with d(2-4) show ?thesis
    by (intro entombedI [of _ "drop ?n pre" r x post]) (auto dest: in_set_dropD)
qed

lemma entombed_room:
  assumes "entombed r k T d" and "k + 2 \<le> cancel_tombstone_max" and "now < T"
  shows "entombed r k T (make_room now d)"
  using entombed_drop [OF entombed_filter [OF assms(1), of "\<lambda>e. \<not> snd e \<le> now"] assms(2)] assms
  by (simp add: make_room_def Let_def)

lemma entombed_del: "entombed r k T d \<Longrightarrow> r' \<noteq> r \<Longrightarrow> entombed r k T (od_del r' d)"
  unfolding od_del_def by (rule entombed_filter) auto

lemma entombed_snoc: "entombed r k T d \<Longrightarrow> entombed r (Suc k) T (d @ [e])"
  unfolding entombed_def [of r k] by (elim exE conjE) (rule entombedI [where post = "_ @ [e]"], auto)

lemma entombed_fresh: "T \<le> x \<Longrightarrow> entombed r k T (od_del r d @ [(r, x)])"
  by (rule entombedI [where pre = "od_del r d" and post = "[]"]) (auto simp: od_del_def)

lemma entombed_add:
  assumes "entombed r k T (cancel_tombstones p)" and "k + 2 \<le> cancel_tombstone_max" and "now < T"
    and "T \<le> now + cancel_tombstone_ttl_s"
  shows "entombed r (Suc k) T (cancel_tombstones (add_tombstone q now p))"
  using assms entombed_fresh entombed_snoc [OF entombed_del [OF entombed_room [OF assms(1-3)]], of q]
  by (cases "q = r") (auto simp: add_tombstone_def)

lemma entombed_signal:
  assumes "entombed r k T (cancel_tombstones p)" and "k + 2 \<le> cancel_tombstone_max" and "now < T"
    and "T \<le> now + cancel_tombstone_ttl_s"
  shows "entombed r (Suc k) T (cancel_tombstones (snd (signal_cancel q now p)))"
  using entombed_add [OF assms] entombed_mono [OF assms(1), of "Suc k"]
  by (auto simp: signal_cancel_def split: option.splits list.splits)

primrec event_time_in :: "real \<Rightarrow> real \<Rightarrow> proc_event \<Rightarrow> bool" where
  "event_time_in lo hi (Start r a t) = (lo \<le> t \<and> t < hi)"
| "event_time_in lo hi (Reserve a n bo eo) = True"
| "event_time_in lo hi (Release a) = True"
| "event_time_in lo hi (Leave a) = True"
| "event_time_in lo hi (Cancel r t) = (lo \<le> t \<and> t < hi)"

primrec is_cancel :: "proc_event \<Rightarrow> bool" where
  "is_cancel (Start r a t) = False"
| "is_cancel (Reserve a n bo eo) = False"
| "is_cancel (Release a) = False"
| "is_cancel (Leave a) = False"
| "is_cancel (Cancel r t) = True"

primrec starts :: "string \<Rightarrow> proc_event \<Rightarrow> bool" where
  "starts q (Start r a t) = (r = q)"
| "starts q (Reserve a n bo eo) = False"
| "starts q (Release a) = False"
| "starts q (Leave a) = False"
| "starts q (Cancel r t) = False"

lemma tombstones_reserve: "try_reserve n bo eo ri ai p = (b, q) \<Longrightarrow> cancel_tombstones q = cancel_tombstones p"
  by (auto simp: try_reserve_def split: if_splits)

lemma tombstones_same [simp]:
  "cancel_tombstones (release_reservation n ri ai p) = cancel_tombstones p"
  "cancel_tombstones (unregister_cancel r a p) = cancel_tombstones p"
  "cancel_tombstones (register_cancel r a p) = cancel_tombstones p"
  by (simp_all add: release_reservation_def unregister_cancel_def register_cancel_def Let_def split: option.splits)

lemma entombed_consume:
  assumes "check_and_consume_tombstone q t p = (b, p')" and "entombed r k T (cancel_tombstones p)" and "q \<noteq> r"
  shows "entombed r k T (cancel_tombstones p')"
  using assms entombed_del [OF assms(2,3)] by (auto simp: check_and_consume_tombstone_def split: option.splits)

lemma entombed_step:
  assumes "proc_step w e w'" and "entombed r k (lo + cancel_tombstone_ttl_s) (cancel_tombstones (proc w))" and "\<not> starts r e"
    and "event_time_in lo (lo + cancel_tombstone_ttl_s) e" and "is_cancel e \<Longrightarrow> k + 2 \<le> cancel_tombstone_max"
  shows "entombed r (if is_cancel e then Suc k else k) (lo + cancel_tombstone_ttl_s) (cancel_tombstones (proc w'))"
  using assms
proof (induction rule: proc_step.induct)
  case (start a w q t p)
  then show ?case using entombed_consume [OF start(2), of r k] by simp
next
  case (refused a w q t p)
  then show ?case using entombed_consume [OF refused(2), of r k] by simp
next
  case (cancel w q t)
  then show ?case using entombed_signal [of r k "lo + cancel_tombstone_ttl_s" "proc w" t q] by simp
qed (simp_all add: tombstones_reserve)

lemma entombed_run:
  assumes "proc_run w es w'" and "entombed r 0 (lo + cancel_tombstone_ttl_s) (cancel_tombstones (proc w))"
    and "\<forall>e \<in> set es. \<not> starts r e \<and> event_time_in lo (lo + cancel_tombstone_ttl_s) e"
    and "length (filter is_cancel es) < cancel_tombstone_max"
  shows "entombed r (length (filter is_cancel es)) (lo + cancel_tombstone_ttl_s) (cancel_tombstones (proc w'))"
  using assms
proof (induction rule: proc_run.induct)
  case (run_snoc w es w1 e w2)
  have "length (filter is_cancel es) \<le> length (filter is_cancel (es @ [e]))" by simp
  with run_snoc have IH: "entombed r (length (filter is_cancel es)) (lo + cancel_tombstone_ttl_s) (cancel_tombstones (proc w1))"
    by (auto split: if_splits)
  show ?case using entombed_step [OF run_snoc.hyps(2) IH] run_snoc.prems by (auto split: if_splits)
qed simp

section \<open>The gate latches the last decisive observation\<close>

primrec gate_run :: "(int \<times> int) list \<Rightarrow> saturation_gate \<Rightarrow> saturation_gate" where
  "gate_run [] g = g"
| "gate_run (o1 # os) g = gate_run os (snd (gate_update (fst o1) (snd o1) g))"

definition load :: "int \<times> int \<Rightarrow> real" where
  "load o1 = real_of_int (max 0 (fst o1)) / real_of_int (snd o1)"

text \<open>An observation outside the band between the watermarks.\<close>

definition decisive :: "real \<Rightarrow> real \<Rightarrow> int \<times> int \<Rightarrow> bool" where
  "decisive high low o1 = (0 < snd o1 \<and> (load o1 \<le> low \<or> high \<le> load o1))"

lemma gate_step:
  assumes "gate_low g < gate_high g"
  shows "snd (gate_update (fst o1) (snd o1) g) =
    (if decisive (gate_high g) (gate_low g) o1 then g\<lparr>saturated := (gate_high g \<le> load o1)\<rparr> else g)"
  using assms by (auto simp: gate_update_def decisive_def load_def Let_def)

lemma gate_run_append: "gate_run (as @ bs) g = gate_run bs (gate_run as g)"
  by (induction as arbitrary: g) auto

lemma gate_run_fields: "gate_high (gate_run os g) = gate_high g \<and> gate_low (gate_run os g) = gate_low g"
  by (induction os arbitrary: g) (auto simp: gate_update_def Let_def)

section \<open>Properties\<close>

text \<open>
  C6. The ledger is exact: however attempts start, are admitted or rejected, finish, fail and are
  cancelled, the reserved tokens are the sum of the reservations of the attempts that hold one
  and the in-flight counter is their number, so that nothing leaks and nothing is freed twice.
\<close>

theorem kv_ledger_exact:
  assumes "proc_run (boot budget enabled) es w"
  shows "kv_reserved (proc w) = total_of tokens w \<and> generation_inflight (proc w) = total_of running w"
  using ledger_run [OF assms] by (simp add: ledger_inv_def)

text \<open>
  C8. The budget holds: when every reservation is made with admission on and with a budget of at
  most \<open>bound\<close>, be it the worker's or the model's, no more than \<open>bound\<close> tokens are ever reserved.
\<close>

theorem kv_within_budget:
  assumes "proc_run (boot budget enabled) es w" and "\<forall>e \<in> set es. gated bound budget enabled e" and "0 \<le> bound"
  shows "total_of tokens w \<le> bound"
  using budget_run [OF assms(1) refl assms(2,3)] by (simp add: ledger_inv_def)

text \<open>
  C10. A cancel reaches every live attempt: after \<open>signal_cancel\<close> each attempt of the request that has
  not left has its event set, and it stays set, whatever happens, until that attempt leaves.
\<close>

theorem cancel_reaches_live:
  assumes "proc_run (boot budget enabled) es0 w" and "live r a w"
    and "proc_run (w\<lparr>proc := snd (signal_cancel r t (proc w))\<rparr>) es w'" and "Leave a \<notin> set es"
  shows "handle r a (proc w') = Some True"
proof -
  let ?w = "w\<lparr>proc := snd (signal_cancel r t (proc w))\<rparr>"
  have "handles_inv w" by (rule handles_run [OF assms(1)])
  then have "handles_inv ?w" by (rule handles_step [OF proc_step.cancel])
  moreover have "handle r a (proc ?w) = Some True"
    using \<open>handles_inv w\<close> assms(2) by (auto simp: handles_inv_def handle_cancel)
  ultimately show ?thesis using flag_run [OF assms(3)] assms(4) by blast
qed

text \<open>
  C24. A cancel that comes before its request is not lost: if no attempt of the request is live, an
  attempt that starts within the lifetime of the tombstone is refused, provided fewer than 1024
  other cancels arrive in between.
\<close>

theorem early_cancel_refuses:
  assumes "proc_run (boot budget enabled) es0 w" and "\<forall>a. \<not> live r a w"
    and "proc_run (w\<lparr>proc := snd (signal_cancel r t (proc w))\<rparr>) es w'"
    and "\<forall>e \<in> set es. \<not> starts r e \<and> event_time_in t (t + cancel_tombstone_ttl_s) e"
    and "length (filter is_cancel es) < cancel_tombstone_max"
    and "proc_step w' (Start r a t') w''" and "t' < t + cancel_tombstone_ttl_s"
  shows "map_of (phases w'') a = Some (r, Leaving)"
proof -
  let ?T = "t + cancel_tombstone_ttl_s"
  have none: "handle r b (proc w) = None" for b
    using handles_run [OF assms(1)] assms(2) by (metis handles_inv_def)
  have "map_of (in_flight_cancels (proc w)) r \<in> {None, Some []}"
  proof (cases "map_of (in_flight_cancels (proc w)) r")
    case (Some d)
    with none [of "fst (hd d)"] show ?thesis by (cases d) (auto simp: handle_def)
  qed simp
  then have "snd (signal_cancel r t (proc w)) = add_tombstone r t (proc w)" by (auto simp: signal_cancel_def)
  then have "entombed r 0 ?T (cancel_tombstones (proc (w\<lparr>proc := snd (signal_cancel r t (proc w))\<rparr>)))"
    by (simp add: add_tombstone_def entombed_fresh)
  from entombed_run [OF assms(3) this assms(4,5)] obtain x where "?T \<le> x" "map_of (cancel_tombstones (proc w')) r = Some x"
    using entombed_lookup by blast
  then have "fst (check_and_consume_tombstone r t' (register_cancel r a (proc w')))"
    using assms(7) by (simp add: check_and_consume_tombstone_def)
  with assms(6) show ?thesis
    by (auto simp: proc_exec_step proc_exec_def Let_def map_of_od_set split: if_splits prod.splits)
qed

text \<open>
  Hysteresis: with the low watermark below the high one, the gate is saturated after any
  observations just when the last one outside the band was at or above the high watermark;
  observations inside the band, or without a capacity, change nothing.
\<close>

theorem gate_latches_last_crossing:
  assumes "gate_low g < gate_high g"
  shows "saturated (gate_run os g) =
    (case filter (decisive (gate_high g) (gate_low g)) os of
       [] \<Rightarrow> saturated g
     | o1 # ds \<Rightarrow> gate_high g \<le> load (last (o1 # ds)))"
proof (induction os rule: rev_induct)
  case (snoc o1 os)
  have "gate_low (gate_run os g) < gate_high (gate_run os g)" using assms gate_run_fields [of os g] by simp
  from gate_step [OF this, of o1] show ?case
    using snoc gate_run_fields [of os g] by (auto simp: gate_run_append split: list.splits)
qed simp

section \<open>Concrete runs\<close>

definition demo_start :: "proc_event list" where
  "demo_start = [Start ''r1'' ''a1'' 0, Reserve ''a1'' 60 None None, Start ''r2'' ''a2'' 1, Reserve ''a2'' 70 None None,
     Start ''r1'' ''a3'' 2, Reserve ''a3'' 30 None None]"

definition demo_world :: world where
  "demo_world = (case exec_all demo_start (boot (Some 100) True) of Some w \<Rightarrow> w | None \<Rightarrow> boot None False)"

lemma demo_world_run: "proc_run (boot (Some 100) True) demo_start demo_world"
proof (rule exec_all_run)
  have "exec_all demo_start (boot (Some 100) True) \<noteq> None" by code_simp
  then show "exec_all demo_start (boot (Some 100) True) = Some demo_world" by (auto simp: demo_world_def)
qed

theorem kv_ledger_exact_witness:
  "kv_reserved (proc demo_world) = total_of tokens demo_world \<and> generation_inflight (proc demo_world) = total_of running demo_world \<and>
   total_of tokens demo_world = 90 \<and> total_of running demo_world = 2"
proof -
  have "total_of tokens demo_world = 90 \<and> total_of running demo_world = 2" by code_simp
  with kv_ledger_exact [OF demo_world_run] show ?thesis by simp
qed

theorem kv_within_budget_witness: "total_of tokens demo_world \<le> 100"
  by (rule kv_within_budget [OF demo_world_run]) (simp_all add: demo_start_def gated_def)

theorem cancel_reaches_live_witness:
  "\<exists>w'. proc_run (demo_world\<lparr>proc := snd (signal_cancel ''r1'' 3 (proc demo_world))\<rparr>) [Release ''a1''] w' \<and>
     handle ''r1'' ''a1'' (proc w') = Some True"
proof -
  let ?w = "demo_world\<lparr>proc := snd (signal_cancel ''r1'' 3 (proc demo_world))\<rparr>"
  have "exec_all [Release ''a1''] ?w \<noteq> None" by code_simp
  then obtain w' where w: "proc_run ?w [Release ''a1''] w'" using exec_all_run by blast
  have "map_of (phases demo_world) ''a1'' = Some (''r1'', Admitted 60)" by code_simp
  then have "live ''r1'' ''a1'' demo_world" by (simp add: live_def)
  from cancel_reaches_live [OF demo_world_run this w] w show ?thesis by auto
qed

theorem early_cancel_refuses_witness:
  "\<exists>w' w''. exec_all [Cancel ''r8'' 6] ((boot None False)\<lparr>proc := snd (signal_cancel ''r9'' 5 (proc (boot None False)))\<rparr>) = Some w' \<and>
     proc_exec (Start ''r9'' ''a9'' 100) w' = Some w'' \<and> map_of (phases w'') ''a9'' = Some (''r9'', Leaving)"
proof -
  let ?w = "(boot None False)\<lparr>proc := snd (signal_cancel ''r9'' 5 (proc (boot None False)))\<rparr>"
  have "exec_all [Cancel ''r8'' 6] ?w \<noteq> None" by code_simp
  then obtain w' where w: "exec_all [Cancel ''r8'' 6] ?w = Some w'" by blast
  have "(case exec_all [Cancel ''r8'' 6] ?w of None \<Rightarrow> False | Some v \<Rightarrow> proc_exec (Start ''r9'' ''a9'' 100) v \<noteq> None)" by code_simp
  then obtain w'' where w'': "proc_exec (Start ''r9'' ''a9'' 100) w' = Some w''" using w by auto
  have "map_of (phases w'') ''a9'' = Some (''r9'', Leaving)"
  proof (rule early_cancel_refuses [OF run_nil _ exec_all_run [OF w]])
    show "proc_step w' (Start ''r9'' ''a9'' 100) w''" using w'' by (simp add: proc_exec_step)
  qed (simp_all add: live_def boot_def cancel_tombstone_max_def cancel_tombstone_ttl_s_def)
  with w w'' show ?thesis by blast
qed

theorem gate_latches_last_crossing_witness:
  "saturated (gate_run [(95, 100), (80, 100)] \<lparr>gate_high = 9 / 10, gate_low = 7 / 10, saturated = False\<rparr>)"
  using gate_latches_last_crossing [of "\<lparr>gate_high = 9 / 10, gate_low = 7 / 10, saturated = False\<rparr>" "[(95, 100), (80, 100)]"]
  by (simp add: decisive_def load_def)

end
