(* ===== verification/Py_Convert.thy ===== *)
theory Py_Convert
  imports Tool_Schema
begin

text \<open>
  Python's \<^verbatim>\<open>int\<close> and \<^verbatim>\<open>float\<close> on a decoded value: what they return and which exception they raise, and which
  values have no hash.
\<close>

text \<open>Membership in a set hashes the value, which a list and a dict refuse.\<close>

definition unhashable :: "pyval \<Rightarrow> bool" where
  "unhashable v = (case v of PList xs \<Rightarrow> True | PDict d \<Rightarrow> True | _ \<Rightarrow> False)"

text \<open>The least integer that \<^verbatim>\<open>float\<close> refuses: half a step above the largest finite double.\<close>

definition float_overflow :: int where
  "float_overflow = 2 ^ 1024 - 2 ^ 970"

text \<open>Rounding a decimal to a double gives an infinity from half a step above the largest one.\<close>

definition round_float :: "py_float \<Rightarrow> py_float" where
  "round_float x =
     (case x of Finite r \<Rightarrow>
        if \<bar>r\<bar> \<ge> real_of_int float_overflow then Infinite (if r < 0 then - 1 else 1) else x
      | _ \<Rightarrow> x)"

definition max_str_digits :: nat where
  "max_str_digits = 4300"

definition text_to_int :: "string \<Rightarrow> int result" where
  "text_to_int t =
     (if length (fst (digit_part (snd (read_sign (py_strip t))))) > max_str_digits then Inl (ValueError ''int'')
      else case py_read_int t of None \<Rightarrow> Inl (ValueError ''int'') | Some n \<Rightarrow> Inr n)"

definition text_to_float :: "string \<Rightarrow> py_float result" where
  "text_to_float t = (case py_read_float t of None \<Rightarrow> Inl (ValueError ''float'') | Some x \<Rightarrow> Inr (round_float x))"

definition py_int :: "pyval \<Rightarrow> int result" where
  "py_int v =
     (case v of
        PInt n \<Rightarrow> Inr n
      | PBool b \<Rightarrow> Inr (if b then 1 else 0)
      | PFloat (Finite r) \<Rightarrow> Inr (if r \<ge> 0 then \<lfloor>r\<rfloor> else \<lceil>r\<rceil>)
      | PFloat (Infinite _) \<Rightarrow> Inl OverflowError
      | PFloat NaN \<Rightarrow> Inl (ValueError ''int'')
      | PStr t \<Rightarrow> text_to_int t
      | PBytes t \<Rightarrow> text_to_int t
      | _ \<Rightarrow> Inl TypeError)"

definition py_to_float :: "pyval \<Rightarrow> py_float result" where
  "py_to_float v =
     (case v of
        PInt n \<Rightarrow> if \<bar>n\<bar> \<ge> float_overflow then Inl OverflowError else Inr (Finite (real_of_int n))
      | PBool b \<Rightarrow> Inr (Finite (if b then 1 else 0))
      | PFloat x \<Rightarrow> Inr x
      | PStr t \<Rightarrow> text_to_float t
      | PBytes t \<Rightarrow> text_to_float t
      | _ \<Rightarrow> Inl TypeError)"

end
