(* ===== verification/Chat_Content.thy ===== *)
theory Chat_Content
  imports Py_Convert
begin

text \<open>
  The content of chat messages, from \<^verbatim>\<open>processors/streaming.py\<close>: inline images and clips, the ordered
  layout of text and media, and the string-or-parts content of a message. Decoding of base64 and
  Python's \<^verbatim>\<open>repr\<close> are the fields of \<open>codec\<close>; a failed decoding carries the text of the exception.
\<close>

record codec =
  codec_lib :: py_lib
  b64decode :: "string \<Rightarrow> string + string"
  repr_of :: "pyval \<Rightarrow> string"

text \<open>Why a request is not served: a validation error for the client, or an exception that escapes.\<close>

datatype failure = Invalid string string | Raised py_error

type_synonym 'a checked = "failure + 'a"

definition invalid :: "string \<Rightarrow> 'a checked" where
  "invalid msg = Inl (Invalid ''invalid_request'' msg)"

lemma invalid_Inr [simp]: "invalid msg \<noteq> Inr x"
  by (simp add: invalid_def)

text \<open>A loop over a list with the index, in which the first failure ends it.\<close>

fun check_all :: "(nat \<Rightarrow> 'a \<Rightarrow> 'b checked) \<Rightarrow> nat \<Rightarrow> 'a list \<Rightarrow> 'b list checked" where
  "check_all f i [] = Inr []"
| "check_all f i (x # xs) = and_then (f i x) (\<lambda>y. and_then (check_all f (Suc i) xs) (\<lambda>ys. Inr (y # ys)))"

lemma check_all_results:
  "check_all f i xs = Inr ys \<Longrightarrow> length ys = length xs \<and> (\<forall>y \<in> set ys. \<exists>j x. f j x = Inr y)"
  by (induction xs arbitrary: i ys) fastforce+

section \<open>Media\<close>

definition max_decode_image_bytes :: nat where
  "max_decode_image_bytes = 16 * 1024 * 1024"

definition max_decode_video_bytes :: nat where
  "max_decode_video_bytes = 16 * 1024 * 1024"

record media =
  media_data :: string
  media_format :: "string option"

definition quoted :: "string \<Rightarrow> string" where
  "quoted s = [CHR 0x27] @ s @ [CHR 0x27]"

definition mib :: "nat \<Rightarrow> string" where
  "mib n = show_nat (n div (1024 * 1024))"

text \<open>\<^verbatim>\<open>s.partition(sep)\<close> for one character: the text before it, whether it occurs, the text after it.\<close>

definition py_partition :: "char \<Rightarrow> string \<Rightarrow> string \<times> bool \<times> string" where
  "py_partition sep s =
     (let h = takeWhile (\<lambda>c. c \<noteq> sep) s
      in if length h = length s then (s, False, []) else (h, True, drop (Suc (length h)) s))"

definition decode_data_uri_image :: "codec \<Rightarrow> string \<Rightarrow> string + media" where
  "decode_data_uri_image cd url =
     (if \<not> py_startswith ''data:'' url
      then Inl (''image content must be an inline base64 '' @ quoted ''data:'' @
        '' URI; remote URL fetching is not supported'')
      else
        let (header, sep, payload) = py_partition CHR '','' (drop 5 url);
            params = py_split CHR '';'' header;
            mime = hd params;
            stripped = py_strip payload
        in if \<not> sep then Inl (''malformed image data URI (missing '' @ quoted '','' @ '')'')
           else if ''base64'' \<notin> set (tl params) then Inl ''image data URI must be base64-encoded''
           else if \<not> py_startswith ''image/'' mime then Inl ''image data URI must have an image/* media type''
           else if length stripped * 3 div 4 > max_decode_image_bytes
           then Inl (''image too large: exceeds the '' @ mib max_decode_image_bytes @ '' MiB limit (_decode_data_uri_image)'')
           else (case b64decode cd stripped of
                   Inl exc \<Rightarrow> Inl (''invalid base64 image data: '' @ exc)
                 | Inr d \<Rightarrow>
                     if d = [] then Inl ''image data URI decoded to empty bytes''
                     else if length d > max_decode_image_bytes
                     then Inl (''image too large: '' @ show_nat (length d) @ '' bytes exceeds the '' @
                       mib max_decode_image_bytes @ '' MiB limit (_decode_data_uri_image)'')
                     else let subtype = py_lower (py_strip (drop 6 mime))
                          in Inr \<lparr>media_data = d, media_format = (if subtype = [] then None else Some subtype)\<rparr>))"

definition at_path :: "string \<Rightarrow> nat \<Rightarrow> string \<Rightarrow> nat \<Rightarrow> string" where
  "at_path name idx field i = name @ ''['' @ show_nat idx @ ''].'' @ field @ ''['' @ show_nat i @ '']''"

abbreviation message_path :: "nat \<Rightarrow> string \<Rightarrow> nat \<Rightarrow> string" where
  "message_path \<equiv> at_path ''messages''"

definition message_at :: "nat \<Rightarrow> string" where
  "message_at idx = ''messages['' @ show_nat idx @ '']''"

definition check_image_bytes :: "string \<Rightarrow> string \<Rightarrow> string checked" where
  "check_image_bytes path d =
     (if d = [] then invalid (path @ '': image data is empty'')
      else if length d > max_decode_image_bytes
      then invalid (path @ '': image too large ('' @ show_nat (length d) @ '' bytes); exceeds the '' @
        mib max_decode_image_bytes @ '' MiB limit'')
      else Inr d)"

definition parse_image_entry :: "codec \<Rightarrow> nat \<Rightarrow> nat \<Rightarrow> pyval \<Rightarrow> media checked" where
  "parse_image_entry cd idx i entry =
     (let path = message_path idx ''images'' i in
      case entry of
        PDict e \<Rightarrow>
          and_then
            (case py_get e ''data'' of
               PBytes d \<Rightarrow> check_image_bytes path d
             | PStr t \<Rightarrow>
                 if t = [] then invalid (path @ ''.data must be non-empty bytes or a base64 string'')
                 else if length (py_strip t) * 3 div 4 > max_decode_image_bytes
                 then invalid (path @ '': image too large; exceeds the '' @ mib max_decode_image_bytes @ '' MiB limit'')
                 else (case b64decode cd (py_strip t) of
                         Inl exc \<Rightarrow> invalid (path @ '': invalid base64 image data: '' @ exc)
                       | Inr d \<Rightarrow> check_image_bytes path d)
             | _ \<Rightarrow> invalid (path @ ''.data must be non-empty bytes or a base64 string''))
            (\<lambda>d. Inr \<lparr>media_data = d, media_format = (case py_get e ''format'' of PStr f \<Rightarrow> Some f | _ \<Rightarrow> None)\<rparr>)
      | _ \<Rightarrow> invalid (path @ '' must be an object''))"

definition parse_message_images_field :: "codec \<Rightarrow> pyval \<Rightarrow> nat \<Rightarrow> media list checked" where
  "parse_message_images_field cd raw idx =
     (case raw of
        PNone \<Rightarrow> Inr []
      | PList es \<Rightarrow> check_all (parse_image_entry cd idx) 0 es
      | _ \<Rightarrow> invalid (message_at idx @ ''.images must be an array''))"

definition sniff_video_container :: "string \<Rightarrow> string option" where
  "sniff_video_container d =
     (if take 4 (drop 4 d) = ''ftyp'' then Some ''mp4''
      else if take 4 d = [CHR 0x1A, CHR 0x45, CHR 0xDF, CHR 0xA3] then Some ''mkv''
      else if take 4 d = ''RIFF'' \<and> take 4 (drop 8 d) = ''AVI '' then Some ''avi''
      else None)"

definition parse_video_entry :: "codec \<Rightarrow> nat \<Rightarrow> nat \<Rightarrow> pyval \<Rightarrow> media checked" where
  "parse_video_entry cd idx i entry =
     (let path = message_path idx ''videos'' i in
      case entry of
        PDict e \<Rightarrow>
          and_then
            (case py_get e ''data'' of
               PBytes d \<Rightarrow> Inr d
             | PStr t \<Rightarrow>
                 if t = [] then invalid (path @ ''.data must be non-empty bytes or a base64 string'')
                 else if length t * 3 div 4 > max_decode_video_bytes
                 then invalid (path @ '': video too large; exceeds '' @ show_nat max_decode_video_bytes @ '' bytes'')
                 else (case b64decode cd t of
                         Inl exc \<Rightarrow> invalid (path @ '': invalid base64 video data: '' @ exc)
                       | Inr d \<Rightarrow> Inr d)
             | _ \<Rightarrow> invalid (path @ ''.data must be non-empty bytes or a base64 string''))
            (\<lambda>d. if d = [] then invalid (path @ '': video data is empty'')
                 else if length d > max_decode_video_bytes
                 then invalid (path @ '': video too large ('' @ show_nat (length d) @ '' bytes); exceeds '' @
                   show_nat max_decode_video_bytes @ '' bytes'')
                 else (case sniff_video_container d of
                         None \<Rightarrow> invalid (path @ '': video data must be an MP4/MOV, WebM/Matroska, or AVI container'')
                       | Some c \<Rightarrow> Inr \<lparr>media_data = d, media_format = Some c\<rparr>))
      | _ \<Rightarrow> invalid (path @ '' must be an object''))"

definition parse_message_videos_field :: "codec \<Rightarrow> pyval \<Rightarrow> nat \<Rightarrow> media list checked" where
  "parse_message_videos_field cd raw idx =
     (case raw of
        PNone \<Rightarrow> Inr []
      | PList es \<Rightarrow> check_all (parse_video_entry cd idx) 0 es
      | _ \<Rightarrow> invalid (message_at idx @ ''.videos must be an array''))"

section \<open>Layout\<close>

datatype layout_part = Text_part string | Image_part | Video_part

definition parse_layout_entry :: "codec \<Rightarrow> nat \<Rightarrow> nat \<Rightarrow> pyval \<Rightarrow> layout_part checked" where
  "parse_layout_entry cd idx i entry =
     (let path = message_path idx ''content_parts'' i in
      case entry of
        PDict e \<Rightarrow>
          if py_get e ''type'' = PStr ''text''
          then (case py_get e ''text'' of PStr t \<Rightarrow> Inr (Text_part t) | _ \<Rightarrow> invalid (path @ ''.text must be a string''))
          else if py_get e ''type'' = PStr ''image'' then Inr Image_part
          else if py_get e ''type'' = PStr ''video'' then Inr Video_part
          else invalid (path @ ''.type must be '' @ quoted ''text'' @ '', '' @ quoted ''image'' @
            '', or '' @ quoted ''video'' @ '', got '' @ repr_of cd (py_get e ''type''))
      | _ \<Rightarrow> invalid (path @ '' must be an object''))"

definition parse_content_parts_field :: "codec \<Rightarrow> pyval \<Rightarrow> nat \<Rightarrow> layout_part list option checked" where
  "parse_content_parts_field cd raw idx =
     (case raw of
        PNone \<Rightarrow> Inr None
      | PList es \<Rightarrow> and_then (check_all (parse_layout_entry cd idx) 0 es) (\<lambda>ps. Inr (Some ps))
      | _ \<Rightarrow> invalid (message_at idx @ ''.content_parts must be an array''))"

section \<open>String or parts\<close>

text \<open>A part of a content array: a text, or an image that takes its place in the layout.\<close>

datatype content_part = Content_text string | Content_image media

definition parse_content_part :: "codec \<Rightarrow> nat \<Rightarrow> nat \<Rightarrow> pyval \<Rightarrow> content_part checked" where
  "parse_content_part cd idx i part =
     (let path = message_path idx ''content'' i in
      case part of
        PDict e \<Rightarrow>
          if py_get e ''type'' \<in> {PStr ''text'', PStr ''input_text''}
          then (case py_get e ''text'' of PStr t \<Rightarrow> Inr (Content_text t) | _ \<Rightarrow> invalid (path @ ''.text must be a string''))
          else if py_get e ''type'' \<in> {PStr ''image_url'', PStr ''input_image''}
          then (case (case py_get e ''image_url'' of PDict u \<Rightarrow> py_get u ''url'' | v \<Rightarrow> v) of
                  PStr url \<Rightarrow>
                    if url = [] then invalid (path @ ''.image_url.url must be a non-empty string'')
                    else (case decode_data_uri_image cd url of
                            Inl exc \<Rightarrow> invalid (path @ '': '' @ exc)
                          | Inr m \<Rightarrow> Inr (Content_image m))
                | _ \<Rightarrow> invalid (path @ ''.image_url.url must be a non-empty string''))
          else if unhashable (py_get e ''type'') then Inl (Raised TypeError)
          else invalid (path @ ''.type must be '' @ quoted ''text'' @ ''/'' @ quoted ''input_text'' @
            '' or an image part (['' @ quoted ''image_url'' @ '', '' @ quoted ''input_image'' @ '']), got '' @
            repr_of cd (py_get e ''type''))
      | _ \<Rightarrow> invalid (path @ '' must be an object''))"

definition part_text :: "content_part \<Rightarrow> string" where
  "part_text p = (case p of Content_text t \<Rightarrow> t | Content_image m \<Rightarrow> [])"

definition part_images :: "content_part list \<Rightarrow> media list" where
  "part_images ps = List.map_filter (\<lambda>p. case p of Content_text t \<Rightarrow> None | Content_image m \<Rightarrow> Some m) ps"

definition part_layout :: "content_part \<Rightarrow> layout_part" where
  "part_layout p = (case p of Content_text t \<Rightarrow> Text_part t | Content_image m \<Rightarrow> Image_part)"

definition parse_chat_content :: "codec \<Rightarrow> pyval \<Rightarrow> nat \<Rightarrow> (string \<times> media list \<times> layout_part list option) checked" where
  "parse_chat_content cd content idx =
     (case content of
        PStr t \<Rightarrow> Inr (t, [], None)
      | PList parts \<Rightarrow>
          and_then (check_all (parse_content_part cd idx) 0 parts)
            (\<lambda>ps. Inr (concat (map part_text ps), part_images ps,
                       if part_images ps \<noteq> [] then Some (map part_layout ps) else None))
      | _ \<Rightarrow> invalid (message_at idx @ ''.content must be a string or an array of content parts''))"

section \<open>What is accepted\<close>

definition image_ok :: "media \<Rightarrow> bool" where
  "image_ok m = (media_data m \<noteq> [] \<and> length (media_data m) \<le> max_decode_image_bytes)"

definition video_ok :: "media \<Rightarrow> bool" where
  "video_ok m = (media_data m \<noteq> [] \<and> length (media_data m) \<le> max_decode_video_bytes \<and>
     media_format m \<noteq> None \<and> media_format m = sniff_video_container (media_data m))"

lemma decode_image_ok: "decode_data_uri_image cd url = Inr m \<Longrightarrow> image_ok m"
  by (auto simp: decode_data_uri_image_def image_ok_def Let_def split: prod.splits if_splits sum.splits)

lemma check_image_bytes_ok: "check_image_bytes path d = Inr e \<Longrightarrow> e = d \<and> d \<noteq> [] \<and> length d \<le> max_decode_image_bytes"
  by (auto simp: check_image_bytes_def split: if_splits)

lemma image_entry_ok: "parse_image_entry cd idx i v = Inr m \<Longrightarrow> image_ok m"
  by (auto simp: parse_image_entry_def image_ok_def Let_def dest!: check_image_bytes_ok
      split: pyval.splits if_splits sum.splits)

lemma video_entry_ok: "parse_video_entry cd idx i v = Inr m \<Longrightarrow> video_ok m"
  by (auto simp: parse_video_entry_def video_ok_def Let_def split: pyval.splits if_splits sum.splits option.splits)

lemma images_field_ok: "parse_message_images_field cd raw idx = Inr ms \<Longrightarrow> \<forall>m \<in> set ms. image_ok m"
  by (auto simp: parse_message_images_field_def dest!: check_all_results image_entry_ok split: pyval.splits)

lemma videos_field_ok: "parse_message_videos_field cd raw idx = Inr ms \<Longrightarrow> \<forall>m \<in> set ms. video_ok m"
  by (auto simp: parse_message_videos_field_def dest!: check_all_results video_entry_ok split: pyval.splits)

lemma content_part_ok: "parse_content_part cd idx i v = Inr (Content_image m) \<Longrightarrow> image_ok m"
  by (auto simp: parse_content_part_def Let_def dest: decode_image_ok split: pyval.splits if_splits sum.splits)

text \<open>The layout has one marker for each image, in order, and the text of its text parts is the text.\<close>

definition image_markers :: "layout_part list \<Rightarrow> nat" where
  "image_markers ps = length (filter (\<lambda>p. p = Image_part) ps)"

definition video_markers :: "layout_part list \<Rightarrow> nat" where
  "video_markers ps = length (filter (\<lambda>p. p = Video_part) ps)"

definition layout_text :: "layout_part list \<Rightarrow> string" where
  "layout_text ps = concat (map (\<lambda>p. case p of Text_part t \<Rightarrow> t | _ \<Rightarrow> []) ps)"

lemma part_layout_markers: "image_markers (map part_layout ps) = length (part_images ps)"
  by (induction ps) (auto simp: image_markers_def part_images_def part_layout_def map_filter_simps split: content_part.splits)

lemma part_layout_text: "layout_text (map part_layout ps) = concat (map part_text ps)"
  by (induction ps) (auto simp: layout_text_def part_layout_def part_text_def split: content_part.splits)

lemma chat_content_ok:
  assumes "parse_chat_content cd content idx = Inr (t, ims, lay)"
  shows "(\<forall>m \<in> set ims. image_ok m) \<and>
    (\<forall>ps. lay = Some ps \<longrightarrow> image_markers ps = length ims \<and> layout_text ps = t) \<and> (lay = None \<longleftrightarrow> ims = [])"
proof (cases content)
  case (PList parts)
  then obtain ps where ps: "check_all (parse_content_part cd idx) 0 parts = Inr ps" "t = concat (map part_text ps)"
    "ims = part_images ps" "lay = (if part_images ps \<noteq> [] then Some (map part_layout ps) else None)"
    using assms by (auto simp: parse_chat_content_def)
  have "image_ok m" if "Content_image m \<in> set ps" for m
    using that check_all_results [OF ps(1)] content_part_ok by blast
  then have "\<forall>m \<in> set ims. image_ok m"
    unfolding ps(3) part_images_def by (auto simp: List.map_filter_def split: content_part.splits)
  with ps show ?thesis by (auto simp: part_layout_markers part_layout_text)
qed (use assms in \<open>auto simp: parse_chat_content_def\<close>)

end
