(* ===== verification/Runtime_Options.thy ===== *)
theory Runtime_Options
  imports Chat_Content "HOL-Library.List_Lexorder" "HOL-Library.Char_ord"
begin

text \<open>
  Profiles and runtime options: \<^verbatim>\<open>resolve_profile\<close> of \<^verbatim>\<open>config/model.py\<close>, the LoRA selectors of
  \<^verbatim>\<open>types/lora.py\<close>, and \<^verbatim>\<open>core/runtime_options.py\<close>, which overlays the options of a request on the
  defaults of its profile and fills the sampling parameters the request left unset. Errors derived
  from \<^verbatim>\<open>ValueError\<close> are \<open>ValueError\<close>. Keys of dictionaries are strings.
\<close>

section \<open>Profiles\<close>

record profile_adaptive_batching =
  pab_enabled :: "bool option"
  pab_target_p50_ms :: "real option"
  pab_calibration_multiplier :: "real option"
  pab_min_target_p50_ms :: "real option"
  pab_max_target_p50_ms :: "real option"
  pab_min_wait_ms :: "real option"
  pab_max_wait_ms :: "real option"
  pab_gain :: "real option"
  pab_integral_gain :: "real option"

record profile_config =
  pc_extends :: "string option"
  pc_max_batch_tokens :: "int option"
  pc_compute_precision :: "string option"
  pc_adapter_path :: "string option"
  pc_loadtime :: pydict
  pc_runtime :: pydict
  pc_adaptive_batching :: "profile_adaptive_batching option"
  pc_bounded_batch_progress :: "bool option"
  pc_kv_budget_tokens :: "int option"
  pc_admission_enabled :: "bool option"
  pc_max_output_tokens :: "int option"
  pc_chat_template_kwargs :: "pydict option"
  pc_grammar_profile :: "string option"

record resolved_profile =
  rp_max_batch_tokens :: int
  rp_compute_precision :: "string option"
  rp_adapter_path :: string
  rp_loadtime :: pydict
  rp_runtime :: pydict
  rp_adaptive_batching :: "profile_adaptive_batching option"
  rp_bounded_batch_progress :: bool
  rp_kv_budget_tokens :: "int option"
  rp_admission_enabled :: "bool option"
  rp_max_output_tokens :: "int option"
  rp_chat_template_kwargs :: "pydict option"
  rp_grammar_profile :: "string option"

record model_config =
  sie_id :: string
  profiles :: "(string, profile_config) odict"
  generate_max_output_tokens :: "int option"
  resolved_cache :: "(string, resolved_profile) odict"

definition or_parent :: "'a option \<Rightarrow> 'a option \<Rightarrow> 'a option" where
  "or_parent child parent = (case child of None \<Rightarrow> parent | Some v \<Rightarrow> Some v)"

definition merge_profile_adaptive_batching ::
  "profile_adaptive_batching option \<Rightarrow> profile_adaptive_batching option \<Rightarrow> profile_adaptive_batching option" where
  "merge_profile_adaptive_batching parent child =
     (case (parent, child) of
        (None, c) \<Rightarrow> c
      | (p, None) \<Rightarrow> p
      | (Some p, Some c) \<Rightarrow> Some
          \<lparr>pab_enabled = or_parent (pab_enabled c) (pab_enabled p),
           pab_target_p50_ms = or_parent (pab_target_p50_ms c) (pab_target_p50_ms p),
           pab_calibration_multiplier = or_parent (pab_calibration_multiplier c) (pab_calibration_multiplier p),
           pab_min_target_p50_ms = or_parent (pab_min_target_p50_ms c) (pab_min_target_p50_ms p),
           pab_max_target_p50_ms = or_parent (pab_max_target_p50_ms c) (pab_max_target_p50_ms p),
           pab_min_wait_ms = or_parent (pab_min_wait_ms c) (pab_min_wait_ms p),
           pab_max_wait_ms = or_parent (pab_max_wait_ms c) (pab_max_wait_ms p),
           pab_gain = or_parent (pab_gain c) (pab_gain p),
           pab_integral_gain = or_parent (pab_integral_gain c) (pab_integral_gain p)\<rparr>)"

definition profile_missing :: "codec \<Rightarrow> model_config \<Rightarrow> string \<Rightarrow> string" where
  "profile_missing cd cfg name = ''Profile '' @ quoted name @ '' not found. Available: '' @
     repr_of cd (PList (map PStr (od_keys (profiles cfg))))"

definition resolve_profile_uncached :: "codec \<Rightarrow> model_config \<Rightarrow> string \<Rightarrow> resolved_profile result" where
  "resolve_profile_uncached cd cfg name =
     (case map_of (profiles cfg) name of
        None \<Rightarrow> Inl (ValueError (profile_missing cd cfg name))
      | Some p \<Rightarrow>
          (case pc_extends p of
             None \<Rightarrow>
               (case (pc_adapter_path p, pc_max_batch_tokens p) of
                  (None, _) \<Rightarrow> Inl (ValueError (''Profile '' @ quoted name @ '': adapter_path must be set''))
                | (Some _, None) \<Rightarrow> Inl (ValueError (''Profile '' @ quoted name @ '': max_batch_tokens must be set''))
                | (Some path, Some tokens) \<Rightarrow> Inr
                    \<lparr>rp_max_batch_tokens = tokens, rp_compute_precision = pc_compute_precision p,
                     rp_adapter_path = path, rp_loadtime = pc_loadtime p, rp_runtime = pc_runtime p,
                     rp_adaptive_batching = pc_adaptive_batching p,
                     rp_bounded_batch_progress = (pc_bounded_batch_progress p = Some True),
                     rp_kv_budget_tokens = pc_kv_budget_tokens p, rp_admission_enabled = pc_admission_enabled p,
                     rp_max_output_tokens = pc_max_output_tokens p,
                     rp_chat_template_kwargs = pc_chat_template_kwargs p,
                     rp_grammar_profile = pc_grammar_profile p\<rparr>)
           | Some parent_name \<Rightarrow>
               (case map_of (profiles cfg) parent_name of
                  None \<Rightarrow> Inl (KeyError parent_name)
                | Some q \<Rightarrow>
                    (case (or_parent (pc_max_batch_tokens p) (pc_max_batch_tokens q),
                           or_parent (pc_adapter_path p) (pc_adapter_path q)) of
                       (None, _) \<Rightarrow>
                         Inl (ValueError (''Resolved profile '' @ quoted name @ '': max_batch_tokens must be set''))
                     | (Some _, None) \<Rightarrow>
                         Inl (ValueError (''Resolved profile '' @ quoted name @ '': adapter_path must be set''))
                     | (Some tokens, Some path) \<Rightarrow> Inr
                         \<lparr>rp_max_batch_tokens = tokens,
                          rp_compute_precision = or_parent (pc_compute_precision p) (pc_compute_precision q),
                          rp_adapter_path = path,
                          rp_loadtime = (if pc_loadtime p \<noteq> [] then pc_loadtime p else pc_loadtime q),
                          rp_runtime = (if pc_runtime p \<noteq> [] then pc_runtime p else pc_runtime q),
                          rp_adaptive_batching =
                            merge_profile_adaptive_batching (pc_adaptive_batching q) (pc_adaptive_batching p),
                          rp_bounded_batch_progress =
                            (or_parent (pc_bounded_batch_progress p) (pc_bounded_batch_progress q) = Some True),
                          rp_kv_budget_tokens = or_parent (pc_kv_budget_tokens p) (pc_kv_budget_tokens q),
                          rp_admission_enabled = or_parent (pc_admission_enabled p) (pc_admission_enabled q),
                          rp_max_output_tokens = or_parent (pc_max_output_tokens p) (pc_max_output_tokens q),
                          rp_chat_template_kwargs = or_parent (pc_chat_template_kwargs p) (pc_chat_template_kwargs q),
                          rp_grammar_profile = pc_grammar_profile p\<rparr>))))"

text \<open>What the validator of a configuration checks of the parent of a profile.\<close>

definition check_parent :: "model_config \<Rightarrow> string \<Rightarrow> profile_config \<Rightarrow> unit result" where
  "check_parent cfg name p =
     (case pc_extends p of
        Some parent_name \<Rightarrow>
          (case map_of (profiles cfg) parent_name of
             None \<Rightarrow> Inl (ValueError (''Profile '' @ quoted name @ '' extends unknown profile '' @ quoted parent_name))
           | Some parent \<Rightarrow>
               (case pc_extends parent of
                  Some g \<Rightarrow> Inl (ValueError (''Profile chaining is not allowed: '' @ quoted name @ '' -> '' @ quoted parent_name @
                      '' -> '' @ quoted g))
                | None \<Rightarrow> Inr ()))
      | None \<Rightarrow>
          if pc_adapter_path p = None
          then Inl (ValueError (''Profile '' @ quoted name @ '' must have '' @ quoted ''adapter_path'' @ '' set (or use '' @
            quoted ''extends'' @ '')''))
          else if pc_max_batch_tokens p = None
          then Inl (ValueError (''Profile '' @ quoted name @ '' must have '' @ quoted ''max_batch_tokens'' @ '' set (or use '' @
            quoted ''extends'' @ '')''))
          else Inr ())"

definition parents_checked :: "model_config \<Rightarrow> bool" where
  "parents_checked cfg = list_all (\<lambda>(n, p). check_parent cfg n p = Inr ()) (profiles cfg)"

definition resolve_profile :: "codec \<Rightarrow> model_config \<Rightarrow> string \<Rightarrow> resolved_profile result \<times> model_config" where
  "resolve_profile cd cfg name =
     (case map_of (resolved_cache cfg) name of
        Some r \<Rightarrow> (Inr r, cfg)
      | None \<Rightarrow>
          (case resolve_profile_uncached cd cfg name of
             Inl e \<Rightarrow> (Inl e, cfg)
           | Inr r \<Rightarrow> (Inr r, cfg\<lparr>resolved_cache := od_set name r (resolved_cache cfg)\<rparr>)))"

definition cache_coherent :: "codec \<Rightarrow> model_config \<Rightarrow> bool" where
  "cache_coherent cd cfg = (\<forall>(n, r) \<in> set (resolved_cache cfg). resolve_profile_uncached cd cfg n = Inr r)"

lemma uncached_cache [simp]:
  "resolve_profile_uncached cd (cfg\<lparr>resolved_cache := c\<rparr>) n = resolve_profile_uncached cd cfg n"
  by (simp add: resolve_profile_uncached_def profile_missing_def cong: option.case_cong)

lemma coherent_lookup: "cache_coherent cd cfg \<Longrightarrow> map_of (resolved_cache cfg) n = Some r \<Longrightarrow>
    resolve_profile_uncached cd cfg n = Inr r"
  by (auto simp: cache_coherent_def dest: map_of_SomeD)

lemma resolve_profile_fst: "cache_coherent cd cfg \<Longrightarrow> fst (resolve_profile cd cfg n) = resolve_profile_uncached cd cfg n"
  by (auto simp: resolve_profile_def coherent_lookup split: option.splits sum.splits)

lemma set_od_set: "set (od_set k v d) \<subseteq> insert (k, v) (set d)"
  by (auto simp: od_set_def split: if_splits)

lemma resolve_profile_coherent: "cache_coherent cd cfg \<Longrightarrow> cache_coherent cd (snd (resolve_profile cd cfg n))"
  using set_od_set by (fastforce simp: resolve_profile_def cache_coherent_def split: option.splits sum.splits)

text \<open>A run of resolutions as steps on the configuration; the other fields never change.\<close>

definition resolve_step :: "codec \<Rightarrow> string \<Rightarrow> model_config \<Rightarrow> model_config" where
  "resolve_step cd n cfg = snd (resolve_profile cd cfg n)"

interpretation profile_cache: step_invariant "resolve_step cd" "cache_coherent cd" for cd
  by unfold_locales (simp add: resolve_step_def resolve_profile_coherent)

lemma resolve_step_uncached: "resolve_profile_uncached cd (resolve_step cd a cfg) n = resolve_profile_uncached cd cfg n"
  by (simp add: resolve_step_def resolve_profile_def split: option.splits sum.splits)

section \<open>LoRA selection\<close>

definition lora_selection_fields :: "string list" where
  "lora_selection_fields = [''lora_adapter'', ''lora'', ''lora_id'']"

record lora_selection =
  sel_provided :: bool
  sel_value :: pyval
  sel_fields :: "string list"

text \<open>The loop over the supplied fields; \<open>prev\<close> is the value of the field before, if there is one.\<close>

fun agree_fields :: "pydict \<Rightarrow> pyval option \<Rightarrow> string list \<Rightarrow> pyval result" where
  "agree_fields opts prev [] = Inr (case prev of None \<Rightarrow> PNone | Some v \<Rightarrow> v)"
| "agree_fields opts prev (f # fs) =
     (let c = py_get opts f in
      if c \<noteq> PNone \<and> (case c of PStr t \<Rightarrow> py_strip t = [] | _ \<Rightarrow> True)
      then Inl (ValueError (quoted f @ '' must be a non-empty string or null''))
      else if prev \<noteq> None \<and> prev \<noteq> Some c
      then Inl (ValueError ''LoRA selector fields must agree, including explicit null values'')
      else agree_fields opts (Some c) fs)"

definition split_lora_selection :: "pydict \<Rightarrow> (lora_selection \<times> pydict) result" where
  "split_lora_selection opts =
     (let fields = filter (\<lambda>f. od_mem f opts) lora_selection_fields
      in and_then (agree_fields opts None fields)
           (\<lambda>v. Inr (\<lparr>sel_provided = (fields \<noteq> []), sel_value = v, sel_fields = fields\<rparr>,
                      filter (\<lambda>(k, _). k \<notin> set lora_selection_fields) opts)))"

definition lora_entry_ref :: "codec \<Rightarrow> pyval \<Rightarrow> string \<times> pyval" where
  "lora_entry_ref cd v =
     (case v of PDict d \<Rightarrow> (py_str (codec_lib cd) (py_get d ''id''), py_get d ''revision'')
      | _ \<Rightarrow> (py_str (codec_lib cd) v, PNone))"

definition lora_ids :: "codec \<Rightarrow> resolved_profile \<Rightarrow> string set" where
  "lora_ids cd r =
     set (case py_get (rp_loadtime r) ''lora_paths'' of
            PDict d \<Rightarrow> map (\<lambda>(_, ref). fst (lora_entry_ref cd ref)) (filter (\<lambda>(_, ref). truthy ref) d)
          | PList ps \<Rightarrow> map (py_str (codec_lib cd)) (filter truthy ps)
          | _ \<Rightarrow> []) \<union>
     (let i = py_get (rp_runtime r) ''lora_id'' in if truthy i then {py_str (codec_lib cd) i} else {})"

definition lora_names :: "codec \<Rightarrow> resolved_profile \<Rightarrow> string set" where
  "lora_names cd r =
     lora_ids cd r \<union>
     set (case py_get (rp_loadtime r) ''lora_paths'' of PDict d \<Rightarrow> map fst d | _ \<Rightarrow> []) \<union>
     (let s = py_get (rp_runtime r) ''lora'' in if truthy s then {py_str (codec_lib cd) s} else {})"

definition profile_lora_aliases :: "codec \<Rightarrow> resolved_profile \<Rightarrow> (string \<times> string) list" where
  "profile_lora_aliases cd r =
     (case py_get (rp_loadtime r) ''lora_paths'' of
        PDict d \<Rightarrow> map (\<lambda>(n, ref). (n, fst (lora_entry_ref cd ref))) (filter (\<lambda>(_, ref). truthy ref) d)
      | _ \<Rightarrow> [])"

text \<open>The names by which a LoRA of the profile can be selected.\<close>

definition declared_loras :: "codec \<Rightarrow> resolved_profile \<Rightarrow> string set" where
  "declared_loras cd r = lora_ids cd r \<union> set (map fst (profile_lora_aliases cd r))"

definition undeclared_lora :: "codec \<Rightarrow> model_config \<Rightarrow> string \<Rightarrow> string \<Rightarrow> pyval \<Rightarrow> string" where
  "undeclared_lora cd cfg profile_name key v =
     [CHR 0x27] @ ''options.'' @ key @ [CHR 0x27] @ '' must name a LoRA adapter that profile '' @ quoted profile_name @
     '' of model '' @ quoted (sie_id cfg) @ '' declares; '' @ repr_of cd v @ '' is not one of them.''"

fun check_declared :: "codec \<Rightarrow> model_config \<Rightarrow> string \<Rightarrow> pydict \<Rightarrow> (string \<times> string set) list \<Rightarrow> unit result" where
  "check_declared cd cfg profile_name opts [] = Inr ()"
| "check_declared cd cfg profile_name opts ((key, declared) # rest) =
     (let v = py_get opts key in
      if v = PNone \<or> (case v of PStr t \<Rightarrow> t \<in> declared | _ \<Rightarrow> False)
      then check_declared cd cfg profile_name opts rest
      else Inl (ValueError (undeclared_lora cd cfg profile_name key v)))"

definition check_declared_lora :: "codec \<Rightarrow> model_config \<Rightarrow> resolved_profile \<Rightarrow> string \<Rightarrow> pydict \<Rightarrow> unit result" where
  "check_declared_lora cd cfg r profile_name opts =
     check_declared cd cfg profile_name opts
       [(''lora_id'', lora_ids cd r), (''lora'', declared_loras cd r), (''lora_adapter'', declared_loras cd r)]"

fun single_selections :: "pydict \<Rightarrow> string list \<Rightarrow> lora_selection list result" where
  "single_selections rt [] = Inr []"
| "single_selections rt (f # fs) =
     (if od_mem f rt
      then and_then (split_lora_selection [(f, py_get rt f)])
             (\<lambda>(s, _). and_then (single_selections rt fs) (\<lambda>ss. Inr (s # ss)))
      else single_selections rt fs)"

definition selection_source :: "codec \<Rightarrow> resolved_profile \<Rightarrow> lora_selection \<Rightarrow> pyval result" where
  "selection_source cd r s =
     (let field = hd (sel_fields s) in
      case sel_value s of
        PStr v \<Rightarrow>
          if field = ''lora_id'' then Inr (PStr v)
          else if v \<notin> declared_loras cd r
          then Inl (ValueError (''Profile '' @ quoted field @ '' must select a declared LoRA adapter''))
          else Inr (PStr (case map_of (profile_lora_aliases cd r) v of None \<Rightarrow> v | Some src \<Rightarrow> src))
      | v \<Rightarrow> Inr v)"

fun selection_sources :: "codec \<Rightarrow> resolved_profile \<Rightarrow> lora_selection list \<Rightarrow> pyval list result" where
  "selection_sources cd r [] = Inr []"
| "selection_sources cd r (s # ss) =
     and_then (selection_source cd r s) (\<lambda>v. and_then (selection_sources cd r ss) (\<lambda>vs. Inr (v # vs)))"

definition conflicting :: "lora_selection \<Rightarrow> pyval \<Rightarrow> lora_selection \<times> pyval \<Rightarrow> bool" where
  "conflicting selected source0 p =
     (case p of (s, source) \<Rightarrow>
        \<not> (sel_fields s = [''lora_id''] \<and> (sel_value selected = PNone \<or> sel_value s = PNone)) \<and> source \<noteq> source0)"

definition profile_lora_selection :: "codec \<Rightarrow> resolved_profile \<Rightarrow> lora_selection result" where
  "profile_lora_selection cd r =
     and_then (single_selections (rp_runtime r) lora_selection_fields)
       (\<lambda>ss. if ss = [] then Inr \<lparr>sel_provided = False, sel_value = PNone, sel_fields = []\<rparr>
             else and_then (selection_sources cd r ss)
               (\<lambda>srcs. if list_ex (conflicting (hd ss) (hd srcs)) (zip (tl ss) (tl srcs))
                       then Inl (ValueError ''Profile LoRA defaults must resolve to the same declared adapter'')
                       else Inr (hd ss)))"

section \<open>Merging options\<close>

definition resolve_profile_or_raise :: "codec \<Rightarrow> model_config \<Rightarrow> pydict \<Rightarrow> resolved_profile result" where
  "resolve_profile_or_raise cd cfg opts =
     (case py_get opts ''profile'' of
        PNone \<Rightarrow> fst (resolve_profile cd cfg ''default'')
      | PStr n \<Rightarrow>
          if py_strip n = [] then Inl (ValueError (quoted ''options.profile'' @ '' must be a non-empty string or null''))
          else fst (resolve_profile cd cfg n)
      | _ \<Rightarrow> Inl (ValueError (quoted ''options.profile'' @ '' must be a non-empty string or null'')))"

definition valid_overflow_policies :: "string list" where
  "valid_overflow_policies = [''default'', ''truncate_text'', ''error'']"

definition check_overflow_policy :: "codec \<Rightarrow> pydict \<Rightarrow> unit result" where
  "check_overflow_policy cd opts =
     (let v = py_get opts ''overflow_policy'' in
      if v = PNone \<or> v \<in> set (map PStr valid_overflow_policies) then Inr ()
      else Inl (ValueError (''Invalid overflow_policy: '' @ repr_of cd v @ ''. Must be one of '' @
        repr_of cd (PList (map PStr (sort valid_overflow_policies))) @ ''.'')))"

definition od_merge :: "pydict \<Rightarrow> pydict \<Rightarrow> pydict" where
  "od_merge d e = foldl (\<lambda>a (k, v). od_set k v a) d e"

definition merge_runtime_options_with_profile :: "codec \<Rightarrow> model_config \<Rightarrow> pydict \<Rightarrow> (pydict \<times> resolved_profile) result" where
  "merge_runtime_options_with_profile cd cfg opts =
     and_then (resolve_profile_or_raise cd cfg opts) (\<lambda>r.
     and_then (split_lora_selection opts) (\<lambda>(sel, request).
     and_then
       (if sel_provided sel
        then and_then (check_declared_lora cd cfg r
               (case py_get request ''profile'' of PStr n \<Rightarrow> n | _ \<Rightarrow> ''default'') opts) (\<lambda>_. Inr sel)
        else profile_lora_selection cd r) (\<lambda>sel'.
     let merged = od_merge (filter (\<lambda>(k, _). k \<notin> set lora_selection_fields) (rp_runtime r))
                    (filter (\<lambda>(k, _). k \<noteq> ''profile'') request);
         merged' = (if sel_provided sel' then od_set ''lora'' (sel_value sel') merged else merged)
     in and_then (check_overflow_policy cd merged') (\<lambda>_. Inr (merged', r)))))"

definition merge_runtime_options :: "codec \<Rightarrow> model_config \<Rightarrow> pydict \<Rightarrow> pydict result" where
  "merge_runtime_options cd cfg opts = and_then (merge_runtime_options_with_profile cd cfg opts) (\<lambda>(m, _). Inr m)"

lemma map_of_od_merge: "od_wf e \<Longrightarrow> map_of (od_merge d e) k = (case map_of e k of None \<Rightarrow> map_of d k | Some v \<Rightarrow> Some v)"
proof (induction e arbitrary: d)
  case (Cons p e)
  have "map_of e (fst p) = None" and "od_wf e"
    using Cons.prems by (auto simp: od_wf_def od_keys_def map_of_eq_None_iff)
  then show ?case
    using Cons.IH [of "od_set (fst p) (snd p) d"] by (cases p) (auto simp: od_merge_def map_of_od_set split: option.splits)
qed (simp add: od_merge_def)

lemma od_merge_absent: "map_of d k = None \<Longrightarrow> k \<notin> fst ` set e \<Longrightarrow> map_of (od_merge d e) k = None"
  by (induction e arbitrary: d) (auto simp: od_merge_def map_of_od_set)

lemma agree_fields_value:
  "agree_fields opts prev fs = Inr v \<Longrightarrow> fs \<noteq> [] \<Longrightarrow>
     v = py_get opts (last fs) \<and> (v = PNone \<or> (\<exists>t. v = PStr t \<and> py_strip t \<noteq> []))"
proof (induction opts prev fs rule: agree_fields.induct)
  case (2 opts prev f fs)
  then show ?case
    by (cases fs) (auto simp: Let_def split: if_splits pyval.splits)
qed simp

lemma check_declared_all:
  "check_declared cd cfg n opts ks = Inr u \<Longrightarrow> (k, decl) \<in> set ks \<Longrightarrow>
     py_get opts k = PNone \<or> (\<exists>t. py_get opts k = PStr t \<and> t \<in> decl)"
  by (induction cd cfg n opts ks rule: check_declared.induct) (auto simp: Let_def split: if_splits pyval.splits)

lemma request_lora_declared:
  assumes "split_lora_selection opts = Inr (sel, req)" and "sel_provided sel"
    and "check_declared_lora cd cfg r n opts = Inr u"
  shows "sel_value sel = PNone \<or> (\<exists>t. sel_value sel = PStr t \<and> t \<in> declared_loras cd r)"
proof -
  let ?fs = "filter (\<lambda>f. od_mem f opts) lora_selection_fields"
  from assms(1,2) have ne: "?fs \<noteq> []" and v: "agree_fields opts None ?fs = Inr (sel_value sel)"
    by (auto simp: split_lora_selection_def Let_def)
  have "last ?fs \<in> set lora_selection_fields" using last_in_set [OF ne] by auto
  moreover have "sel_value sel = py_get opts (last ?fs)" using agree_fields_value [OF v ne] by simp
  moreover have "py_get opts k = PNone \<or> (\<exists>t. py_get opts k = PStr t \<and> t \<in> declared_loras cd r)"
    if "k \<in> set lora_selection_fields" for k
    using that check_declared_all [OF assms(3) [unfolded check_declared_lora_def], of "''lora_id''" "lora_ids cd r"]
      check_declared_all [OF assms(3) [unfolded check_declared_lora_def], of k "declared_loras cd r"]
    by (auto simp: lora_selection_fields_def declared_loras_def)
  ultimately show ?thesis by simp
qed

lemma single_split: "split_lora_selection [(f, v)] = Inr (s, q) \<Longrightarrow> f \<in> set lora_selection_fields \<Longrightarrow>
    sel_fields s = [f] \<and> sel_provided s \<and> sel_value s = v \<and> (v = PNone \<or> (\<exists>t. v = PStr t \<and> py_strip t \<noteq> []))"
  by (auto simp: split_lora_selection_def lora_selection_fields_def od_mem_def od_keys_def py_get_def Let_def
      split: if_splits pyval.splits)

lemma single_selections_mem:
  "single_selections rt fs = Inr ss \<Longrightarrow> set fs \<subseteq> set lora_selection_fields \<Longrightarrow> s \<in> set ss \<Longrightarrow>
     \<exists>f. sel_fields s = [f] \<and> sel_value s = py_get rt f \<and> sel_provided s \<and>
       (sel_value s = PNone \<or> (\<exists>t. sel_value s = PStr t \<and> py_strip t \<noteq> []))"
proof (induction rt fs arbitrary: ss rule: single_selections.induct)
  case (2 rt f fs)
  then show ?case by (fastforce dest: single_split split: if_splits)
qed simp

lemma py_strip_Nil [simp]: "py_strip [] = []"
  by (simp add: py_strip_def)

lemma profile_lora_declared:
  assumes "profile_lora_selection cd r = Inr sel" and "sel_provided sel"
  shows "sel_value sel = PNone \<or> (\<exists>t. sel_value sel = PStr t \<and> t \<in> declared_loras cd r)"
proof -
  from assms(1) obtain ss where one: "single_selections (rp_runtime r) lora_selection_fields = Inr ss"
    by (auto simp: profile_lora_selection_def)
  with assms have "ss \<noteq> []" by (auto simp: profile_lora_selection_def)
  with assms(1) one obtain srcs where ss: "single_selections (rp_runtime r) lora_selection_fields = Inr ss" "ss \<noteq> []"
    "selection_sources cd r ss = Inr srcs" "sel = hd ss"
    by (auto simp: profile_lora_selection_def split: if_splits)
  obtain f where f: "sel_fields sel = [f]" "sel_value sel = py_get (rp_runtime r) f"
    "sel_value sel = PNone \<or> (\<exists>t. sel_value sel = PStr t \<and> py_strip t \<noteq> [])"
    using single_selections_mem [OF ss(1)] ss(2,4) by force
  obtain src where "selection_source cd r sel = Inr src"
    using ss(2-4) by (cases ss) auto
  then show ?thesis
    using f by (auto simp: selection_source_def declared_loras_def lora_ids_def py_str_def Let_def split: if_splits)
qed

lemma merged_lora_declared:
  assumes "merge_runtime_options_with_profile cd cfg opts = Inr (m, r)" and "map_of m ''lora'' = Some v"
  shows "v = PNone \<or> (\<exists>t. v = PStr t \<and> t \<in> declared_loras cd r)"
proof -
  from assms(1) obtain sel req sel' where sel: "split_lora_selection opts = Inr (sel, req)"
    and pick: "(if sel_provided sel then and_then (check_declared_lora cd cfg r
        (case py_get req ''profile'' of PStr n \<Rightarrow> n | _ \<Rightarrow> ''default'') opts) (\<lambda>_. Inr sel)
      else profile_lora_selection cd r) = Inr sel'"
    and m: "m = (let merged = od_merge (filter (\<lambda>(k, _). k \<notin> set lora_selection_fields) (rp_runtime r))
        (filter (\<lambda>(k, _). k \<noteq> ''profile'') req)
      in if sel_provided sel' then od_set ''lora'' (sel_value sel') merged else merged)"
    by (auto simp: merge_runtime_options_with_profile_def Let_def split: prod.splits)
  have "''lora'' \<notin> fst ` set req" using sel by (auto simp: split_lora_selection_def lora_selection_fields_def Let_def)
  then have "map_of (od_merge (filter (\<lambda>(k, _). k \<notin> set lora_selection_fields) (rp_runtime r))
      (filter (\<lambda>(k, _). k \<noteq> ''profile'') req)) ''lora'' = None"
    by (intro od_merge_absent) (auto simp: map_of_eq_None_iff lora_selection_fields_def)
  with m assms(2) have "sel_provided sel' \<and> v = sel_value sel'"
    by (auto simp: Let_def map_of_od_set split: if_splits)
  then show ?thesis
    using pick request_lora_declared [OF sel] profile_lora_declared by (fastforce split: if_splits)
qed

section \<open>Sampling defaults\<close>

definition generation_runtime_keys :: "string list" where
  "generation_runtime_keys = [''default_sampling'', ''stop_tokens'', ''first_chunk_timeout_s'', ''inter_chunk_timeout_s'',
     ''overall_timeout_s'']"

definition timeout_keys :: "string list" where
  "timeout_keys = [''first_chunk_timeout_s'', ''inter_chunk_timeout_s'', ''overall_timeout_s'']"

definition generation_sampling_keys :: "(string \<times> string) list" where
  "generation_sampling_keys =
     [(''temperature'', ''temperature''), (''top_p'', ''top_p''), (''frequency_penalty'', ''frequency_penalty''),
      (''presence_penalty'', ''presence_penalty''), (''top_k'', ''top_k''), (''min_new_tokens'', ''min_tokens''),
      (''seed'', ''seed'')]"

definition grammar_sampling_defaults :: pydict where
  "grammar_sampling_defaults = [(''temperature'', PFloat (Finite 0)), (''presence_penalty'', PFloat (Finite 0)),
     (''frequency_penalty'', PFloat (Finite 0))]"

definition is_finite_number :: "pyval \<Rightarrow> bool" where
  "is_finite_number v = (case v of PInt n \<Rightarrow> \<bar>n\<bar> < float_overflow | PFloat (Finite r) \<Rightarrow> True | _ \<Rightarrow> False)"

definition num_of :: "pyval \<Rightarrow> real" where
  "num_of v = (case v of PInt n \<Rightarrow> real_of_int n | PFloat (Finite r) \<Rightarrow> r | _ \<Rightarrow> 0)"

text \<open>\<^verbatim>\<open>value > 0\<close> fails: for a value that is not a number, for a bool, and for a number that is not above 0.
  A comparison with NaN is false, so NaN passes here.\<close>

definition not_positive :: "pyval \<Rightarrow> bool" where
  "not_positive v =
     (case v of PInt n \<Rightarrow> n \<le> 0 | PFloat (Finite r) \<Rightarrow> r \<le> 0 | PFloat (Infinite i) \<Rightarrow> i < 0 | PFloat NaN \<Rightarrow> False
      | _ \<Rightarrow> True)"

text \<open>\<^verbatim>\<open>float(value) >= 2.0**64\<close>; an integer within half a step of the bound rounds up to it.\<close>

definition reaches_max_timeout :: "pyval \<Rightarrow> bool" where
  "reaches_max_timeout v = (case v of PInt n \<Rightarrow> n \<ge> 2 ^ 64 - 2 ^ 10 | PFloat (Finite r) \<Rightarrow> r \<ge> 2 ^ 64 | _ \<Rightarrow> False)"

definition grammar_default_sampling :: "pyval \<Rightarrow> pyval \<Rightarrow> pydict" where
  "grammar_default_sampling profile_sampling request_sampling =
     (let merged = od_merge (case profile_sampling of PDict d \<Rightarrow> od_merge [] d | _ \<Rightarrow> []) grammar_sampling_defaults
      in case request_sampling of PDict d \<Rightarrow> od_merge merged d | _ \<Rightarrow> merged)"

definition key_list :: "codec \<Rightarrow> string list \<Rightarrow> string" where
  "key_list cd ks = repr_of cd (PList (map PStr (sort (remdups ks))))"

definition opt :: "string \<Rightarrow> string" where
  "opt key = quoted (''options.'' @ key)"

fun check_request_timeouts :: "pydict \<Rightarrow> string list \<Rightarrow> unit result" where
  "check_request_timeouts opts [] = Inr ()"
| "check_request_timeouts opts (key # ks) =
     (case map_of opts key of
        None \<Rightarrow> check_request_timeouts opts ks
      | Some v \<Rightarrow>
          if not_positive v then Inl (ValueError (opt key @ '' must be a positive number''))
          else if is_finite_number v \<and> reaches_max_timeout v
          then Inl (ValueError (opt key @ '' must be less than 2^64 seconds''))
          else check_request_timeouts opts ks)"

definition check_shapes :: "pydict \<Rightarrow> unit result" where
  "check_shapes opts =
     (if od_mem ''default_sampling'' opts \<and> (case py_get opts ''default_sampling'' of PDict d \<Rightarrow> False | _ \<Rightarrow> True)
      then Inl (ValueError (opt ''default_sampling'' @ '' must be an object''))
      else if od_mem ''stop_tokens'' opts \<and> (case py_get opts ''stop_tokens'' of PList l \<Rightarrow> False | _ \<Rightarrow> True)
      then Inl (ValueError (opt ''stop_tokens'' @ '' must be an array of non-empty strings''))
      else check_request_timeouts opts timeout_keys)"

definition check_request_options :: "codec \<Rightarrow> pydict \<Rightarrow> unit result" where
  "check_request_options cd opts =
     (let unknown = filter (\<lambda>k. k \<notin> set generation_runtime_keys \<and> k \<noteq> ''profile'') (od_keys opts) in
      case py_get opts ''profile'' of
        PStr n \<Rightarrow> if n \<noteq> ''default'' then Inl (ValueError (''non-default options.profile '' @ quoted n @
            '' cannot select a routed model variant; use the '' @ quoted ''model:profile'' @ '' identity''))
          else if unknown \<noteq> [] then Inl (ValueError (''unsupported generation option(s): '' @ key_list cd unknown))
          else check_shapes opts
      | PNone \<Rightarrow> if unknown \<noteq> [] then Inl (ValueError (''unsupported generation option(s): '' @ key_list cd unknown))
          else check_shapes opts
      | _ \<Rightarrow> Inl (ValueError (opt ''profile'' @ '' must be a string'')))"

definition valid_sampling :: "string \<Rightarrow> pyval \<Rightarrow> bool" where
  "valid_sampling key v =
     (if key = ''seed'' then (case v of PInt n \<Rightarrow> - (2 ^ 63) \<le> n \<and> n \<le> 2 ^ 63 - 1 | _ \<Rightarrow> False)
      else is_finite_number v \<and>
        (if key = ''temperature'' then num_of v \<ge> 0
         else if key = ''top_p'' then 0 < num_of v \<and> num_of v \<le> 1
         else if key \<in> {''frequency_penalty'', ''presence_penalty''} then - 2 \<le> num_of v \<and> num_of v \<le> 2
         else if key = ''top_k'' then (case v of PInt n \<Rightarrow> n \<ge> 1 | _ \<Rightarrow> False)
         else if key = ''min_new_tokens'' then (case v of PInt n \<Rightarrow> n \<ge> 0 | _ \<Rightarrow> False)
         else True))"

definition check_sampling :: "codec \<Rightarrow> pydict \<Rightarrow> unit result" where
  "check_sampling cd sampling =
     (let unknown = filter (\<lambda>k. k \<notin> set (map fst generation_sampling_keys)) (od_keys sampling) in
      if unknown \<noteq> [] then Inl (ValueError (''unsupported generation sampling option(s): '' @ key_list cd unknown))
      else case find (\<lambda>(k, v). \<not> valid_sampling k v) sampling of
        Some (k, _) \<Rightarrow> Inl (ValueError (opt (''default_sampling.'' @ k) @ '' has an invalid value''))
      | None \<Rightarrow> Inr ())"

text \<open>One step of the loop over the sampling keys: \<open>cap\<close> is the request's integer maximum, \<open>named\<close> whether the
  request itself set the default.\<close>

definition fill_value :: "int option \<Rightarrow> bool \<Rightarrow> string \<Rightarrow> pyval \<Rightarrow> pyval result" where
  "fill_value cap named source v =
     (case (cap, v) of
        (Some m, PInt n) \<Rightarrow>
          if source = ''min_new_tokens'' \<and> n > m
          then if named
               then Inl (ValueError (opt ''default_sampling.min_new_tokens'' @ '' ('' @ show_int n @
                 '') must not exceed max_new_tokens ('' @ show_int m @ '')''))
               else Inr (PInt m)
          else Inr v
      | _ \<Rightarrow> Inr v)"

fun fill_sampling :: "int option \<Rightarrow> pyval \<Rightarrow> pydict \<Rightarrow> (string \<times> string) list \<Rightarrow> pydict \<Rightarrow> pydict result" where
  "fill_sampling cap request_sampling sampling [] result = Inr result"
| "fill_sampling cap request_sampling sampling ((source, target) # keys) result =
     (case map_of sampling source of
        Some v \<Rightarrow>
          if py_get result target = PNone
          then and_then (fill_value cap (case request_sampling of PDict d \<Rightarrow> od_mem source d | _ \<Rightarrow> False) source v)
                 (\<lambda>w. fill_sampling cap request_sampling sampling keys (od_set target w result))
          else fill_sampling cap request_sampling sampling keys result
      | None \<Rightarrow> fill_sampling cap request_sampling sampling keys result)"

definition merge_stop :: "pyval \<Rightarrow> pydict \<Rightarrow> pydict result" where
  "merge_stop stop_tokens result =
     (case stop_tokens of
        PNone \<Rightarrow> Inr result
      | PList items \<Rightarrow>
          if list_all (\<lambda>v. case v of PStr t \<Rightarrow> t \<noteq> [] | _ \<Rightarrow> False) items
          then (case py_get result ''stop'' of
                  PNone \<Rightarrow> Inr (od_set ''stop'' (PList items) result)
                | PList explicit \<Rightarrow>
                    Inr (od_set ''stop'' (PList (explicit @ filter (\<lambda>v. v \<notin> set explicit) items)) result)
                | _ \<Rightarrow> Inr result)
          else Inl (ValueError (opt ''stop_tokens'' @ '' must be an array of non-empty strings''))
      | _ \<Rightarrow> Inl (ValueError (opt ''stop_tokens'' @ '' must be an array of non-empty strings'')))"

fun check_runtime_timeouts :: "pydict \<Rightarrow> string list \<Rightarrow> unit result" where
  "check_runtime_timeouts rt [] = Inr ()"
| "check_runtime_timeouts rt (key # ks) =
     (let v = py_get rt key in
      if v \<noteq> PNone \<and> (\<not> is_finite_number v \<or> num_of v \<le> 0)
      then Inl (ValueError (opt key @ '' must be a positive number''))
      else check_runtime_timeouts rt ks)"

definition effective_sampling :: "pyval \<Rightarrow> pyval \<Rightarrow> bool \<Rightarrow> pydict \<Rightarrow> pydict" where
  "effective_sampling profile_sampling request_sampling constrained runtime =
     (if constrained
      then od_set ''default_sampling'' (PDict (grammar_default_sampling profile_sampling request_sampling)) runtime
      else case (profile_sampling, request_sampling) of
        (PDict p, PDict r) \<Rightarrow> od_set ''default_sampling'' (PDict (od_merge (od_merge [] p) r)) runtime
      | _ \<Rightarrow> runtime)"

definition integer_max :: "pydict \<Rightarrow> int option" where
  "integer_max params = (case py_get params ''max_new_tokens'' of PInt n \<Rightarrow> Some n | _ \<Rightarrow> None)"

definition check_explicit_min :: "pydict \<Rightarrow> unit result" where
  "check_explicit_min params =
     (case (integer_max params, py_get params ''min_tokens'') of
        (Some m, PInt n) \<Rightarrow>
          if n > m then Inl (ValueError (''min_tokens ('' @ show_int n @ '') must not exceed max_new_tokens ('' @
            show_int m @ '')'')) else Inr ()
      | _ \<Rightarrow> Inr ())"

definition apply_sampling :: "codec \<Rightarrow> pyval \<Rightarrow> pydict \<Rightarrow> pydict \<Rightarrow> pydict result" where
  "apply_sampling cd request_sampling runtime params =
     (case py_get runtime ''default_sampling'' of
        PNone \<Rightarrow> Inr params
      | PDict sampling \<Rightarrow>
          and_then (check_sampling cd sampling)
            (\<lambda>_. fill_sampling (integer_max params) request_sampling sampling generation_sampling_keys params)
      | _ \<Rightarrow> Inl (ValueError (opt ''default_sampling'' @ '' must be an object'')))"

definition apply_generation_runtime_options :: "codec \<Rightarrow> model_config \<Rightarrow> pyval \<Rightarrow> pydict \<Rightarrow> pydict result" where
  "apply_generation_runtime_options cd cfg request_options params =
     and_then (case request_options of PNone \<Rightarrow> Inr [] | PDict d \<Rightarrow> Inr d
               | _ \<Rightarrow> Inl (ValueError (quoted ''options'' @ '' must be an object''))) (\<lambda>opts.
     and_then (if opts = [] then Inr () else check_request_options cd opts) (\<lambda>_.
     and_then (merge_runtime_options cd cfg opts) (\<lambda>merged.
     and_then (fst (resolve_profile cd cfg ''default'')) (\<lambda>r.
     let profile_sampling = py_get (rp_runtime r) ''default_sampling'';
         request_sampling = py_get opts ''default_sampling'';
         runtime = effective_sampling profile_sampling request_sampling (py_get params ''grammar'' \<noteq> PNone) merged
     in and_then (check_explicit_min params) (\<lambda>_.
        and_then (apply_sampling cd request_sampling runtime params) (\<lambda>result.
        and_then (merge_stop (py_get runtime ''stop_tokens'') result) (\<lambda>result'.
        and_then (check_runtime_timeouts runtime timeout_keys) (\<lambda>_. Inr result'))))))))"

definition timeout_seconds :: "pyval \<Rightarrow> real option" where
  "timeout_seconds v = (if is_finite_number v \<and> num_of v > 0 then Some (num_of v) else None)"

definition resolve_generation_timeouts :: "codec \<Rightarrow> model_config \<Rightarrow> pydict \<Rightarrow> (real option \<times> real option) result" where
  "resolve_generation_timeouts cd cfg opts =
     and_then (merge_runtime_options cd cfg opts)
       (\<lambda>rt. Inr (timeout_seconds (py_get rt ''first_chunk_timeout_s''), timeout_seconds (py_get rt ''overall_timeout_s'')))"

section \<open>What the options do to a request\<close>

text \<open>Computations that raise nothing but \<^verbatim>\<open>ValueError\<close>.\<close>

definition value_errors :: "'a result \<Rightarrow> bool" where
  "value_errors m = (case m of Inl (ValueError t) \<Rightarrow> True | Inl e \<Rightarrow> False | Inr x \<Rightarrow> True)"

lemma value_errors_simps [simp]: "value_errors (Inr x)" "value_errors (Inl (ValueError t))"
  by (simp_all add: value_errors_def)

lemma value_errors_and_then [intro!]: "value_errors m \<Longrightarrow> (\<And>x. m = Inr x \<Longrightarrow> value_errors (f x)) \<Longrightarrow> value_errors (and_then m f)"
  by (cases m) (auto simp: value_errors_def)

lemma value_errors_if [intro!]: "(b \<Longrightarrow> value_errors m) \<Longrightarrow> (\<not> b \<Longrightarrow> value_errors n) \<Longrightarrow> value_errors (if b then m else n)"
  by simp

lemma value_errors_prod [intro!]: "(\<And>a b. p = (a, b) \<Longrightarrow> value_errors (f a b)) \<Longrightarrow> value_errors (case p of (a, b) \<Rightarrow> f a b)"
  by (cases p) simp

lemma profile_errors: "parents_checked cfg \<Longrightarrow> value_errors (fst (resolve_profile cd cfg n))"
  by (auto simp: resolve_profile_def resolve_profile_uncached_def parents_checked_def check_parent_def list_all_iff
      dest!: map_of_SomeD split: option.split sum.split)

lemma lora_errors:
  "value_errors (agree_fields opts prev fs)" "value_errors (split_lora_selection opts)"
  "value_errors (check_declared cd cfg pn opts ds)" "value_errors (single_selections rt fs)"
  "value_errors (selection_source cd r s)" "value_errors (selection_sources cd r ss)"
  "value_errors (profile_lora_selection cd r)"
proof -
  show a: "value_errors (agree_fields opts prev fs)" for opts prev fs
    by (induction opts prev fs rule: agree_fields.induct) (auto simp: Let_def)
  show b: "value_errors (split_lora_selection opts)" for opts
    by (auto simp: split_lora_selection_def Let_def a)
  show "value_errors (check_declared cd cfg pn opts ds)"
    by (induction cd cfg pn opts ds rule: check_declared.induct) (auto simp: Let_def)
  show c: "value_errors (single_selections rt fs)" for rt fs
  proof (induction rt fs rule: single_selections.induct)
    case (2 rt f fs)
    show ?case unfolding single_selections.simps using 2 b by (auto simp: b)
  qed simp
  show d: "value_errors (selection_source cd r s)" for s
    by (auto simp: selection_source_def Let_def split: pyval.split)
  show e: "value_errors (selection_sources cd r ss)" for ss by (induction ss) (auto simp: d)
  show "value_errors (profile_lora_selection cd r)" by (auto simp: profile_lora_selection_def c e)
qed

lemma merge_errors: "parents_checked cfg \<Longrightarrow> value_errors (merge_runtime_options cd cfg opts)"
proof -
  assume p: "parents_checked cfg"
  have "value_errors (resolve_profile_or_raise cd cfg opts)"
    using p by (auto simp: resolve_profile_or_raise_def profile_errors split: pyval.split)
  moreover have "value_errors (check_overflow_policy cd d)" for d by (auto simp: check_overflow_policy_def Let_def)
  ultimately show ?thesis
    unfolding merge_runtime_options_def merge_runtime_options_with_profile_def check_declared_lora_def Let_def
    by (intro value_errors_and_then value_errors_prod value_errors_if) (simp_all add: lora_errors del: check_declared.simps)
qed

lemma option_errors:
  "value_errors (check_request_timeouts opts ks)" "value_errors (check_request_options cd opts)"
  "value_errors (check_sampling cd smp)" "value_errors (fill_sampling cap rs smp keys res)"
  "value_errors (merge_stop st res)" "value_errors (check_runtime_timeouts rt ks)" "value_errors (check_explicit_min params)"
proof -
  show t: "value_errors (check_request_timeouts opts ks)" for ks
    by (induction opts ks rule: check_request_timeouts.induct) (auto split: option.split)
  show "value_errors (check_request_options cd opts)"
    by (auto simp: check_request_options_def check_shapes_def Let_def t split: pyval.split)
  show "value_errors (check_sampling cd smp)" by (auto simp: check_sampling_def Let_def split: option.split)
  have "value_errors (fill_value cap named src v)" for cap named src v
    by (auto simp: fill_value_def split: option.split pyval.split)
  then show "value_errors (fill_sampling cap rs smp keys res)"
    by (induction cap rs smp keys res rule: fill_sampling.induct) (auto split: option.split)
  show "value_errors (merge_stop st res)" by (auto simp: merge_stop_def split: pyval.split)
  show "value_errors (check_runtime_timeouts rt ks)"
    by (induction rt ks rule: check_runtime_timeouts.induct) (auto simp: Let_def)
  show "value_errors (check_explicit_min params)" by (auto simp: check_explicit_min_def split: option.split pyval.split)
qed

lemma apply_errors: "parents_checked cfg \<Longrightarrow> value_errors (apply_generation_runtime_options cd cfg options params)"
  by (auto simp: apply_generation_runtime_options_def apply_sampling_def Let_def option_errors merge_errors profile_errors
      split: pyval.split)

lemma py_get_od_set: "py_get (od_set k v d) k' = (if k' = k then v else py_get d k')"
  by (simp add: py_get_def map_of_od_set)

lemma fill_sampling_keeps:
  "fill_sampling cap rs smp keys res = Inr res' \<Longrightarrow> py_get res k \<noteq> PNone \<or> k \<notin> snd ` set keys \<Longrightarrow>
     py_get res' k = py_get res k"
proof (induction cap rs smp keys res rule: fill_sampling.induct)
  case (2 cap rs smp s t keys res)
  show ?case
  proof (cases "\<exists>v. map_of smp s = Some v \<and> py_get res t = PNone")
    case True
    with 2(4) obtain v w where w: "map_of smp s = Some v" "py_get res t = PNone"
      "fill_value cap (case rs of PDict d \<Rightarrow> od_mem s d | _ \<Rightarrow> False) s v = Inr w"
      "fill_sampling cap rs smp keys (od_set t w res) = Inr res'" by auto
    from 2(5) w(2) have "k \<noteq> t" by auto
    with 2(2) [OF w] 2(5) show ?thesis by (simp add: py_get_od_set)
  next
    case False
    with 2 show ?thesis by (auto split: option.splits if_splits)
  qed
qed simp

lemma fill_sampling_sets:
  assumes "fill_sampling cap rs smp keys res = Inr res'" and "distinct (map snd keys)" and "(source, target) \<in> set keys"
    and "map_of smp source = Some v" and "v \<noteq> PNone" and "py_get res target = PNone"
  shows "\<exists>named. fill_value cap named source v = Inr (py_get res' target)"
  using assms
proof (induction cap rs smp keys res rule: fill_sampling.induct)
  case (2 cap rs smp s t keys res)
  show ?case
  proof (cases "(source, target) = (s, t)")
    case True
    with 2 obtain w named where w: "fill_value cap named source v = Inr w"
      and rest: "fill_sampling cap rs smp keys (od_set t w res) = Inr res'" by auto
    moreover have "py_get res' t = w"
      using fill_sampling_keeps [OF rest, of t] 2(5) by (simp add: py_get_od_set)
    ultimately show ?thesis using True by auto
  next
    case False
    with 2 have "(source, target) \<in> set keys" "target \<noteq> t" by force+
    with 2 show ?thesis by (auto simp: py_get_od_set split: option.splits if_splits)
  qed
qed simp

lemma sampling_targets_distinct: "distinct (map snd generation_sampling_keys)"
  by (simp add: generation_sampling_keys_def)

lemma apply_sampling_keeps:
  "apply_sampling cd rs rt params = Inr res \<Longrightarrow>
     py_get params k \<noteq> PNone \<or> k \<notin> snd ` set generation_sampling_keys \<Longrightarrow> py_get res k = py_get params k"
  unfolding apply_sampling_def by (cases "py_get rt ''default_sampling''") (auto intro: fill_sampling_keeps)

lemma merge_stop_keeps: "merge_stop st res = Inr res' \<Longrightarrow> k \<noteq> ''stop'' \<Longrightarrow> py_get res' k = py_get res k"
  by (auto simp: merge_stop_def py_get_od_set split: pyval.splits if_splits)

lemma merge_stop_extends:
  "merge_stop st res = Inr res' \<Longrightarrow> py_get res ''stop'' = PList xs \<Longrightarrow> \<exists>ys. py_get res' ''stop'' = PList (xs @ ys)"
  by (auto simp: merge_stop_def py_get_od_set split: pyval.splits if_splits)

text \<open>The stages of an application that succeeds.\<close>

lemma apply_stages:
  assumes "apply_generation_runtime_options cd cfg ro params = Inr res"
  obtains opts merged r res1 where
    "ro = PNone \<and> opts = [] \<or> ro = PDict opts"
    "merge_runtime_options cd cfg opts = Inr merged"
    "fst (resolve_profile cd cfg ''default'') = Inr r"
    "check_explicit_min params = Inr ()"
    "apply_sampling cd (py_get opts ''default_sampling'')
       (effective_sampling (py_get (rp_runtime r) ''default_sampling'') (py_get opts ''default_sampling'')
         (py_get params ''grammar'' \<noteq> PNone) merged) params = Inr res1"
    "merge_stop (py_get (effective_sampling (py_get (rp_runtime r) ''default_sampling'') (py_get opts ''default_sampling'')
         (py_get params ''grammar'' \<noteq> PNone) merged) ''stop_tokens'') res1 = Inr res"
proof -
  from assms obtain opts where o: "(case ro of PNone \<Rightarrow> Inr [] | PDict d \<Rightarrow> Inr d
      | _ \<Rightarrow> Inl (ValueError (quoted ''options'' @ '' must be an object''))) = Inr opts"
    unfolding apply_generation_runtime_options_def and_then_result by blast
  then have "ro = PNone \<and> opts = [] \<or> ro = PDict opts" by (cases ro) auto
  with assms o that show ?thesis
    unfolding apply_generation_runtime_options_def by (simp add: Let_def) blast
qed

lemma typed_fields_kept:
  assumes "apply_generation_runtime_options cd cfg ro params = Inr res" and "py_get params k \<noteq> PNone" and "k \<noteq> ''stop''"
  shows "py_get res k = py_get params k"
proof (rule apply_stages [OF assms(1)])
  fix opts merged r res1
  let ?rt = "effective_sampling (py_get (rp_runtime r) ''default_sampling'') (py_get opts ''default_sampling'')
    (py_get params ''grammar'' \<noteq> PNone) merged"
  assume a: "apply_sampling cd (py_get opts ''default_sampling'') ?rt params = Inr res1"
    and m: "merge_stop (py_get ?rt ''stop_tokens'') res1 = Inr res"
  show ?thesis
    using merge_stop_keeps [OF m assms(3)] apply_sampling_keeps [OF a disjI1 [OF assms(2)]] by (rule trans)
qed

lemma stop_kept:
  assumes "apply_generation_runtime_options cd cfg ro params = Inr res" and "py_get params ''stop'' = PList xs"
  shows "\<exists>ys. py_get res ''stop'' = PList (xs @ ys)"
proof (rule apply_stages [OF assms(1)])
  fix opts merged r res1
  let ?rt = "effective_sampling (py_get (rp_runtime r) ''default_sampling'') (py_get opts ''default_sampling'')
    (py_get params ''grammar'' \<noteq> PNone) merged"
  assume a: "apply_sampling cd (py_get opts ''default_sampling'') ?rt params = Inr res1"
    and m: "merge_stop (py_get ?rt ''stop_tokens'') res1 = Inr res"
  have "py_get res1 ''stop'' = PList xs"
    using apply_sampling_keeps [OF a, of "''stop''"] assms(2) by simp
  then show ?thesis by (rule merge_stop_extends [OF m])
qed

text \<open>
  C19. What the caller set wins over every default: after the runtime options of profile and request
  are applied, each typed field the request carries has its value, and explicit stop sequences stay at the front of the list.
\<close>

theorem typed_fields_win:
  assumes "apply_generation_runtime_options cd cfg ro params = Inr res"
  shows "(py_get params k \<noteq> PNone \<and> k \<noteq> ''stop'' \<longrightarrow> py_get res k = py_get params k) \<and>
    (py_get params ''stop'' = PList xs \<longrightarrow> (\<exists>ys. py_get res ''stop'' = PList (xs @ ys)))"
  using typed_fields_kept [OF assms] stop_kept [OF assms] by blast

lemma grammar_sampling_get:
  assumes "k \<in> {''temperature'', ''presence_penalty'', ''frequency_penalty''}"
    and "case rs of PDict d \<Rightarrow> od_wf d \<and> \<not> od_mem k d | _ \<Rightarrow> True"
  shows "map_of (grammar_default_sampling ps rs) k = Some (PFloat (Finite 0))"
proof -
  have wf: "od_wf grammar_sampling_defaults" by (simp add: grammar_sampling_defaults_def od_wf_def od_keys_def)
  have "map_of grammar_sampling_defaults k = Some (PFloat (Finite 0))"
    using assms(1) by (auto simp: grammar_sampling_defaults_def)
  then have "map_of (od_merge d grammar_sampling_defaults) k = Some (PFloat (Finite 0))" for d
    by (simp add: map_of_od_merge [OF wf])
  then show ?thesis
    using assms(2) by (auto simp: grammar_default_sampling_def Let_def map_of_od_merge od_mem_map_of split: pyval.splits)
qed

text \<open>
  C21. A constrained request is greedy unless its caller says otherwise: with a grammar, temperature and both penalties
  are 0 after the options are applied whenever neither the request nor its \<^verbatim>\<open>default_sampling\<close> set them,
  whatever the profile's own sampling defaults are.
\<close>

theorem grammar_request_greedy:
  assumes "apply_generation_runtime_options cd cfg ro params = Inr res" and "py_get params ''grammar'' \<noteq> PNone"
    and "k \<in> {''temperature'', ''presence_penalty'', ''frequency_penalty''}" and "py_get params k = PNone"
    and "ro = PNone \<or> (\<exists>d. ro = PDict d \<and> (case py_get d ''default_sampling'' of PDict e \<Rightarrow> od_wf e \<and> \<not> od_mem k e | _ \<Rightarrow> True))"
  shows "py_get res k = PFloat (Finite 0)"
proof (rule apply_stages [OF assms(1)])
  fix opts merged r res1
  let ?rs = "py_get opts ''default_sampling''" and ?ps = "py_get (rp_runtime r) ''default_sampling''"
  assume o: "ro = PNone \<and> opts = [] \<or> ro = PDict opts"
    and a: "apply_sampling cd ?rs (effective_sampling ?ps ?rs (py_get params ''grammar'' \<noteq> PNone) merged) params = Inr res1"
    and st: "merge_stop (py_get (effective_sampling ?ps ?rs (py_get params ''grammar'' \<noteq> PNone) merged) ''stop_tokens'') res1 = Inr res"
  have g: "map_of (grammar_default_sampling ?ps ?rs) k = Some (PFloat (Finite 0))"
    using o assms(5) by (intro grammar_sampling_get [OF assms(3)]) (auto simp: py_get_def)
  from a assms(2) have "fill_sampling (integer_max params) ?rs (grammar_default_sampling ?ps ?rs) generation_sampling_keys
      params = Inr res1" by (simp add: apply_sampling_def effective_sampling_def py_get_od_set)
  from fill_sampling_sets [OF this sampling_targets_distinct _ g _ assms(4)] assms(3)
  have "py_get res1 k = PFloat (Finite 0)"
    by (auto simp: generation_sampling_keys_def fill_value_def split: option.splits)
  with merge_stop_keeps [OF st, of k] assms(3) show ?thesis by auto
qed

lemma fill_min_bounded:
  "fill_value (Some m) named ''min_new_tokens'' v = Inr (PInt n) \<Longrightarrow> n \<le> m"
  by (cases v) (auto simp: fill_value_def split: if_splits)

lemma fill_sampling_source:
  "fill_sampling cap rs smp keys res = Inr res' \<Longrightarrow> py_get res t = PNone \<Longrightarrow> py_get res' t \<noteq> PNone \<Longrightarrow>
     \<exists>s v. (s, t) \<in> set keys \<and> map_of smp s = Some v \<and> v \<noteq> PNone"
proof (induction cap rs smp keys res rule: fill_sampling.induct)
  case (2 cap rs smp s u keys res)
  show ?case
  proof (cases "\<exists>v. map_of smp s = Some v \<and> py_get res u = PNone")
    case True
    with 2(4) obtain v w where w: "map_of smp s = Some v" "py_get res u = PNone"
      "fill_value cap (case rs of PDict d \<Rightarrow> od_mem s d | _ \<Rightarrow> False) s v = Inr w"
      "fill_sampling cap rs smp keys (od_set u w res) = Inr res'" by auto
    have "w = PNone" if "v = PNone" using w(3) that by (simp add: fill_value_def split: option.splits)
    moreover have "\<exists>s v. (s, t) \<in> set keys \<and> map_of smp s = Some v \<and> v \<noteq> PNone" if "t \<noteq> u \<or> w = PNone"
      using that 2(5) by (intro 2(2) [OF w _ 2(6)]) (auto simp: py_get_od_set)
    ultimately show ?thesis using w(1) by (cases "t = u \<and> w \<noteq> PNone") auto
  next
    case False
    with 2 show ?thesis by (fastforce split: option.splits if_splits)
  qed
qed simp

lemma fill_min_source:
  assumes "fill_sampling cap rs smp generation_sampling_keys res = Inr res'" and "py_get res ''min_tokens'' = PNone"
    and "py_get res' ''min_tokens'' \<noteq> PNone"
  shows "\<exists>v. map_of smp ''min_new_tokens'' = Some v \<and> v \<noteq> PNone"
  using fill_sampling_source [OF assms] by (auto simp: generation_sampling_keys_def)

lemma check_sampling_all: "check_sampling cd smp = Inr u \<Longrightarrow> (k, v) \<in> set smp \<Longrightarrow> valid_sampling k v"
  by (auto simp: check_sampling_def Let_def find_None_iff split: if_splits option.splits)

lemma fill_int_shape: "fill_value cap named src (PInt n) = Inr w \<Longrightarrow> \<exists>k. w = PInt k"
  by (cases cap) (auto simp: fill_value_def split: if_splits)

lemma filled_min_shape:
  assumes "apply_generation_runtime_options cd cfg ro params = Inr res" and "py_get params ''min_tokens'' = PNone"
  shows "py_get res ''min_tokens'' = PNone \<or> (\<exists>n. py_get res ''min_tokens'' = PInt n)"
proof (rule apply_stages [OF assms(1)])
  fix opts merged r res1
  let ?rs = "py_get opts ''default_sampling''"
  let ?rt = "effective_sampling (py_get (rp_runtime r) ''default_sampling'') ?rs (py_get params ''grammar'' \<noteq> PNone) merged"
  assume a: "apply_sampling cd ?rs ?rt params = Inr res1" and st: "merge_stop (py_get ?rt ''stop_tokens'') res1 = Inr res"
  have eq: "py_get res ''min_tokens'' = py_get res1 ''min_tokens''" using merge_stop_keeps [OF st, of "''min_tokens''"] by simp
  show ?thesis
  proof (cases "py_get res1 ''min_tokens'' = PNone")
    case False
    then obtain smp where smp: "check_sampling cd smp = Inr ()"
      "fill_sampling (integer_max params) ?rs smp generation_sampling_keys params = Inr res1"
      using a assms(2) by (cases "py_get ?rt ''default_sampling''") (auto simp: apply_sampling_def)
    obtain v where v: "map_of smp ''min_new_tokens'' = Some v" "v \<noteq> PNone"
      using fill_min_source [OF smp(2) assms(2) False] by auto
    have "valid_sampling ''min_new_tokens'' v" using check_sampling_all [OF smp(1)] v(1) by (metis map_of_SomeD)
    then obtain n where "v = PInt n" by (cases v) (auto simp: valid_sampling_def split: pyval.splits)
    then show ?thesis
      using fill_sampling_sets [OF smp(2) sampling_targets_distinct _ v assms(2)] eq
      by (auto simp: generation_sampling_keys_def dest: fill_int_shape)
  qed (simp add: eq)
qed

lemma min_within_max:
  assumes "apply_generation_runtime_options cd cfg ro params = Inr res"
    and "py_get params ''max_new_tokens'' = PInt m" and "py_get res ''min_tokens'' = PInt n"
  shows "py_get res ''max_new_tokens'' = PInt m \<and> n \<le> m"
proof (rule apply_stages [OF assms(1)])
  fix opts merged r res1
  let ?rs = "py_get opts ''default_sampling''"
  let ?rt = "effective_sampling (py_get (rp_runtime r) ''default_sampling'') ?rs (py_get params ''grammar'' \<noteq> PNone) merged"
  assume e: "check_explicit_min params = Inr ()" and a: "apply_sampling cd ?rs ?rt params = Inr res1"
    and st: "merge_stop (py_get ?rt ''stop_tokens'') res1 = Inr res"
  have cap: "integer_max params = Some m" using assms(2) by (simp add: integer_max_def)
  have n: "py_get res1 ''min_tokens'' = PInt n" using merge_stop_keeps [OF st, of "''min_tokens''"] assms(3) by simp
  have "n \<le> m"
  proof (cases "py_get params ''min_tokens'' = PNone")
    case False
    then have "py_get params ''min_tokens'' = PInt n" using apply_sampling_keeps [OF a disjI1] n by metis
    then show ?thesis using e cap by (simp add: check_explicit_min_def split: if_splits)
  next
    case True
    then obtain smp where smp: "fill_sampling (Some m) ?rs smp generation_sampling_keys params = Inr res1"
      using a n cap by (auto simp: apply_sampling_def split: pyval.splits)
    obtain v where v: "map_of smp ''min_new_tokens'' = Some v" "v \<noteq> PNone"
      using fill_min_source [OF smp True] n by auto
    show ?thesis
      using fill_sampling_sets [OF smp sampling_targets_distinct _ v True] n
      by (auto simp: generation_sampling_keys_def dest: fill_min_bounded)
  qed
  then show ?thesis using typed_fields_kept [OF assms(1), of "''max_new_tokens''"] assms(2) by simp
qed

text \<open>
  The minimum never exceeds the maximum: after the options are applied, an integer \<^verbatim>\<open>min_tokens\<close> is at most the
  request's integer \<^verbatim>\<open>max_new_tokens\<close>, whether the minimum came from the request, its options or the profile.
\<close>

theorem min_tokens_within_max:
  assumes "apply_generation_runtime_options cd cfg ro params = Inr res"
    and "py_get params ''max_new_tokens'' = PInt m" and "py_get res ''min_tokens'' = PInt n"
  shows "py_get res ''max_new_tokens'' = PInt m \<and> n \<le> m"
  by (rule min_within_max [OF assms])

text \<open>
  C23. A LoRA reaches the adapter only if the profile declares it: the selection that option merging hands on is
  the base model or one of the names the resolved profile declares, whether the request or the profile made it.
\<close>

theorem selected_lora_declared:
  assumes "merge_runtime_options_with_profile cd cfg opts = Inr (m, r)" and "map_of m ''lora'' = Some v"
  shows "v = PNone \<or> (\<exists>t. v = PStr t \<and> t \<in> declared_loras cd r)"
  by (rule merged_lora_declared [OF assms])

text \<open>
  The cache of resolved profiles is transparent: from a coherent cache, resolving a sequence of names keeps it
  coherent, so that each name still gets what resolving without a cache gives.
\<close>

theorem profile_cache_transparent:
  assumes "cache_coherent cd cfg"
  shows "fst (resolve_profile cd (store_run (resolve_step cd) names cfg) n) = resolve_profile_uncached cd cfg n"
proof -
  have "resolve_profile_uncached cd (store_run (resolve_step cd) names cfg) n = resolve_profile_uncached cd cfg n"
    using profile_cache.bounded_run [OF assms, of "\<lambda>c. resolve_profile_uncached cd c n = resolve_profile_uncached cd cfg n"]
    by (simp add: resolve_step_uncached)
  then show ?thesis by (simp add: resolve_profile_fst profile_cache.invar_run [OF assms])
qed

section \<open>A configuration\<close>

definition demo_codec :: codec where
  "demo_codec = \<lparr>codec_lib = demo_lib, b64decode = (\<lambda>t. if t = ''?'' then Inl ''bad'' else Inr t), repr_of = (\<lambda>v. ''value'')\<rparr>"

definition demo_profile :: profile_config where
  "demo_profile = \<lparr>pc_extends = None, pc_max_batch_tokens = Some 64, pc_compute_precision = None,
     pc_adapter_path = Some ''a'', pc_loadtime = [(''lora_paths'', PDict [(''fr'', PStr ''org/fr'')])],
     pc_runtime = [(''default_sampling'', PDict [(''temperature'', PFloat (Finite 1)), (''min_new_tokens'', PInt 9)]),
                   (''stop_tokens'', PList [PStr ''a'', PStr ''z''])],
     pc_adaptive_batching = None, pc_bounded_batch_progress = None, pc_kv_budget_tokens = Some 10,
     pc_admission_enabled = None, pc_max_output_tokens = None, pc_chat_template_kwargs = None, pc_grammar_profile = None\<rparr>"

definition demo_config :: model_config where
  "demo_config = \<lparr>sie_id = ''m'', profiles = [(''default'', demo_profile),
       (''child'', demo_profile\<lparr>pc_extends := Some ''default'', pc_max_batch_tokens := None\<rparr>)],
     generate_max_output_tokens = Some 8, resolved_cache = []\<rparr>"

definition demo_params :: pydict where
  "demo_params = [(''prompt'', PStr ''hi''), (''max_new_tokens'', PInt 4), (''stop'', PList [PStr ''z'']),
     (''grammar'', PDict [(''kind'', PStr ''regex''), (''value'', PStr ''x''), (''strict'', PBool True)])]"

definition demo_applied :: pydict where
  "demo_applied = demo_params @ [(''temperature'', PFloat (Finite 0)), (''frequency_penalty'', PFloat (Finite 0)),
     (''presence_penalty'', PFloat (Finite 0)), (''min_tokens'', PInt 4)]"

definition demo_result :: pydict where
  "demo_result = od_set ''stop'' (PList [PStr ''z'', PStr ''a'']) demo_applied"

lemmas demo_defs = demo_codec_def demo_profile_def demo_config_def demo_params_def demo_applied_def demo_result_def

lemma demo_apply: "apply_generation_runtime_options demo_codec demo_config PNone demo_params = Inr demo_result"
  by code_simp

theorem typed_fields_win_witness:
  "py_get demo_result ''max_new_tokens'' = PInt 4 \<and> (\<exists>ys. py_get demo_result ''stop'' = PList ([PStr ''z''] @ ys))"
  using typed_fields_win [OF demo_apply, of "''max_new_tokens''" "[PStr ''z'']"] by (simp add: demo_params_def py_get_def)

theorem grammar_request_greedy_witness: "py_get demo_result ''temperature'' = PFloat (Finite 0)"
  by (rule grammar_request_greedy [OF demo_apply]) (simp_all add: demo_params_def py_get_def)

theorem min_tokens_within_max_witness: "py_get demo_result ''max_new_tokens'' = PInt 4 \<and> (4::int) \<le> 4"
  by (rule min_tokens_within_max [OF demo_apply]) code_simp+

theorem selected_lora_declared_witness:
  "\<exists>m r. merge_runtime_options_with_profile demo_codec demo_config [(''lora'', PStr ''fr'')] = Inr (m, r) \<and>
     ''fr'' \<in> declared_loras demo_codec r"
proof -
  have "case merge_runtime_options_with_profile demo_codec demo_config [(''lora'', PStr ''fr'')] of
      Inl e \<Rightarrow> False | Inr (m, r) \<Rightarrow> map_of m ''lora'' = Some (PStr ''fr'')"
    by code_simp
  then obtain m r where "merge_runtime_options_with_profile demo_codec demo_config [(''lora'', PStr ''fr'')] = Inr (m, r)"
    "map_of m ''lora'' = Some (PStr ''fr'')" by (auto split: sum.splits)
  with selected_lora_declared [OF this] show ?thesis by auto
qed

theorem profile_cache_transparent_witness:
  "fst (resolve_profile demo_codec (store_run (resolve_step demo_codec) [''child'', ''x''] demo_config) ''child'') =
     resolve_profile_uncached demo_codec demo_config ''child''"
  by (rule profile_cache_transparent) (simp add: cache_coherent_def demo_config_def)

end
