(* ===== verification/Generate_Request.thy ===== *)
theory Generate_Request
  imports Runtime_Options Strict_Grammar "HOL-Library.Code_Target_Nat"
begin

text \<open>
  Validation of a generate work item: \<^verbatim>\<open>_validate_generate_params\<close> of \<^verbatim>\<open>processors/streaming.py\<close>, field by field
  in the order of the code. A value is accepted, refused with a validation error, or ends in an
  exception that the validator does not catch. The lines that only write the debug log have no effect here.
\<close>

section \<open>The decoded request\<close>

record chat_message =
  cm_role :: string
  cm_content :: string
  cm_tool_calls :: "pyval list option"
  cm_tool_call_id :: "string option"
  cm_images :: "media list option"
  cm_content_parts :: "layout_part list option"
  cm_videos :: "media list option"

datatype request_input = Prompt_input string | Messages_input "chat_message list"

record generate_request =
  rq_input :: request_input
  rq_max_new_tokens :: int
  rq_temperature :: real
  rq_top_p :: real
  rq_stop :: "string list option"
  rq_frequency_penalty :: "real option"
  rq_presence_penalty :: "real option"
  rq_top_k :: "int option"
  rq_repetition_penalty :: "real option"
  rq_min_tokens :: "int option"
  rq_chat_template_kwargs :: "pydict option"
  rq_grammar :: "grammar_spec option"
  rq_schema_in_prompt :: bool
  rq_tools :: "pydict list option"
  rq_tool_choice :: "pyval option"
  rq_parallel_tool_calls :: bool
  rq_seed :: "int option"
  rq_logit_bias :: "(string \<times> py_float) list option"
  rq_logprobs :: bool
  rq_top_logprobs :: "int option"
  rq_n :: "int option"
  rq_best_of :: "int option"
  rq_stream :: bool
  rq_lora_adapter :: "string option"
  rq_include_reasoning :: bool
  rq_native_prompt :: bool

record work_item =
  wi_generate :: pyval
  wi_options :: pyval

definition extract_generate_params :: "work_item \<Rightarrow> pydict option" where
  "extract_generate_params wi =
     (case wi_generate wi of
        PDict d \<Rightarrow> Some d
      | _ \<Rightarrow> (case wi_options wi of
                PDict d \<Rightarrow> if od_mem ''prompt'' d \<or> od_mem ''messages'' d then Some d else None
              | _ \<Rightarrow> None))"

section \<open>Exceptions and defaults\<close>

text \<open>\<^verbatim>\<open>except (TypeError, ValueError)\<close> with \<^verbatim>\<open>None\<close> as the result; another exception escapes.\<close>

definition caught :: "'a result \<Rightarrow> 'a option checked" where
  "caught m =
     (case m of Inr x \<Rightarrow> Inr (Some x) | Inl TypeError \<Rightarrow> Inr None | Inl (ValueError _) \<Rightarrow> Inr None | Inl e \<Rightarrow> Inl (Raised e))"

text \<open>\<^verbatim>\<open>except ValueError as exc\<close> with a validation error as the result.\<close>

definition refused :: "'a result \<Rightarrow> 'a checked" where
  "refused m = (case m of Inr x \<Rightarrow> Inr x | Inl (ValueError t) \<Rightarrow> invalid t | Inl e \<Rightarrow> Inl (Raised e))"

definition py_get_or :: "pydict \<Rightarrow> string \<Rightarrow> pyval \<Rightarrow> pyval" where
  "py_get_or d k v = (case map_of d k of None \<Rightarrow> v | Some w \<Rightarrow> w)"

section \<open>Messages\<close>

definition allowed_chat_roles :: "string list" where
  "allowed_chat_roles = [''system'', ''user'', ''assistant'', ''tool'', ''developer'']"

definition max_images_per_request :: nat where
  "max_images_per_request = 16"

definition max_videos_per_request :: nat where
  "max_videos_per_request = 1"

definition is_media_part :: "layout_part \<Rightarrow> bool" where
  "is_media_part p = (p = Image_part \<or> p = Video_part)"

text \<open>The layout of a message: the one of the field when it places media, else the one of the content.\<close>

definition choose_layout :: "nat \<Rightarrow> layout_part list option \<Rightarrow> layout_part list option \<Rightarrow> layout_part list option checked" where
  "choose_layout idx field_parts content_layout =
     (let normalized = (case field_parts of Some ps \<Rightarrow> if list_ex is_media_part ps then Some ps else None | None \<Rightarrow> None) in
      if normalized \<noteq> None \<and> content_layout \<noteq> None
      then invalid (message_at idx @ '' has both an image-bearing '' @ quoted ''content'' @ '' array and an image-bearing '' @
        quoted ''content_parts'' @ '' field; exactly one layout source is allowed'')
      else Inr (if normalized \<noteq> None then normalized else content_layout))"

definition reconcile :: "nat \<Rightarrow> layout_part list option \<Rightarrow> media list \<Rightarrow> media list \<Rightarrow> unit checked" where
  "reconcile idx layout images videos =
     (let vm = (case layout of None \<Rightarrow> 0 | Some ps \<Rightarrow> video_markers ps) in
      if vm \<noteq> length videos
      then invalid (message_at idx @ ''.content_parts has '' @ show_nat vm @ '' video placeholder(s) but '' @
        show_nat (length videos) @ '' video(s) were provided'')
      else case layout of
        None \<Rightarrow> Inr ()
      | Some ps \<Rightarrow>
          if image_markers ps \<noteq> length images
          then invalid (message_at idx @ ''.content_parts has '' @ show_nat (image_markers ps) @
            '' image placeholder(s) but '' @ show_nat (length images) @ '' image(s) were provided'')
          else Inr ())"

definition or_none :: "'a list \<Rightarrow> 'a list option" where
  "or_none xs = (if xs = [] then None else Some xs)"

definition bad_role :: "codec \<Rightarrow> nat \<Rightarrow> pyval \<Rightarrow> 'a checked" where
  "bad_role cd idx v = invalid (message_at idx @ ''.role must be one of '' @
     repr_of cd (PList (map PStr (sort allowed_chat_roles))) @ '', got '' @ repr_of cd v)"

definition decode_message ::
  "codec \<Rightarrow> nat \<Rightarrow> pyval \<Rightarrow> nat \<Rightarrow> nat \<Rightarrow> (chat_message \<times> nat \<times> nat) checked" where
  "decode_message cd idx item total_images total_videos =
     (case item of
        PDict m \<Rightarrow>
          (case py_get m ''role'' of
             PStr role \<Rightarrow>
               if role \<notin> set allowed_chat_roles then bad_role cd idx (PStr role)
               else
                 let tool_calls = (case py_get m ''tool_calls'' of PList ts \<Rightarrow> or_none ts | _ \<Rightarrow> None);
                     content = (if py_get m ''content'' = PNone \<and> role = ''assistant'' \<and> tool_calls \<noteq> None
                                then PStr [] else py_get m ''content'')
                 in and_then (parse_chat_content cd content idx) (\<lambda>(text, content_images, content_layout).
                    and_then (parse_message_images_field cd (py_get m ''images'') idx) (\<lambda>field_images.
                    let images = content_images @ field_images; ti = total_images + length images in
                    if ti > max_images_per_request
                    then invalid (''too many images ('' @ show_nat ti @ ''); maximum is '' @
                      show_nat max_images_per_request @ '' per request'')
                    else and_then (parse_content_parts_field cd (py_get m ''content_parts'') idx) (\<lambda>field_parts.
                    and_then (parse_message_videos_field cd (py_get m ''videos'') idx) (\<lambda>videos.
                    let tv = total_videos + length videos in
                    if tv > max_videos_per_request
                    then invalid (''too many videos ('' @ show_nat tv @ ''); maximum is '' @
                      show_nat max_videos_per_request @ '' per request'')
                    else and_then (choose_layout idx field_parts content_layout) (\<lambda>layout.
                    and_then (reconcile idx layout images videos) (\<lambda>_.
                    Inr (\<lparr>cm_role = role, cm_content = text, cm_tool_calls = tool_calls,
                          cm_tool_call_id = (case py_get m ''tool_call_id'' of PStr i \<Rightarrow> Some i | _ \<Rightarrow> None),
                          cm_images = or_none images, cm_content_parts = layout, cm_videos = or_none videos\<rparr>, ti, tv)))))))
           | v \<Rightarrow> bad_role cd idx v)
      | _ \<Rightarrow> invalid (message_at idx @ '' must be an object''))"

fun decode_messages :: "codec \<Rightarrow> nat \<Rightarrow> pyval list \<Rightarrow> nat \<Rightarrow> nat \<Rightarrow> chat_message list checked" where
  "decode_messages cd idx [] ti tv = Inr []"
| "decode_messages cd idx (item # items) ti tv =
     and_then (decode_message cd idx item ti tv)
       (\<lambda>(m, ti', tv'). and_then (decode_messages cd (Suc idx) items ti' tv') (\<lambda>ms. Inr (m # ms)))"

definition decode_input :: "codec \<Rightarrow> pydict \<Rightarrow> request_input checked" where
  "decode_input cd params =
     (if od_mem ''prompt'' params \<and> od_mem ''messages'' params
      then invalid (quoted ''prompt'' @ '' and '' @ quoted ''messages'' @ '' are mutually exclusive on a generate work item'')
      else if od_mem ''messages'' params
      then (case py_get params ''messages'' of
              PList items \<Rightarrow>
                if items = [] then invalid (quoted ''messages'' @ '' must be a non-empty array'')
                else and_then (decode_messages cd 0 items 0 0) (\<lambda>ms. Inr (Messages_input ms))
            | _ \<Rightarrow> invalid (quoted ''messages'' @ '' must be a non-empty array''))
      else (case py_get params ''prompt'' of
              PStr t \<Rightarrow> if t = [] then invalid (quoted ''prompt'' @ '' must be a non-empty string'') else Inr (Prompt_input t)
            | _ \<Rightarrow> invalid (quoted ''prompt'' @ '' must be a non-empty string'')))"

section \<open>Fields\<close>

definition decode_max_new_tokens :: "model_config option \<Rightarrow> pydict \<Rightarrow> int checked" where
  "decode_max_new_tokens cfg params =
     (let positive = (\<lambda>n shown.
        if n \<le> 0 then invalid (quoted ''max_new_tokens'' @ '' must be a positive integer'')
        else case cfg of
          Some c \<Rightarrow> (case generate_max_output_tokens c of
              Some cap \<Rightarrow>
                if n > cap then Inl (Invalid ''context_exceeded'' (''max_new_tokens ('' @ shown @ '') exceeds model cap ('' @
                  show_int cap @ '')''))
                else Inr n
            | None \<Rightarrow> Inr n)
        | None \<Rightarrow> Inr n)
      in case py_get params ''max_new_tokens'' of
           PInt n \<Rightarrow> positive n (show_int n)
         | PBool b \<Rightarrow> positive (if b then 1 else 0) ''True''
         | _ \<Rightarrow> invalid (quoted ''max_new_tokens'' @ '' must be a positive integer''))"

definition decode_number :: "string \<Rightarrow> (real \<Rightarrow> bool) \<Rightarrow> pyval \<Rightarrow> real checked" where
  "decode_number msg ok v =
     (case v of
        PBool _ \<Rightarrow> invalid msg
      | PInt n \<Rightarrow>
          (case py_to_float (PInt n) of
             Inr (Finite r) \<Rightarrow> if ok r then Inr r else invalid msg
           | Inr _ \<Rightarrow> invalid msg
           | Inl e \<Rightarrow> Inl (Raised e))
      | PFloat (Finite r) \<Rightarrow> if ok r then Inr r else invalid msg
      | _ \<Rightarrow> invalid msg)"

definition decode_temperature :: "pydict \<Rightarrow> real checked" where
  "decode_temperature params = decode_number (quoted ''temperature'' @ '' must be a finite number >= 0'') (\<lambda>r. r \<ge> 0)
     (py_get_or params ''temperature'' (PFloat (Finite 1)))"

definition decode_top_p :: "pydict \<Rightarrow> real checked" where
  "decode_top_p params = decode_number (quoted ''top_p'' @ '' must be a number in (0, 1]'') (\<lambda>r. 0 < r \<and> r \<le> 1)
     (py_get_or params ''top_p'' (PFloat (Finite 1)))"

definition decode_stop :: "pydict \<Rightarrow> string list option checked" where
  "decode_stop params =
     (case py_get params ''stop'' of
        PNone \<Rightarrow> Inr None
      | PList vs \<Rightarrow>
          if list_all (\<lambda>v. case v of PStr t \<Rightarrow> True | _ \<Rightarrow> False) vs
          then Inr (or_none (List.map_filter (\<lambda>v. case v of PStr t \<Rightarrow> Some t | _ \<Rightarrow> None) vs))
          else invalid (quoted ''stop'' @ '' must be an array of strings'')
      | _ \<Rightarrow> invalid (quoted ''stop'' @ '' must be an array of strings''))"

definition decode_kind :: "pyval \<Rightarrow> grammar_kind option" where
  "decode_kind v =
     (if v = PStr ''json_schema'' then Some GK_json_schema else if v = PStr ''regex'' then Some GK_regex
      else if v = PStr ''ebnf'' then Some GK_ebnf else None)"

definition decode_grammar :: "codec \<Rightarrow> pydict \<Rightarrow> grammar_spec option checked" where
  "decode_grammar cd params =
     (case py_get params ''grammar'' of
        PNone \<Rightarrow> Inr None
      | PDict g \<Rightarrow>
          (let v = py_get g ''value'' in
           case decode_kind (py_get g ''kind'') of
             None \<Rightarrow> invalid (quoted ''grammar.kind'' @ '' must be '' @ quoted ''json_schema'' @ '', '' @ quoted ''regex'' @
               '' or '' @ quoted ''ebnf'' @ '', got '' @ repr_of cd (py_get g ''kind''))
           | Some k \<Rightarrow>
               if k = GK_json_schema \<and> (case v of PDict _ \<Rightarrow> False | _ \<Rightarrow> True)
               then invalid (quoted ''grammar.value'' @ '' must be an object when kind=='' @ quoted ''json_schema'')
               else if k = GK_regex \<and> (case v of PStr _ \<Rightarrow> False | _ \<Rightarrow> True)
               then invalid (quoted ''grammar.value'' @ '' must be a string when kind=='' @ quoted ''regex'')
               else if k = GK_ebnf \<and> (case v of PStr _ \<Rightarrow> False | _ \<Rightarrow> True)
               then invalid (quoted ''grammar.value'' @ '' must be a string when kind=='' @ quoted ''ebnf'')
               else if k = GK_ebnf \<and> py_get g ''strict'' = PBool True
               then Inl (Invalid ''unsupported_field'' (quoted ''grammar.strict'' @ '' is not supported for EBNF grammars''))
               else Inr (Some \<lparr>grammar_kind = k, grammar_value = v,
                   grammar_label = (case py_get g ''label'' of PStr t \<Rightarrow> Some t | _ \<Rightarrow> None),
                   grammar_strict = (case py_get g ''strict'' of PBool b \<Rightarrow> Some b | _ \<Rightarrow> None)\<rparr>))
      | _ \<Rightarrow> invalid (quoted ''grammar'' @ '' must be an object''))"

text \<open>A number read by \<^verbatim>\<open>float\<close> that is dropped unless it lies in the range.\<close>

definition in_range :: "(real \<Rightarrow> bool) \<Rightarrow> py_float option \<Rightarrow> real option" where
  "in_range ok x = (case x of Some (Finite r) \<Rightarrow> if ok r then Some r else None | _ \<Rightarrow> None)"

definition coerce_float :: "(real \<Rightarrow> bool) \<Rightarrow> pyval \<Rightarrow> real option checked" where
  "coerce_float ok v = (if v = PNone then Inr None else and_then (caught (py_to_float v)) (\<lambda>x. Inr (in_range ok x)))"

definition coerce_penalty :: "pydict \<Rightarrow> string \<Rightarrow> real option checked" where
  "coerce_penalty params name = coerce_float (\<lambda>r. - 2 \<le> r \<and> r \<le> 2) (py_get params name)"

definition decode_repetition_penalty :: "pydict \<Rightarrow> real option checked" where
  "decode_repetition_penalty params = coerce_float (\<lambda>r. 0 < r \<and> r \<le> 2) (py_get params ''repetition_penalty'')"

text \<open>An integer with a least value; a bool counts as absent.\<close>

definition coerce_at_least :: "int \<Rightarrow> pyval \<Rightarrow> int option checked" where
  "coerce_at_least low v =
     (case v of
        PNone \<Rightarrow> Inr None
      | PBool _ \<Rightarrow> Inr None
      | _ \<Rightarrow> and_then (caught (py_int v)) (\<lambda>x. Inr (case x of Some n \<Rightarrow> if n \<ge> low then Some n else None | None \<Rightarrow> None)))"

definition decode_top_k :: "pydict \<Rightarrow> int option checked" where
  "decode_top_k params = coerce_at_least 1 (py_get params ''top_k'')"

definition decode_min_tokens :: "pydict \<Rightarrow> int option checked" where
  "decode_min_tokens params = coerce_at_least 0 (py_get params ''min_tokens'')"

definition coerce_int :: "pyval \<Rightarrow> int option checked" where
  "coerce_int v = (if v = PNone then Inr None else caught (py_int v))"

definition join_keys :: "string list \<Rightarrow> string" where
  "join_keys ks = concat (case sort (remdups ks) of [] \<Rightarrow> [] | k # rest \<Rightarrow> k # map (\<lambda>t. '', '' @ t) rest)"

definition max_guardian_risk_name_len :: nat where
  "max_guardian_risk_name_len = 128"

definition check_guardian_config :: "pyval \<Rightarrow> unit result" where
  "check_guardian_config v =
     (case v of
        PDict g \<Rightarrow>
          (let unsupported = filter (\<lambda>k. k \<noteq> ''risk_name'') (od_keys g) in
           if unsupported \<noteq> []
           then Inl (ValueError (''unsupported chat_template_kwargs.guardian_config key(s): '' @ join_keys unsupported))
           else if (case py_get g ''risk_name'' of PStr t \<Rightarrow> t = [] \<or> length t > max_guardian_risk_name_len | _ \<Rightarrow> True)
           then Inl (ValueError (''chat_template_kwargs.guardian_config.risk_name must be a non-empty string of at most '' @
             show_nat max_guardian_risk_name_len @ '' characters''))
           else Inr ())
      | _ \<Rightarrow> Inl (ValueError ''chat_template_kwargs.guardian_config must be an object''))"

definition validate_chat_template_kwargs :: "pydict \<Rightarrow> pydict result" where
  "validate_chat_template_kwargs d =
     (let unsupported = filter (\<lambda>k. k \<notin> {''enable_thinking'', ''guardian_config''}) (od_keys d) in
      if unsupported \<noteq> [] then Inl (ValueError (''unsupported chat_template_kwargs key(s): '' @ join_keys unsupported))
      else if od_mem ''enable_thinking'' d \<and> (case py_get d ''enable_thinking'' of PBool _ \<Rightarrow> False | _ \<Rightarrow> True)
      then Inl (ValueError ''chat_template_kwargs.enable_thinking must be a boolean'')
      else and_then (if od_mem ''guardian_config'' d then check_guardian_config (py_get d ''guardian_config'') else Inr ())
             (\<lambda>_. Inr d))"

definition decode_chat_template_kwargs :: "pydict \<Rightarrow> pydict option checked" where
  "decode_chat_template_kwargs params =
     (case py_get params ''chat_template_kwargs'' of
        PNone \<Rightarrow> Inr None
      | PDict d \<Rightarrow> and_then (refused (validate_chat_template_kwargs d)) (\<lambda>e. Inr (Some e))
      | _ \<Rightarrow> invalid (quoted ''chat_template_kwargs'' @ '' must be an object''))"

definition decode_flag :: "pydict \<Rightarrow> string \<Rightarrow> bool option checked" where
  "decode_flag params name =
     (case py_get params name of PNone \<Rightarrow> Inr None | PBool b \<Rightarrow> Inr (Some b)
      | _ \<Rightarrow> invalid (quoted name @ '' must be a boolean''))"

definition profile_schema_in_prompt :: "codec \<Rightarrow> model_config \<Rightarrow> bool" where
  "profile_schema_in_prompt cd cfg =
     (case fst (resolve_profile cd cfg ''default'') of
        Inl e \<Rightarrow> True
      | Inr r \<Rightarrow> py_get (rp_runtime r) ''schema_in_prompt'' \<noteq> PBool False)"

definition decode_schema_in_prompt :: "codec \<Rightarrow> model_config option \<Rightarrow> pydict \<Rightarrow> bool checked" where
  "decode_schema_in_prompt cd cfg params =
     and_then (decode_flag params ''schema_in_prompt'')
       (\<lambda>f. Inr (case f of Some b \<Rightarrow> b
                  | None \<Rightarrow> (case cfg of None \<Rightarrow> True | Some c \<Rightarrow> profile_schema_in_prompt cd c)))"

definition decode_seed :: "pydict \<Rightarrow> int option" where
  "decode_seed params =
     (case py_get params ''seed'' of PInt n \<Rightarrow> if - (2 ^ 63) \<le> n \<and> n \<le> 2 ^ 63 - 1 then Some n else None | _ \<Rightarrow> None)"

fun clean_bias :: "(string \<times> pyval) list \<Rightarrow> (string \<times> py_float) list checked" where
  "clean_bias [] = Inr []"
| "clean_bias ((k, v) # rest) =
     and_then (caught (py_to_float v))
       (\<lambda>x. and_then (clean_bias rest) (\<lambda>ys. Inr (case x of None \<Rightarrow> ys | Some y \<Rightarrow> (k, y) # ys)))"

definition decode_logit_bias :: "pydict \<Rightarrow> (string \<times> py_float) list option checked" where
  "decode_logit_bias params =
     (case py_get params ''logit_bias'' of PDict d \<Rightarrow> and_then (clean_bias d) (\<lambda>ys. Inr (or_none ys)) | _ \<Rightarrow> Inr None)"

definition lora_profile :: "codec \<Rightarrow> model_config \<Rightarrow> pyval \<Rightarrow> resolved_profile result" where
  "lora_profile cd cfg options =
     (let p = (case options of PDict d \<Rightarrow> py_get d ''profile'' | _ \<Rightarrow> PNone) in
      if \<not> truthy p then fst (resolve_profile cd cfg ''default'')
      else case p of
        PStr n \<Rightarrow> fst (resolve_profile cd cfg n)
      | _ \<Rightarrow> if unhashable p then Inl TypeError
             else Inl (ValueError (profile_missing cd cfg (py_str (codec_lib cd) p))))"

definition decode_lora :: "codec \<Rightarrow> model_config option \<Rightarrow> pyval \<Rightarrow> pydict \<Rightarrow> string option checked" where
  "decode_lora cd cfg options params =
     (case py_get params ''lora_adapter'' of
        PNone \<Rightarrow> Inr None
      | PStr t \<Rightarrow>
          if t = [] then invalid (quoted ''lora_adapter'' @ '' must be a nonempty string'')
          else (case cfg of
                  None \<Rightarrow> invalid ''LoRA selection requires a declared profile''
                | Some c \<Rightarrow>
                    (case lora_profile cd c options of
                       Inl e \<Rightarrow> Inl (Raised e)
                     | Inr r \<Rightarrow> if t \<in> lora_names cd r then Inr (Some t)
                               else invalid ''The selected profile does not declare this LoRA adapter''))
      | _ \<Rightarrow> invalid (quoted ''lora_adapter'' @ '' must be a nonempty string''))"

definition decode_tools :: "pydict \<Rightarrow> pydict list option checked" where
  "decode_tools params =
     (case py_get params ''tools'' of
        PNone \<Rightarrow> Inr None
      | PList ts \<Rightarrow>
          if ts \<noteq> [] \<and> list_all (\<lambda>t. case t of PDict d \<Rightarrow> True | _ \<Rightarrow> False) ts
          then Inr (Some (List.map_filter (\<lambda>t. case t of PDict d \<Rightarrow> Some d | _ \<Rightarrow> None) ts))
          else invalid (quoted ''tools'' @ '' must be a non-empty array of objects'')
      | _ \<Rightarrow> invalid (quoted ''tools'' @ '' must be a non-empty array of objects''))"

definition decode_tool_choice :: "pydict \<Rightarrow> pyval option checked" where
  "decode_tool_choice params =
     (case py_get params ''tool_choice'' of
        PNone \<Rightarrow> Inr None | PStr t \<Rightarrow> Inr (Some (PStr t)) | PDict d \<Rightarrow> Inr (Some (PDict d))
      | _ \<Rightarrow> invalid (quoted ''tool_choice'' @ '' must be a string or object''))"

definition decode_parallel :: "pydict \<Rightarrow> bool" where
  "decode_parallel params = (case py_get_or params ''parallel_tool_calls'' (PBool True) of PNone \<Rightarrow> True | v \<Rightarrow> truthy v)"

section \<open>The validator\<close>

definition resolved_params :: "codec \<Rightarrow> model_config option \<Rightarrow> work_item \<Rightarrow> pydict checked" where
  "resolved_params cd cfg wi =
     (case extract_generate_params wi of
        None \<Rightarrow> invalid (''Generate work item missing '' @ quoted ''generate'' @
          '' params (prompt + max_new_tokens or messages + max_new_tokens required)'')
      | Some params \<Rightarrow>
          if (case wi_options wi of PNone \<Rightarrow> False | PDict _ \<Rightarrow> False | _ \<Rightarrow> True)
          then invalid (quoted ''options'' @ '' must be an object'')
          else case cfg of
            None \<Rightarrow> Inr params
          | Some c \<Rightarrow> refused (apply_generation_runtime_options cd c (wi_options wi) params))"

definition decode_request :: "codec \<Rightarrow> model_config option \<Rightarrow> pyval \<Rightarrow> pydict \<Rightarrow> generate_request checked" where
  "decode_request cd cfg options params =
     and_then (decode_max_new_tokens cfg params) (\<lambda>max_new_tokens.
     and_then (decode_input cd params) (\<lambda>input.
     and_then (decode_temperature params) (\<lambda>temperature.
     and_then (decode_top_p params) (\<lambda>top_p.
     and_then (decode_stop params) (\<lambda>stop.
     and_then (decode_grammar cd params) (\<lambda>grammar.
     and_then (coerce_penalty params ''frequency_penalty'') (\<lambda>frequency_penalty.
     and_then (coerce_penalty params ''presence_penalty'') (\<lambda>presence_penalty.
     and_then (decode_top_k params) (\<lambda>top_k.
     and_then (decode_repetition_penalty params) (\<lambda>repetition_penalty.
     and_then (decode_min_tokens params) (\<lambda>min_tokens.
     and_then (decode_chat_template_kwargs params) (\<lambda>chat_template_kwargs.
     and_then (decode_schema_in_prompt cd cfg params) (\<lambda>schema_in_prompt.
     and_then (decode_flag params ''include_reasoning'') (\<lambda>include_reasoning.
     and_then (decode_flag params ''native_prompt'') (\<lambda>native_prompt.
     and_then (decode_logit_bias params) (\<lambda>logit_bias.
     and_then (coerce_int (py_get params ''top_logprobs'')) (\<lambda>top_logprobs.
     and_then (coerce_int (py_get params ''n'')) (\<lambda>n.
     and_then (coerce_int (py_get params ''best_of'')) (\<lambda>best_of.
     and_then (decode_lora cd cfg options params) (\<lambda>lora_adapter.
     and_then (decode_tools params) (\<lambda>tools.
     and_then (decode_tool_choice params) (\<lambda>tool_choice.
     Inr \<lparr>rq_input = input, rq_max_new_tokens = max_new_tokens, rq_temperature = temperature, rq_top_p = top_p,
          rq_stop = stop, rq_frequency_penalty = frequency_penalty, rq_presence_penalty = presence_penalty,
          rq_top_k = top_k, rq_repetition_penalty = repetition_penalty, rq_min_tokens = min_tokens,
          rq_chat_template_kwargs = chat_template_kwargs, rq_grammar = grammar, rq_schema_in_prompt = schema_in_prompt,
          rq_tools = tools, rq_tool_choice = tool_choice, rq_parallel_tool_calls = decode_parallel params,
          rq_seed = decode_seed params, rq_logit_bias = logit_bias,
          rq_logprobs = truthy (py_get params ''logprobs''), rq_top_logprobs = top_logprobs, rq_n = n, rq_best_of = best_of,
          rq_stream = truthy (py_get_or params ''stream'' (PBool False)), rq_lora_adapter = lora_adapter,
          rq_include_reasoning = (include_reasoning = Some True), rq_native_prompt = (native_prompt = Some True)\<rparr>))))))))))))))))))))))"

definition validate_generate_params :: "codec \<Rightarrow> model_config option \<Rightarrow> work_item \<Rightarrow> generate_request checked" where
  "validate_generate_params cd cfg wi = and_then (resolved_params cd cfg wi) (decode_request cd cfg (wi_options wi))"

section \<open>What an accepted request satisfies\<close>

lemma decode_number_ok: "decode_number msg ok v = Inr r \<Longrightarrow> ok r"
  by (auto simp: decode_number_def split: pyval.splits py_float.splits sum.splits if_splits)

lemma in_range_ok: "in_range ok x = Some r \<Longrightarrow> ok r"
  by (auto simp: in_range_def split: if_splits option.splits py_float.splits)

lemma coerce_float_ok: "coerce_float ok v = Inr (Some r) \<Longrightarrow> ok r"
  by (auto simp: coerce_float_def dest: in_range_ok split: if_splits)

lemma coerce_at_least_ok: "coerce_at_least low v = Inr (Some n) \<Longrightarrow> low \<le> n"
  by (auto simp: coerce_at_least_def split: pyval.splits option.splits if_splits)

lemma max_new_tokens_ok: "decode_max_new_tokens cfg params = Inr n \<Longrightarrow>
    0 < n \<and> (\<forall>c cap. cfg = Some c \<and> generate_max_output_tokens c = Some cap \<longrightarrow> n \<le> cap)"
  by (auto simp: decode_max_new_tokens_def Let_def split: pyval.splits option.splits if_splits)

definition option_all :: "('a \<Rightarrow> bool) \<Rightarrow> 'a option \<Rightarrow> bool" where
  "option_all P x = (case x of None \<Rightarrow> True | Some v \<Rightarrow> P v)"

definition sampling_ok :: "model_config option \<Rightarrow> generate_request \<Rightarrow> bool" where
  "sampling_ok cfg q =
     (0 < rq_max_new_tokens q \<and>
      (\<forall>c cap. cfg = Some c \<and> generate_max_output_tokens c = Some cap \<longrightarrow> rq_max_new_tokens q \<le> cap) \<and>
      0 \<le> rq_temperature q \<and> 0 < rq_top_p q \<and> rq_top_p q \<le> 1 \<and>
      option_all (\<lambda>r. - 2 \<le> r \<and> r \<le> 2) (rq_frequency_penalty q) \<and>
      option_all (\<lambda>r. - 2 \<le> r \<and> r \<le> 2) (rq_presence_penalty q) \<and>
      option_all (\<lambda>k. 1 \<le> k) (rq_top_k q) \<and> option_all (\<lambda>r. 0 < r \<and> r \<le> 2) (rq_repetition_penalty q) \<and>
      option_all (\<lambda>k. 0 \<le> k) (rq_min_tokens q) \<and>
      option_all (\<lambda>k. - (2 ^ 63) \<le> k \<and> k \<le> 2 ^ 63 - 1) (rq_seed q) \<and>
      option_all (\<lambda>ts. ts \<noteq> []) (rq_tools q) \<and> option_all (\<lambda>ss. ss \<noteq> []) (rq_stop q))"

lemma seed_ok: "decode_seed params = Some n \<Longrightarrow> - (2 ^ 63) \<le> n \<and> n \<le> 2 ^ 63 - 1"
  by (auto simp: decode_seed_def split: pyval.splits if_splits)

lemma stop_ok: "decode_stop params = Inr (Some ss) \<Longrightarrow> ss \<noteq> []"
  by (auto simp: decode_stop_def or_none_def split: pyval.splits if_splits)

lemma tools_ok: "decode_tools params = Inr (Some ts) \<Longrightarrow> ts \<noteq> []"
  unfolding decode_tools_def
  by (cases "py_get params ''tools''"; simp split: if_splits)
    (auto simp: List.map_filter_def neq_Nil_conv split: pyval.splits)

lemma decode_request_fields:
  assumes "decode_request cd cfg options params = Inr q"
  shows "decode_max_new_tokens cfg params = Inr (rq_max_new_tokens q) \<and> decode_input cd params = Inr (rq_input q) \<and>
    decode_temperature params = Inr (rq_temperature q) \<and> decode_top_p params = Inr (rq_top_p q) \<and>
    decode_stop params = Inr (rq_stop q) \<and> decode_grammar cd params = Inr (rq_grammar q) \<and>
    coerce_penalty params ''frequency_penalty'' = Inr (rq_frequency_penalty q) \<and>
    coerce_penalty params ''presence_penalty'' = Inr (rq_presence_penalty q) \<and>
    decode_top_k params = Inr (rq_top_k q) \<and> decode_repetition_penalty params = Inr (rq_repetition_penalty q) \<and>
    decode_min_tokens params = Inr (rq_min_tokens q) \<and> decode_seed params = rq_seed q \<and>
    decode_lora cd cfg options params = Inr (rq_lora_adapter q) \<and> decode_tools params = Inr (rq_tools q)"
  using assms unfolding decode_request_def and_then_result by (elim exE conjE) (simp; hypsubst?; clarsimp)

lemma decode_request_ok:
  assumes "decode_request cd cfg options params = Inr q"
  shows "sampling_ok cfg q"
proof -
  note f = decode_request_fields [OF assms]
  have "0 \<le> rq_temperature q" "0 < rq_top_p q \<and> rq_top_p q \<le> 1"
    using f decode_number_ok [of _ "\<lambda>r. r \<ge> 0"] decode_number_ok [of _ "\<lambda>r. 0 < r \<and> r \<le> 1"]
    unfolding decode_temperature_def decode_top_p_def by blast+
  moreover have "option_all (\<lambda>r. - 2 \<le> r \<and> r \<le> 2) (coerced q)"
    if "coerce_penalty params name = Inr (coerced q)" for coerced :: "generate_request \<Rightarrow> real option" and name
    using that by (auto simp: option_all_def coerce_penalty_def dest: coerce_float_ok split: option.splits)
  moreover have "option_all (\<lambda>r. 0 < r \<and> r \<le> 2) (rq_repetition_penalty q)"
    using f by (auto simp: option_all_def decode_repetition_penalty_def dest: coerce_float_ok split: option.splits)
  moreover have "option_all (\<lambda>k. 1 \<le> k) (rq_top_k q)" "option_all (\<lambda>k. 0 \<le> k) (rq_min_tokens q)"
    using f by (auto simp: option_all_def decode_top_k_def decode_min_tokens_def dest: coerce_at_least_ok split: option.splits)
  moreover have "option_all (\<lambda>k. - (2 ^ 63) \<le> k \<and> k \<le> 2 ^ 63 - 1) (rq_seed q)"
    unfolding option_all_def using f seed_ok [of params] by (cases "rq_seed q") simp_all
  moreover have "option_all (\<lambda>ts. ts \<noteq> []) (rq_tools q)" "option_all (\<lambda>ss. ss \<noteq> []) (rq_stop q)"
    unfolding option_all_def using f tools_ok [of params] stop_ok [of params]
    by (cases "rq_tools q"; cases "rq_stop q"; simp)+
  ultimately show ?thesis
    unfolding sampling_ok_def using f max_new_tokens_ok [of cfg params "rq_max_new_tokens q"] by blast
qed

subsection \<open>Media\<close>

definition message_images :: "chat_message \<Rightarrow> media list" where
  "message_images m = (case cm_images m of None \<Rightarrow> [] | Some xs \<Rightarrow> xs)"

definition message_videos :: "chat_message \<Rightarrow> media list" where
  "message_videos m = (case cm_videos m of None \<Rightarrow> [] | Some xs \<Rightarrow> xs)"

definition message_ok :: "chat_message \<Rightarrow> bool" where
  "message_ok m =
     (cm_role m \<in> set allowed_chat_roles \<and> list_all image_ok (message_images m) \<and> list_all video_ok (message_videos m) \<and>
      (case cm_content_parts m of
         None \<Rightarrow> message_videos m = []
       | Some ps \<Rightarrow> image_markers ps = length (message_images m) \<and> video_markers ps = length (message_videos m)))"

lemma or_none_list [simp]: "(case or_none xs of None \<Rightarrow> [] | Some ys \<Rightarrow> ys) = xs"
  by (simp add: or_none_def)

lemma reconcile_ok: "reconcile idx layout images videos = Inr u \<Longrightarrow>
    (case layout of None \<Rightarrow> videos = []
     | Some ps \<Rightarrow> image_markers ps = length images \<and> video_markers ps = length videos)"
  by (auto simp: reconcile_def Let_def split: option.splits if_splits)

lemma decode_message_ok:
  assumes "decode_message cd idx item ti tv = Inr (m, ti', tv')"
  shows "message_ok m \<and> ti' = ti + length (message_images m) \<and> ti' \<le> max_images_per_request \<and>
    tv' = tv + length (message_videos m) \<and> tv' \<le> max_videos_per_request"
proof -
  obtain d where item: "item = PDict d" using assms by (cases item) (auto simp: decode_message_def)
  obtain role where role: "py_get d ''role'' = PStr role" "role \<in> set allowed_chat_roles"
    using assms unfolding item decode_message_def
    by (cases "py_get d ''role''") (auto simp: bad_role_def split: if_splits)
  let ?tc = "case py_get d ''tool_calls'' of PList ts \<Rightarrow> or_none ts | _ \<Rightarrow> None"
  let ?content = "if py_get d ''content'' = PNone \<and> role = ''assistant'' \<and> ?tc \<noteq> None then PStr [] else py_get d ''content''"
  obtain body cis cl fis fps vs lay where st: "parse_chat_content cd ?content idx = Inr (body, cis, cl)"
    "parse_message_images_field cd (py_get d ''images'') idx = Inr fis"
    "parse_message_videos_field cd (py_get d ''videos'') idx = Inr vs"
    "reconcile idx lay (cis @ fis) vs = Inr ()"
    "ti + length (cis @ fis) \<le> max_images_per_request" "tv + length vs \<le> max_videos_per_request"
    "cm_role m = role" "cm_images m = or_none (cis @ fis)" "cm_content_parts m = lay" "cm_videos m = or_none vs"
    "ti' = ti + length (cis @ fis)" "tv' = tv + length vs"
    using assms role unfolding item decode_message_def
    by (simp add: Let_def split: prod.splits if_splits) (elim exE conjE, auto split: if_splits)
  have "message_images m = cis @ fis" "message_videos m = vs"
    by (simp_all add: message_images_def message_videos_def st)
  then show ?thesis
    using st role chat_content_ok [OF st(1)] images_field_ok [OF st(2)] videos_field_ok [OF st(3)] reconcile_ok [OF st(4)]
    by (auto simp: message_ok_def list_all_iff split: option.splits)
qed

lemma decode_messages_ok:
  "decode_messages cd idx items ti tv = Inr ms \<Longrightarrow> ti \<le> max_images_per_request \<Longrightarrow> tv \<le> max_videos_per_request \<Longrightarrow>
     list_all message_ok ms \<and> length ms = length items \<and>
     ti + (\<Sum>m\<leftarrow>ms. length (message_images m)) \<le> max_images_per_request \<and>
     tv + (\<Sum>m\<leftarrow>ms. length (message_videos m)) \<le> max_videos_per_request"
proof (induction cd idx items ti tv arbitrary: ms rule: decode_messages.induct)
  case (2 cd idx item items ti tv)
  then obtain m ti' tv' ms' where m: "decode_message cd idx item ti tv = Inr (m, ti', tv')"
    "decode_messages cd (Suc idx) items ti' tv' = Inr ms'" "ms = m # ms'"
    by (auto split: prod.splits)
  note ok = decode_message_ok [OF m(1)]
  show ?case using 2(1) [OF m(1) refl refl m(2)] ok m(3) by auto
qed simp

subsection \<open>Exceptions\<close>

definition raises :: "'a checked \<Rightarrow> bool" where
  "raises m = (case m of Inl (Raised _) \<Rightarrow> True | _ \<Rightarrow> False)"

lemma raises_simps [simp]: "\<not> raises (Inr x)" "\<not> raises (invalid t)" "\<not> raises (Inl (Invalid c t))" "raises (Inl (Raised e))"
  by (simp_all add: raises_def invalid_def)

lemma raises_and_then: "raises (and_then m f) \<longleftrightarrow> raises m \<or> (\<exists>x. m = Inr x \<and> raises (f x))"
  by (cases m) (auto simp: raises_def)

lemma quiet_and_then: "\<not> raises m \<Longrightarrow> (\<And>x. m = Inr x \<Longrightarrow> \<not> raises (f x)) \<Longrightarrow> \<not> raises (and_then m f)"
  by (auto simp: raises_and_then)

text \<open>Values that \<^verbatim>\<open>int\<close> and \<^verbatim>\<open>float\<close> convert or refuse without \<^verbatim>\<open>OverflowError\<close>.\<close>

definition int_safe :: "pyval \<Rightarrow> bool" where
  "int_safe v = (case v of PFloat (Infinite _) \<Rightarrow> False | _ \<Rightarrow> True)"

definition float_safe :: "pyval \<Rightarrow> bool" where
  "float_safe v = (case v of PInt n \<Rightarrow> \<bar>n\<bar> < float_overflow | _ \<Rightarrow> True)"

lemma caught_int: "int_safe v \<Longrightarrow> \<not> raises (caught (py_int v))"
  by (auto simp: int_safe_def py_int_def caught_def text_to_int_def split: pyval.splits py_float.splits option.splits)

lemma caught_float: "float_safe v \<Longrightarrow> \<not> raises (caught (py_to_float v))"
  by (auto simp: float_safe_def py_to_float_def caught_def text_to_float_def split: pyval.splits option.splits)

lemma coerce_quiet:
  "float_safe v \<Longrightarrow> \<not> raises (coerce_float ok v)" "int_safe v \<Longrightarrow> \<not> raises (coerce_at_least low v)"
  "int_safe v \<Longrightarrow> \<not> raises (coerce_int v)" "float_safe v \<Longrightarrow> \<not> raises (decode_number msg ok v)"
  using caught_float [of v] caught_int [of v]
  by (auto simp: coerce_float_def coerce_at_least_def coerce_int_def decode_number_def raises_and_then py_to_float_def
      float_safe_def split: pyval.splits py_float.splits)

lemma clean_bias_quiet: "list_all (\<lambda>(_, v). float_safe v) d \<Longrightarrow> \<not> raises (clean_bias d)"
  by (induction d rule: clean_bias.induct) (auto simp: raises_and_then caught_float)

text \<open>Content whose parts have types that can be hashed.\<close>

definition content_safe :: "pyval \<Rightarrow> bool" where
  "content_safe v =
     (case v of
        PDict m \<Rightarrow> (case py_get m ''content'' of
            PList parts \<Rightarrow> list_all (\<lambda>q. case q of PDict e \<Rightarrow> \<not> unhashable (py_get e ''type'') | _ \<Rightarrow> True) parts
          | _ \<Rightarrow> True)
      | _ \<Rightarrow> True)"

lemma check_all_quiet: "(\<And>i x. x \<in> set xs \<Longrightarrow> \<not> raises (f i x)) \<Longrightarrow> \<not> raises (check_all f j xs)"
  by (induction xs arbitrary: j) (auto simp: raises_and_then)

lemma image_part_quiet:
  "\<not> raises (case v of
     PStr url \<Rightarrow> if url = [] then invalid m
       else (case decode_data_uri_image cd url of Inl exc \<Rightarrow> invalid (n exc) | Inr i \<Rightarrow> Inr (Content_image i))
   | _ \<Rightarrow> invalid m)"
  by (cases v) (simp_all split: sum.split)

lemma text_part_quiet: "\<not> raises (case v of PStr t \<Rightarrow> Inr (Content_text t) | _ \<Rightarrow> invalid m)"
  by (cases v) simp_all

lemma content_part_quiet:
  assumes "case q of PDict e \<Rightarrow> \<not> unhashable (py_get e ''type'') | _ \<Rightarrow> True"
  shows "\<not> raises (parse_content_part cd idx i q)"
proof (cases q)
  case (PDict e)
  with assms show ?thesis
    by (simp only: parse_content_part_def Let_def pyval.case)
      (simp add: image_part_quiet text_part_quiet)
qed (simp_all add: parse_content_part_def)

lemma image_bytes_quiet: "\<not> raises (check_image_bytes path d)"
  by (simp add: check_image_bytes_def)

lemma image_entry_quiet: "\<not> raises (parse_image_entry cd idx i v)"
proof (cases v)
  case (PDict e)
  show ?thesis unfolding PDict
    by (cases "py_get e ''data''") (simp_all add: parse_image_entry_def Let_def raises_and_then image_bytes_quiet split: sum.split)
qed (simp_all add: parse_image_entry_def)

lemma video_entry_quiet: "\<not> raises (parse_video_entry cd idx i v)"
proof (cases v)
  case (PDict e)
  show ?thesis unfolding PDict
    by (cases "py_get e ''data''") (simp_all add: parse_video_entry_def Let_def raises_and_then split: sum.split option.split)
qed (simp_all add: parse_video_entry_def)

lemma layout_entry_quiet: "\<not> raises (parse_layout_entry cd idx i v)"
proof (cases v)
  case (PDict e)
  show ?thesis unfolding PDict
    by (cases "py_get e ''text''") (simp_all add: parse_layout_entry_def Let_def)
qed (simp_all add: parse_layout_entry_def)

lemmas entry_quiet = image_entry_quiet video_entry_quiet layout_entry_quiet

lemma media_quiet: "\<not> raises (parse_message_images_field cd v idx)" "\<not> raises (parse_message_videos_field cd v idx)"
  "\<not> raises (parse_content_parts_field cd v idx)"
  by (auto simp: parse_message_images_field_def parse_message_videos_field_def parse_content_parts_field_def
      raises_and_then entry_quiet intro!: check_all_quiet split: pyval.splits dest: check_all_quiet)

lemma chat_content_quiet:
  assumes "case v of PList parts \<Rightarrow> list_all (\<lambda>q. case q of PDict e \<Rightarrow> \<not> unhashable (py_get e ''type'') | _ \<Rightarrow> True) parts | _ \<Rightarrow> True"
  shows "\<not> raises (parse_chat_content cd v idx)"
proof (cases v)
  case (PList parts)
  with assms have "\<not> raises (check_all (parse_content_part cd idx) 0 parts)"
    by (intro check_all_quiet content_part_quiet) (simp add: list_all_iff)
  with PList show ?thesis by (simp add: parse_chat_content_def raises_and_then)
qed (simp_all add: parse_chat_content_def)

lemma layout_quiet: "\<not> raises (choose_layout idx fp cl)" "\<not> raises (reconcile idx lay ims vs)"
  by (auto simp: choose_layout_def reconcile_def Let_def split: option.splits)

lemma decode_message_quiet:
  assumes "content_safe item"
  shows "\<not> raises (decode_message cd idx item ti tv)"
proof (cases item)
  case (PDict d)
  have "\<not> raises (parse_chat_content cd (if c then PStr [] else py_get d ''content'') idx)" for c
    using assms PDict by (intro chat_content_quiet) (simp add: content_safe_def)
  then show ?thesis
    unfolding PDict decode_message_def
    by (auto simp: Let_def bad_role_def raises_and_then media_quiet layout_quiet split: pyval.splits)
qed (simp_all add: decode_message_def)

lemma decode_messages_quiet: "list_all content_safe items \<Longrightarrow> \<not> raises (decode_messages cd idx items ti tv)"
  by (induction cd idx items ti tv rule: decode_messages.induct)
    (auto simp: raises_and_then decode_message_quiet split: prod.splits)

text \<open>Parameters on which no conversion overflows and no type of a content part is unhashable.\<close>

definition params_safe :: "pydict \<Rightarrow> bool" where
  "params_safe params =
     (list_all (\<lambda>k. int_safe (py_get params k)) [''top_k'', ''min_tokens'', ''top_logprobs'', ''n'', ''best_of''] \<and>
      list_all (\<lambda>k. float_safe (py_get params k))
        [''temperature'', ''top_p'', ''frequency_penalty'', ''presence_penalty'', ''repetition_penalty''] \<and>
      (case py_get params ''logit_bias'' of PDict d \<Rightarrow> list_all (\<lambda>(_, v). float_safe v) d | _ \<Rightarrow> True) \<and>
      (case py_get params ''messages'' of PList items \<Rightarrow> list_all content_safe items | _ \<Rightarrow> True))"

lemma input_quiet: "params_safe params \<Longrightarrow> \<not> raises (decode_input cd params)"
  by (auto simp: decode_input_def params_safe_def raises_and_then decode_messages_quiet split: pyval.splits)

lemma default_float_safe: "float_safe (py_get params k) \<Longrightarrow> float_safe (py_get_or params k (PFloat x))"
  by (simp add: py_get_or_def py_get_def float_safe_def split: option.splits)

lemma numbers_quiet:
  assumes "params_safe params"
  shows "\<not> raises (decode_temperature params)" "\<not> raises (decode_top_p params)"
    "\<not> raises (coerce_penalty params ''frequency_penalty'')" "\<not> raises (coerce_penalty params ''presence_penalty'')"
    "\<not> raises (decode_repetition_penalty params)" "\<not> raises (decode_top_k params)" "\<not> raises (decode_min_tokens params)"
    "\<not> raises (coerce_int (py_get params ''top_logprobs''))" "\<not> raises (coerce_int (py_get params ''n''))"
    "\<not> raises (coerce_int (py_get params ''best_of''))"
  using assms by (simp_all add: params_safe_def decode_temperature_def decode_top_p_def coerce_penalty_def
      decode_repetition_penalty_def decode_top_k_def decode_min_tokens_def coerce_quiet default_float_safe)

lemma bias_quiet: "params_safe params \<Longrightarrow> \<not> raises (decode_logit_bias params)"
  by (auto simp: params_safe_def decode_logit_bias_def raises_and_then clean_bias_quiet split: pyval.splits)

lemma refused_quiet: "(\<And>e. m = Inl e \<Longrightarrow> \<exists>t. e = ValueError t) \<Longrightarrow> \<not> raises (refused m)"
  by (cases m) (force simp: refused_def)+

lemma guardian_error: "check_guardian_config v = Inl e \<Longrightarrow> \<exists>t. e = ValueError t"
  by (cases v) (auto simp: check_guardian_config_def Let_def split: if_splits)

lemma template_kwargs_error: "validate_chat_template_kwargs d = Inl e \<Longrightarrow> \<exists>t. e = ValueError t"
  by (auto simp: validate_chat_template_kwargs_def Let_def and_then_def dest: guardian_error split: if_splits sum.splits)

lemma max_tokens_quiet: "\<not> raises (decode_max_new_tokens cfg params)"
  by (cases "py_get params ''max_new_tokens''") (simp_all add: decode_max_new_tokens_def Let_def split: option.split)

lemma stop_quiet: "\<not> raises (decode_stop params)"
  by (cases "py_get params ''stop''") (simp_all add: decode_stop_def)

lemma grammar_quiet: "\<not> raises (decode_grammar cd params)"
  by (cases "py_get params ''grammar''") (simp_all add: decode_grammar_def Let_def split: option.split)

lemma template_kwargs_quiet: "\<not> raises (decode_chat_template_kwargs params)"
  by (cases "py_get params ''chat_template_kwargs''")
    (simp_all add: decode_chat_template_kwargs_def raises_and_then refused_quiet [OF template_kwargs_error])

lemma flag_quiet: "\<not> raises (decode_flag params k)"
  by (cases "py_get params k") (simp_all add: decode_flag_def)

lemma schema_quiet: "\<not> raises (decode_schema_in_prompt cd cfg params)"
  by (simp add: decode_schema_in_prompt_def raises_and_then flag_quiet)

lemma tools_quiet: "\<not> raises (decode_tools params)"
  by (cases "py_get params ''tools''") (simp_all add: decode_tools_def)

lemma tool_choice_quiet: "\<not> raises (decode_tool_choice params)"
  by (cases "py_get params ''tool_choice''") (simp_all add: decode_tool_choice_def)

lemmas shapes_quiet = max_tokens_quiet stop_quiet grammar_quiet template_kwargs_quiet flag_quiet schema_quiet tools_quiet
  tool_choice_quiet

lemma lora_quiet:
  assumes "\<And>c. cfg = Some c \<Longrightarrow> \<exists>r. lora_profile cd c options = Inr r"
  shows "\<not> raises (decode_lora cd cfg options params)"
proof (cases cfg)
  case (Some c)
  with assms obtain r where "lora_profile cd c options = Inr r" by blast
  with Some show ?thesis by (cases "py_get params ''lora_adapter''") (simp_all add: decode_lora_def)
qed (cases "py_get params ''lora_adapter''"; simp add: decode_lora_def)

lemma decode_request_quiet:
  assumes "params_safe params" and "\<And>c. cfg = Some c \<Longrightarrow> \<exists>r. lora_profile cd c options = Inr r"
  shows "\<not> raises (decode_request cd cfg options params)"
  unfolding decode_request_def
  by (intro quiet_and_then)
    (simp_all add: shapes_quiet lora_quiet [OF assms(2)] numbers_quiet [OF assms(1)] bias_quiet [OF assms(1)] input_quiet [OF assms(1)])

text \<open>The defaults of the profile and of the request keep the parameters safe: what is filled in was checked.\<close>

lemma valid_sampling_safe: "valid_sampling k v \<Longrightarrow> float_safe v \<and> int_safe v"
  by (auto simp: valid_sampling_def is_finite_number_def float_safe_def int_safe_def float_overflow_def
      split: pyval.splits py_float.splits if_splits)

lemma fill_value_safe:
  "fill_value cap named src v = Inr w \<Longrightarrow> valid_sampling src v \<Longrightarrow> w = v \<or> int_safe w \<and> src = ''min_new_tokens''"
  by (auto simp: fill_value_def int_safe_def split: option.splits pyval.splits if_splits)

lemma params_safe_set:
  assumes "params_safe params" and "t \<in> {''top_k'', ''min_tokens''} \<Longrightarrow> int_safe w"
    and "t \<in> {''temperature'', ''top_p'', ''frequency_penalty'', ''presence_penalty''} \<Longrightarrow> float_safe w"
    and "t \<in> insert ''stop'' (snd ` set generation_sampling_keys)"
  shows "params_safe (od_set t w params)"
  using assms by (auto simp: params_safe_def py_get_od_set generation_sampling_keys_def)

lemma fill_sampling_safe:
  assumes "fill_sampling cap rs smp keys res = Inr res'" and "params_safe res" and "set keys \<subseteq> set generation_sampling_keys"
    and "\<forall>(k, v) \<in> set smp. valid_sampling k v"
  shows "params_safe res'"
  using assms
proof (induction cap rs smp keys res rule: fill_sampling.induct)
  case (2 cap rs smp src t keys res)
  have key: "(src, t) \<in> set generation_sampling_keys" and keys: "set keys \<subseteq> set generation_sampling_keys" using 2(6) by auto
  show ?case
  proof (cases "\<exists>v. map_of smp src = Some v \<and> py_get res t = PNone")
    case True
    then obtain v w where w: "map_of smp src = Some v" "py_get res t = PNone"
      "fill_value cap (case rs of PDict d \<Rightarrow> od_mem src d | _ \<Rightarrow> False) src v = Inr w"
      "fill_sampling cap rs smp keys (od_set t w res) = Inr res'" using 2(4) by auto
    have "valid_sampling src v" using w(1) 2(7) by (auto dest: map_of_SomeD)
    with fill_value_safe [OF w(3)] valid_sampling_safe have "int_safe w" "float_safe w \<or> src = ''min_new_tokens''" by blast+
    then have "params_safe (od_set t w res)"
      using key by (intro params_safe_set [OF 2(5)]) (auto simp: generation_sampling_keys_def)
    with 2(2) [OF w] keys 2(7) show ?thesis by blast
  next
    case False
    with 2 keys show ?thesis by (auto split: option.splits if_splits)
  qed
qed simp

lemma request_profile:
  "check_request_options cd opts = Inr () \<Longrightarrow> py_get opts ''profile'' \<in> {PNone, PStr ''default''}"
  by (auto simp: check_request_options_def Let_def split: pyval.splits if_splits)

lemma apply_lora_profile:
  assumes "apply_generation_runtime_options cd c options params = Inr res"
  shows "\<exists>r. lora_profile cd c options = Inr r"
proof -
  obtain opts r where o: "options = PNone \<and> opts = [] \<or> options = PDict opts" "fst (resolve_profile cd c ''default'') = Inr r"
    by (rule apply_stages [OF assms])
  have "py_get opts ''profile'' \<in> {PNone, PStr ''default''}"
  proof (cases "opts = []")
    case False
    with assms o(1) have "check_request_options cd opts = Inr ()" by (auto simp: apply_generation_runtime_options_def)
    then show ?thesis by (rule request_profile)
  qed (simp add: py_get_def)
  with o show ?thesis by (auto simp: lora_profile_def)
qed

lemma check_sampling_valid: "check_sampling cd smp = Inr () \<Longrightarrow> \<forall>(k, v) \<in> set smp. valid_sampling k v"
  by (auto simp: check_sampling_def Let_def find_None_iff split: if_splits option.splits)

lemma apply_safe:
  assumes "apply_generation_runtime_options cd c options params = Inr res" and "params_safe params"
  shows "params_safe res"
proof -
  obtain opts rs rt res1 where s: "apply_sampling cd rs rt params = Inr res1" "merge_stop (py_get rt ''stop_tokens'') res1 = Inr res"
    by (rule apply_stages [OF assms(1)])
  have "params_safe res1"
  proof (cases "py_get rt ''default_sampling''")
    case (PDict smp)
    then have "check_sampling cd smp = Inr ()" and
      f: "fill_sampling (integer_max params) rs smp generation_sampling_keys params = Inr res1"
      using s(1) by (auto simp: apply_sampling_def)
    with fill_sampling_safe [OF f assms(2)] check_sampling_valid show ?thesis by blast
  qed (use s(1) assms(2) in \<open>simp_all add: apply_sampling_def\<close>)
  moreover have "res = res1 \<or> (\<exists>w. res = od_set ''stop'' w res1)"
    using s(2) by (auto simp: merge_stop_def split: pyval.splits if_splits)
  ultimately show ?thesis by (auto intro!: params_safe_set)
qed

section \<open>Properties\<close>

lemma validate_decodes:
  assumes "validate_generate_params cd cfg wi = Inr q"
  obtains params where "resolved_params cd cfg wi = Inr params" "decode_request cd cfg (wi_options wi) params = Inr q"
  using assms by (auto simp: validate_generate_params_def)

lemma grammar_shape:
  assumes "decode_grammar cd params = Inr (Some g)"
  shows "case grammar_kind g of GK_json_schema \<Rightarrow> (\<exists>d. grammar_value g = PDict d)
    | GK_regex \<Rightarrow> (\<exists>t. grammar_value g = PStr t) | GK_ebnf \<Rightarrow> grammar_strict g \<noteq> Some True"
proof -
  obtain e where e: "py_get params ''grammar'' = PDict e"
    using assms by (cases "py_get params ''grammar''") (simp_all add: decode_grammar_def)
  obtain k where "decode_kind (py_get e ''kind'') = Some k"
    using assms e by (cases "decode_kind (py_get e ''kind'')") (simp_all add: decode_grammar_def Let_def)
  with assms e show ?thesis
    by (cases k; cases "py_get e ''value''") (auto simp: decode_grammar_def Let_def split: if_splits pyval.splits)
qed

text \<open>
  C16. Every accepted request has sampling parameters in range: a positive token maximum within the model's cap,
  temperature, top-p, penalties, top-k, minimum and seed within their bounds, and no empty list of tools or stops. The fields
  \<^verbatim>\<open>logit_bias\<close>, \<^verbatim>\<open>n\<close>, \<^verbatim>\<open>best_of\<close> and \<^verbatim>\<open>top_logprobs\<close> are not among them: the validator converts them and sets no bounds.
\<close>

theorem accepted_request_bounded:
  assumes "validate_generate_params cd cfg wi = Inr q"
  shows "sampling_ok cfg q"
  using assms by (rule validate_decodes) (rule decode_request_ok)

text \<open>
  C14. The media of an accepted chat request are bounded and aligned: at most 16 images and one clip in all, each within its
  size limit and each clip in the container its bytes show, and a layout has one placeholder for each image and clip.
\<close>

theorem accepted_media_aligned:
  assumes "validate_generate_params cd cfg wi = Inr q" and "rq_input q = Messages_input ms"
  shows "ms \<noteq> [] \<and> list_all message_ok ms \<and> (\<Sum>m\<leftarrow>ms. length (message_images m)) \<le> 16 \<and>
    (\<Sum>m\<leftarrow>ms. length (message_videos m)) \<le> 1"
proof -
  obtain params where "decode_request cd cfg (wi_options wi) params = Inr q" using assms(1) by (rule validate_decodes)
  then have "decode_input cd params = Inr (Messages_input ms)" using decode_request_fields assms(2) by metis
  then obtain items where "items \<noteq> []" "decode_messages cd 0 items 0 0 = Inr ms"
    by (auto simp: decode_input_def split: if_splits pyval.splits)
  with decode_messages_ok [OF this(2)] show ?thesis
    by (auto simp: max_images_per_request_def max_videos_per_request_def)
qed

text \<open>
  C18. A strict grammar that passes validation is one the output verifier checks: it requires validation of the output, and its
  value is the object or the text that the verifier of its kind expects.
\<close>

theorem accepted_strict_grammar_verifiable:
  assumes "validate_generate_params cd cfg wi = Inr q" and "rq_grammar q = Some g" and "grammar_strict g = Some True"
  shows "requires_output_validation (rq_grammar q) \<and>
    (grammar_kind g = GK_json_schema \<and> (\<exists>d. grammar_value g = PDict d) \<or>
     grammar_kind g = GK_regex \<and> (\<exists>t. grammar_value g = PStr t))"
proof -
  obtain params where "decode_request cd cfg (wi_options wi) params = Inr q" using assms(1) by (rule validate_decodes)
  then have "decode_grammar cd params = Inr (Some g)" using decode_request_fields assms(2) by metis
  from grammar_shape [OF this] assms(2,3) show ?thesis
    by (cases "grammar_kind g") (auto simp: requires_output_validation_def verifiable_grammar_kinds_def)
qed

text \<open>
  The minimum the engine gets is at most its maximum: for an accepted request of a configured model whose typed
  \<^verbatim>\<open>max_new_tokens\<close> is an integer and whose \<^verbatim>\<open>min_tokens\<close> is an integer or absent.
\<close>

theorem accepted_min_within_max:
  assumes "validate_generate_params cd (Some c) wi = Inr q" and "extract_generate_params wi = Some params"
    and "py_get params ''max_new_tokens'' = PInt m"
    and "py_get params ''min_tokens'' = PNone \<or> (\<exists>k. py_get params ''min_tokens'' = PInt k)" and "rq_min_tokens q = Some n"
  shows "n \<le> rq_max_new_tokens q"
proof -
  obtain res where res: "resolved_params cd (Some c) wi = Inr res" "decode_request cd (Some c) (wi_options wi) res = Inr q"
    using assms(1) by (rule validate_decodes)
  have ap: "apply_generation_runtime_options cd c (wi_options wi) params = Inr res"
    using res(1) assms(2) by (auto simp: resolved_params_def refused_def split: if_splits sum.splits py_error.splits)
  have shape: "py_get res ''min_tokens'' = PNone \<or> (\<exists>k. py_get res ''min_tokens'' = PInt k)"
    using assms(4) filled_min_shape [OF ap] typed_fields_kept [OF ap, of "''min_tokens''"] by fastforce
  have "decode_min_tokens res = Inr (Some n)" "decode_max_new_tokens (Some c) res = Inr (rq_max_new_tokens q)"
    using decode_request_fields [OF res(2)] assms(5) by auto
  then have "py_get res ''min_tokens'' = PInt n"
    using shape by (auto simp: decode_min_tokens_def coerce_at_least_def caught_def py_int_def split: if_splits)
  from min_within_max [OF ap assms(3) this] \<open>decode_max_new_tokens (Some c) res = _\<close> show ?thesis
    by (auto simp: decode_max_new_tokens_def Let_def split: option.splits if_splits)
qed

text \<open>
  C25. Validation answers every request whose numbers convert and whose content types can be hashed, under every configuration whose
  profiles passed their own check, or none: it accepts the request or returns a validation error. No exception escapes, neither from the
  runtime options nor from the lookup of the LoRA's profile, which is outside the handler.
\<close>

theorem validator_contained:
  assumes "extract_generate_params wi = Some params" and "params_safe params" and "\<forall>c. cfg = Some c \<longrightarrow> parents_checked c"
  shows "\<not> raises (validate_generate_params cd cfg wi)"
proof (cases cfg)
  case None
  then show ?thesis unfolding validate_generate_params_def
    using assms(1) decode_request_quiet [OF assms(2), of None] by (auto simp: raises_and_then resolved_params_def split: pyval.splits)
next
  case (Some c)
  have "\<not> raises (refused (apply_generation_runtime_options cd c (wi_options wi) params))"
    using assms(3) Some apply_errors [of c cd "wi_options wi" params]
    by (intro refused_quiet) (auto simp: value_errors_def split: py_error.splits)
  then have "\<not> raises (resolved_params cd cfg wi)" using assms(1) Some by (auto simp: resolved_params_def)
  moreover have "\<not> raises (decode_request cd cfg (wi_options wi) res)" if "resolved_params cd cfg wi = Inr res" for res
  proof -
    have "apply_generation_runtime_options cd c (wi_options wi) params = Inr res"
      using that assms(1) Some by (auto simp: resolved_params_def refused_def invalid_def split: if_splits sum.splits py_error.splits)
    from apply_safe [OF this assms(2)] apply_lora_profile [OF this] Some show ?thesis by (intro decode_request_quiet) auto
  qed
  ultimately show ?thesis unfolding validate_generate_params_def by (rule quiet_and_then)
qed

text \<open>
  An infinite \<^verbatim>\<open>top_k\<close> is not dropped like other malformed values: the conversion raises \<^verbatim>\<open>OverflowError\<close>, which the
  handler does not name, and the exception leaves the validator.
\<close>

theorem infinite_top_k_escapes:
  assumes "p \<noteq> []" and "0 < n"
  shows "validate_generate_params cd None
    \<lparr>wi_generate = PDict [(''prompt'', PStr p), (''max_new_tokens'', PInt n), (''top_k'', PFloat (Infinite 1))],
     wi_options = PNone\<rparr> = Inl (Raised OverflowError)"
  using assms by (simp add: validate_generate_params_def resolved_params_def extract_generate_params_def decode_request_def
      decode_max_new_tokens_def decode_input_def od_mem_def od_keys_def py_get_def py_get_or_def Let_def decode_temperature_def
      decode_top_p_def decode_number_def decode_stop_def decode_grammar_def coerce_penalty_def coerce_float_def
      decode_top_k_def coerce_at_least_def py_int_def caught_def)

text \<open>
  A content part whose type is a list or an object is not answered with a validation error: the membership test hashes the
  type, and \<^verbatim>\<open>TypeError\<close> leaves the parser.
\<close>

theorem unhashable_part_type_escapes:
  assumes "unhashable (py_get e ''type'')"
  shows "parse_chat_content cd (PList (PDict e # parts)) idx = Inl (Raised TypeError)"
proof -
  have "py_get e ''type'' \<notin> PStr ` A" for A using assms by (auto simp: unhashable_def)
  then have "parse_content_part cd idx 0 (PDict e) = Inl (Raised TypeError)"
    using assms by (auto simp: parse_content_part_def unhashable_def split: pyval.splits)
  then show ?thesis by (simp add: parse_chat_content_def)
qed

section \<open>Requests\<close>

definition demo_work :: work_item where
  "demo_work = \<lparr>wi_generate = PDict demo_params, wi_options = PNone\<rparr>"

definition demo_parts :: "pyval list" where
  "demo_parts = [PDict [(''type'', PStr ''text''), (''text'', PStr ''see'')],
     PDict [(''type'', PStr ''image_url''), (''image_url'', PStr ''data:image/png;base64,QUJD'')]]"

definition demo_chat_params :: pydict where
  "demo_chat_params = [(''max_new_tokens'', PInt 4),
     (''messages'', PList [PDict [(''role'', PStr ''user''), (''content'', PList demo_parts)]])]"

definition demo_chat :: work_item where
  "demo_chat = \<lparr>wi_generate = PDict demo_chat_params, wi_options = PNone\<rparr>"

text \<open>The fields of the two requests, one by one.\<close>

lemma demo_result_list:
  "demo_result = [(''prompt'', PStr ''hi''), (''max_new_tokens'', PInt 4), (''stop'', PList [PStr ''z'', PStr ''a'']),
     (''grammar'', PDict [(''kind'', PStr ''regex''), (''value'', PStr ''x''), (''strict'', PBool True)]),
     (''temperature'', PFloat (Finite 0)), (''frequency_penalty'', PFloat (Finite 0)),
     (''presence_penalty'', PFloat (Finite 0)), (''min_tokens'', PInt 4)]"
  by (simp add: demo_result_def demo_applied_def demo_params_def od_set_def od_mem_def od_keys_def)

lemma demo_result_get [simp]:
  "py_get demo_result ''max_new_tokens'' = PInt 4" "py_get demo_result ''prompt'' = PStr ''hi''"
  "py_get demo_result ''min_tokens'' = PInt 4" "py_get demo_result ''stop'' = PList [PStr ''z'', PStr ''a'']"
  "py_get demo_result ''grammar'' = PDict [(''kind'', PStr ''regex''), (''value'', PStr ''x''), (''strict'', PBool True)]"
  "py_get demo_result ''frequency_penalty'' = PFloat (Finite 0)" "py_get demo_result ''presence_penalty'' = PFloat (Finite 0)"
  "od_mem ''prompt'' demo_result" "\<not> od_mem ''messages'' demo_result"
  "py_get_or demo_result ''temperature'' v = PFloat (Finite 0)" "py_get_or demo_result ''top_p'' v = v"
  by (simp_all add: demo_result_list py_get_def py_get_or_def od_mem_def od_keys_def)

lemma demo_result_absent [simp]:
  "py_get demo_result ''top_k'' = PNone" "py_get demo_result ''repetition_penalty'' = PNone"
  "py_get demo_result ''chat_template_kwargs'' = PNone" "py_get demo_result ''schema_in_prompt'' = PNone"
  "py_get demo_result ''include_reasoning'' = PNone" "py_get demo_result ''native_prompt'' = PNone"
  "py_get demo_result ''logit_bias'' = PNone" "py_get demo_result ''top_logprobs'' = PNone" "py_get demo_result ''n'' = PNone"
  "py_get demo_result ''best_of'' = PNone" "py_get demo_result ''lora_adapter'' = PNone" "py_get demo_result ''tools'' = PNone"
  "py_get demo_result ''tool_choice'' = PNone"
  by (simp_all add: demo_result_list py_get_def)

lemmas field_defs = decode_max_new_tokens_def decode_temperature_def decode_top_p_def decode_number_def
  decode_stop_def decode_grammar_def decode_kind_def coerce_penalty_def coerce_float_def decode_top_k_def coerce_at_least_def
  decode_repetition_penalty_def decode_min_tokens_def decode_chat_template_kwargs_def decode_schema_in_prompt_def
  decode_flag_def decode_logit_bias_def coerce_int_def decode_lora_def decode_tools_def decode_tool_choice_def
  caught_def py_int_def py_to_float_def in_range_def Let_def

lemma demo_numbers:
  "decode_max_new_tokens (Some demo_config) demo_result = Inr 4" "decode_temperature demo_result = Inr 0"
  "decode_top_p demo_result = Inr 1" "coerce_penalty demo_result ''frequency_penalty'' = Inr (Some 0)"
  "coerce_penalty demo_result ''presence_penalty'' = Inr (Some 0)" "decode_top_k demo_result = Inr None"
  "decode_repetition_penalty demo_result = Inr None" "decode_min_tokens demo_result = Inr (Some 4)"
  "decode_logit_bias demo_result = Inr None" "coerce_int PNone = Inr None"
  by (simp_all add: field_defs demo_config_def)

lemma demo_shapes:
  "decode_input demo_codec demo_result = Inr (Prompt_input ''hi'')" "decode_stop demo_result = Inr (Some [''z'', ''a''])"
  "decode_chat_template_kwargs demo_result = Inr None" "decode_flag demo_result ''include_reasoning'' = Inr None"
  "decode_flag demo_result ''native_prompt'' = Inr None" "decode_lora demo_codec (Some demo_config) o' demo_result = Inr None"
  "decode_tools demo_result = Inr None" "decode_tool_choice demo_result = Inr None"
  "decode_schema_in_prompt demo_codec (Some demo_config) demo_result = Inr (profile_schema_in_prompt demo_codec demo_config)"
  by (simp_all add: decode_input_def field_defs or_none_def map_filter_simps)

lemma demo_grammar_decoded:
  "decode_grammar demo_codec demo_result =
     Inr (Some \<lparr>grammar_kind = GK_regex, grammar_value = PStr ''x'', grammar_label = None, grammar_strict = Some True\<rparr>)"
  by (simp add: decode_grammar_def decode_kind_def py_get_def [of "[_, _, _]"])

lemma demo_work_accepted:
  "\<exists>q g. validate_generate_params demo_codec (Some demo_config) demo_work = Inr q \<and> rq_grammar q = Some g \<and>
     grammar_strict g = Some True \<and> rq_min_tokens q = Some 4"
proof -
  have "resolved_params demo_codec (Some demo_config) demo_work = Inr demo_result"
    by (simp add: resolved_params_def demo_work_def extract_generate_params_def demo_apply refused_def)
  then show ?thesis
    by (simp add: validate_generate_params_def decode_request_def demo_numbers demo_shapes demo_grammar_decoded)
qed

lemma demo_uri: "decode_data_uri_image demo_codec ''data:image/png;base64,QUJD'' =
    Inr \<lparr>media_data = ''QUJD'', media_format = Some ''png''\<rparr>"
  by code_simp

lemma demo_content: "parse_chat_content demo_codec (PList demo_parts) 0 =
    Inr (''see'', [\<lparr>media_data = ''QUJD'', media_format = Some ''png''\<rparr>], Some [Text_part ''see'', Image_part])"
  by (simp add: parse_chat_content_def demo_parts_def parse_content_part_def py_get_def demo_uri part_text_def part_images_def
      part_layout_def map_filter_simps)

lemma demo_message: "decode_messages demo_codec 0 [PDict [(''role'', PStr ''user''), (''content'', PList demo_parts)]] 0 0 =
    Inr [\<lparr>cm_role = ''user'', cm_content = ''see'', cm_tool_calls = None, cm_tool_call_id = None,
      cm_images = Some [\<lparr>media_data = ''QUJD'', media_format = Some ''png''\<rparr>],
      cm_content_parts = Some [Text_part ''see'', Image_part], cm_videos = None\<rparr>]"
  by (simp add: decode_message_def py_get_def allowed_chat_roles_def demo_content parse_message_images_field_def
      parse_content_parts_field_def parse_message_videos_field_def choose_layout_def reconcile_def image_markers_def
      video_markers_def or_none_def max_images_per_request_def max_videos_per_request_def)

lemma demo_chat_get [simp]:
  "py_get demo_chat_params ''max_new_tokens'' = PInt 4" "od_mem ''messages'' demo_chat_params" "\<not> od_mem ''prompt'' demo_chat_params"
  "py_get demo_chat_params ''messages'' = PList [PDict [(''role'', PStr ''user''), (''content'', PList demo_parts)]]"
  by (simp_all add: demo_chat_params_def py_get_def od_mem_def od_keys_def)

lemma demo_chat_absent [simp]: "k \<notin> {''max_new_tokens'', ''messages''} \<Longrightarrow>
    py_get demo_chat_params k = PNone \<and> py_get_or demo_chat_params k v = v"
  by (simp add: demo_chat_params_def py_get_def py_get_or_def)

lemma demo_chat_accepted: "\<exists>q ms. validate_generate_params demo_codec None demo_chat = Inr q \<and> rq_input q = Messages_input ms"
proof -
  obtain ms where ms: "decode_input demo_codec demo_chat_params = Inr (Messages_input ms)"
    by (simp add: decode_input_def demo_message del: decode_messages.simps)
  have "resolved_params demo_codec None demo_chat = Inr demo_chat_params"
    by (simp add: resolved_params_def demo_chat_def extract_generate_params_def)
  with ms show ?thesis
    by (simp add: validate_generate_params_def decode_request_def field_defs demo_chat_def)
qed

theorem accepted_request_bounded_witness:
  "\<exists>q. validate_generate_params demo_codec (Some demo_config) demo_work = Inr q \<and> sampling_ok (Some demo_config) q"
  using demo_work_accepted accepted_request_bounded by metis

theorem accepted_media_aligned_witness:
  "\<exists>q ms. validate_generate_params demo_codec None demo_chat = Inr q \<and> rq_input q = Messages_input ms \<and> list_all message_ok ms"
  using demo_chat_accepted accepted_media_aligned by metis

theorem accepted_strict_grammar_verifiable_witness:
  "\<exists>q. validate_generate_params demo_codec (Some demo_config) demo_work = Inr q \<and> requires_output_validation (rq_grammar q)"
  using demo_work_accepted accepted_strict_grammar_verifiable by metis

theorem accepted_min_within_max_witness:
  "\<exists>q. validate_generate_params demo_codec (Some demo_config) demo_work = Inr q \<and> 4 \<le> rq_max_new_tokens q"
proof -
  obtain q where q: "validate_generate_params demo_codec (Some demo_config) demo_work = Inr q" "rq_min_tokens q = Some 4"
    using demo_work_accepted by auto
  have "4 \<le> rq_max_new_tokens q"
    by (rule accepted_min_within_max [OF q(1) _ _ _ q(2), of demo_params 4])
      (simp_all add: demo_work_def extract_generate_params_def demo_params_def py_get_def)
  with q(1) show ?thesis by auto
qed

theorem validator_contained_witness: "\<not> raises (validate_generate_params demo_codec (Some demo_config) demo_chat)"
  by (rule validator_contained [of _ demo_chat_params])
    (simp_all add: parents_checked_def check_parent_def demo_config_def demo_profile_def demo_chat_def extract_generate_params_def params_safe_def int_safe_def float_safe_def
      content_safe_def unhashable_def demo_parts_def py_get_def [of "[_, _]"])

theorem infinite_top_k_escapes_witness:
  "validate_generate_params demo_codec None
    \<lparr>wi_generate = PDict [(''prompt'', PStr ''hi''), (''max_new_tokens'', PInt 4), (''top_k'', PFloat (Infinite 1))],
     wi_options = PNone\<rparr> = Inl (Raised OverflowError)"
  by (rule infinite_top_k_escapes) simp_all

theorem unhashable_part_type_escapes_witness:
  "parse_chat_content demo_codec (PList [PDict [(''type'', PList [])]]) 0 = Inl (Raised TypeError)"
  by (rule unhashable_part_type_escapes) (simp add: unhashable_def py_get_def)

end
