(* ===== verification/Client_Retry.thy ===== *)
theory Client_Retry
  imports Py_Convert
begin

text \<open>
  The retry policy of the Python client: the delays and the mapping of errors of \<^verbatim>\<open>client/_shared.py\<close>, and the
  loops of \<^verbatim>\<open>client/sync.py\<close> that send a request until it is answered. Readings of the clock are seconds since
  the call began; a draw of the jitter is a number between 0 and 1. A response has a decoded body or none; decoding
  and the reading of HTTP dates are outside. Texts of errors and request metadata are left out.
\<close>

section \<open>Responses\<close>

record http_response =
  rs_status :: int
  rs_code_header :: "string option"
  rs_retry_after :: "string option"
  rs_location :: "string option"
  rs_body :: "pyval option"

text \<open>The seconds from now to an HTTP date, if the text is one.\<close>

type_synonym date_reader = "string \<Rightarrow> real option"

definition get_error_detail :: "http_response \<Rightarrow> pydict option" where
  "get_error_detail r =
     (case rs_body r of
        Some (PDict d) \<Rightarrow>
          if od_mem ''error'' d then (case py_get d ''error'' of PDict e \<Rightarrow> Some e | _ \<Rightarrow> None)
          else if od_mem ''detail'' d then (case py_get d ''detail'' of PDict e \<Rightarrow> Some e | _ \<Rightarrow> None)
          else None
      | _ \<Rightarrow> None)"

definition normalize_error_code :: "pyval \<Rightarrow> pyval" where
  "normalize_error_code c = (if c = PStr ''provisioning'' then PStr ''PROVISIONING'' else c)"

definition header_code :: "http_response \<Rightarrow> string option" where
  "header_code r = (case rs_code_header r of Some c \<Rightarrow> if c = [] then None else Some c | None \<Rightarrow> None)"

definition get_error_code :: "http_response \<Rightarrow> string option" where
  "get_error_code r =
     (case header_code r of
        Some c \<Rightarrow> Some c
      | None \<Rightarrow>
          (case get_error_detail r of
             None \<Rightarrow> None
           | Some d \<Rightarrow> (case normalize_error_code (py_get d ''code'') of PStr c \<Rightarrow> Some c | _ \<Rightarrow> None)))"

definition get_retry_after :: "date_reader \<Rightarrow> http_response \<Rightarrow> real option" where
  "get_retry_after date r =
     (case rs_retry_after r of
        None \<Rightarrow> None
      | Some t \<Rightarrow>
          if t = [] then None
          else case text_to_float t of
            Inl e \<Rightarrow> (case date t of None \<Rightarrow> None | Some delta \<Rightarrow> Some (max delta 0))
          | Inr (Finite v) \<Rightarrow> if v < 0 then None else Some v
          | Inr _ \<Rightarrow> None)"

definition retry_after_or_default :: "real option \<Rightarrow> real \<Rightarrow> real" where
  "retry_after_or_default h d = (case h of Some v \<Rightarrow> v | None \<Rightarrow> d)"

section \<open>Errors\<close>

datatype client_error =
    Provisioning_error "real option"
  | Lora_loading_error
  | Model_loading_error
  | Resource_exhausted_error nat "real option"
  | Rate_limit_error "real option"
  | Input_too_long_error
  | Model_load_failed_error bool int
  | Insufficient_credits_error
  | Spend_limit_error
  | Account_inactive_error pyval
  | Relay_unavailable_error pyval
  | Account_state_unavailable_error "real option"
  | Server_error pyval int "real option"
  | Request_error pyval int
  | Connection_error
  | Python_error py_error

definition relay_unavailable_codes :: "string list" where
  "relay_unavailable_codes =
     [''THIRD_PARTY_SERVING_DISABLED'', ''THIRD_PARTY_RUNTIME_UNLISTED'', ''THIRD_PARTY_REGION_UNAVAILABLE'']"

definition error_code_of :: "http_response \<Rightarrow> pyval" where
  "error_code_of r =
     (case header_code r of
        Some c \<Rightarrow> PStr c
      | None \<Rightarrow> (case get_error_detail r of None \<Rightarrow> PNone | Some d \<Rightarrow> normalize_error_code (py_get d ''code'')))"

definition handle_error :: "date_reader \<Rightarrow> http_response \<Rightarrow> client_error" where
  "handle_error date r =
     (let code = error_code_of r; s = rs_status r; hint = get_retry_after date r in
      if s = 503 \<and> code = PStr ''PROVISIONING'' then Provisioning_error hint
      else if s = 400 \<and> code = PStr ''INPUT_TOO_LONG'' then Input_too_long_error
      else if s = 429 then Rate_limit_error hint
      else if s = 402 \<and> code = PStr ''INSUFFICIENT_CREDITS'' then Insufficient_credits_error
      else if s = 402 \<and> code = PStr ''KEY_SPEND_LIMIT_EXCEEDED'' then Spend_limit_error
      else if s = 403 \<and> code \<in> {PStr ''ACCOUNT_SUSPENDED'', PStr ''ACCOUNT_PENDING_REVIEW''} then Account_inactive_error code
      else if s = 403 \<and> unhashable code then Python_error TypeError
      else if s = 403 \<and> code \<in> set (map PStr relay_unavailable_codes) then Relay_unavailable_error code
      else if s = 503 \<and> code = PStr ''ACCOUNT_STATE_UNAVAILABLE'' then Account_state_unavailable_error hint
      else if s \<ge> 500 then Server_error code s hint
      else Request_error code s)"

definition load_attempts :: "pyval option \<Rightarrow> int" where
  "load_attempts raw =
     max 1 (case raw of
        None \<Rightarrow> 1
      | Some v \<Rightarrow>
          (case v of
             PNone \<Rightarrow> 1 | PBytes _ \<Rightarrow> 1 | PList _ \<Rightarrow> 1 | PDict _ \<Rightarrow> 1
           | _ \<Rightarrow> (case py_int v of Inr n \<Rightarrow> n | Inl e \<Rightarrow> 1)))"

definition raise_if_model_load_failed :: "http_response \<Rightarrow> client_error option" where
  "raise_if_model_load_failed r =
     (if rs_status r \<noteq> 502 then None
      else case get_error_detail r of
        None \<Rightarrow> None
      | Some d \<Rightarrow>
          if py_get d ''code'' \<noteq> PStr ''MODEL_LOAD_FAILED'' then None
          else Some (Model_load_failed_error (case map_of d ''permanent'' of None \<Rightarrow> True | Some v \<Rightarrow> truthy v)
                 (load_attempts (map_of d ''attempts''))))"

definition raise_if_input_too_long :: "http_response \<Rightarrow> client_error option" where
  "raise_if_input_too_long r =
     (if rs_status r \<noteq> 400 then None
      else case get_error_detail r of
        None \<Rightarrow> None
      | Some d \<Rightarrow> if py_get d ''code'' \<noteq> PStr ''INPUT_TOO_LONG'' then None else Some Input_too_long_error)"

section \<open>Connect errors\<close>

text \<open>A link of the chain of causes: an SSL error or not, the number of its \<^verbatim>\<open>os_error\<close>, and its own number.\<close>

record cause =
  is_ssl :: bool
  os_errno :: "int option"
  own_errno :: "int option"

fun is_transient_connect_error :: "int list \<Rightarrow> cause list \<Rightarrow> bool" where
  "is_transient_connect_error transient [] = True"
| "is_transient_connect_error transient (c # cs) =
     (if is_ssl c then False
      else case os_errno c of
        Some n \<Rightarrow> n \<in> set transient
      | None \<Rightarrow> (case own_errno c of
          Some n \<Rightarrow> n \<in> set transient
        | None \<Rightarrow> is_transient_connect_error transient cs))"

section \<open>Delays\<close>

definition retry_jitter_fraction :: real where
  "retry_jitter_fraction = 1 / 4"

definition model_loading_default_delay_s :: real where
  "model_loading_default_delay_s = 5"

definition default_retry_delay_s :: real where
  "default_retry_delay_s = 5"

definition lora_loading_default_delay_s :: real where
  "lora_loading_default_delay_s = 1"

definition lora_loading_max_retries :: nat where
  "lora_loading_max_retries = 10"

definition rate_limit_default_delay_s :: real where
  "rate_limit_default_delay_s = 1"

definition backpressure_503_default_delay_s :: real where
  "backpressure_503_default_delay_s = 1"

definition resource_exhausted_default_delay_s :: real where
  "resource_exhausted_default_delay_s = 5"

definition resource_exhausted_max_delay_s :: real where
  "resource_exhausted_max_delay_s = 30"

definition apply_jitter :: "real \<Rightarrow> real \<Rightarrow> real" where
  "apply_jitter u delay =
     (if delay \<le> 0 then max delay 0
      else let low = delay * (1 - retry_jitter_fraction) in max 0 (low + (delay - low) * u))"

definition compute_retry_delay :: "real \<Rightarrow> real \<Rightarrow> real \<Rightarrow> real option" where
  "compute_retry_delay u elapsed timeout =
     (if elapsed \<ge> timeout then None
      else Some (apply_jitter u (min model_loading_default_delay_s (timeout - elapsed))))"

definition compute_oom_backoff :: "real \<Rightarrow> real option \<Rightarrow> nat \<Rightarrow> real" where
  "compute_oom_backoff u hint attempt =
     (let safe = map_option (\<lambda>h. max h 0) hint in
      if safe \<noteq> None \<and> attempt = 0 then min (the safe) resource_exhausted_max_delay_s
      else let base = (case safe of Some h \<Rightarrow> max resource_exhausted_default_delay_s h
                       | None \<Rightarrow> resource_exhausted_default_delay_s)
           in apply_jitter u (max 0 (min (base * 2 ^ attempt) resource_exhausted_max_delay_s)))"

definition provisioning_retry_delay :: "date_reader \<Rightarrow> bool \<Rightarrow> real \<Rightarrow> real \<Rightarrow> real \<Rightarrow> http_response \<Rightarrow> client_error + real" where
  "provisioning_retry_delay date wait_for_capacity u elapsed timeout r =
     (let hint = get_retry_after date r in
      if \<not> wait_for_capacity \<or> elapsed \<ge> timeout then Inl (Provisioning_error hint)
      else case hint of
        Some h \<Rightarrow> Inr (min h (timeout - elapsed))
      | None \<Rightarrow> Inr (apply_jitter u (min default_retry_delay_s (timeout - elapsed))))"

definition backpressure_503_codes :: "string list" where
  "backpressure_503_codes = [''BILLING_CAPACITY_UNAVAILABLE'', ''QUEUE_FULL'']"

definition retry_after_gated_503_codes :: "string list" where
  "retry_after_gated_503_codes = [''QUEUE_UNAVAILABLE'', ''transport_failure'']"

definition is_backpressure_503 :: "date_reader \<Rightarrow> http_response \<Rightarrow> bool" where
  "is_backpressure_503 date r =
     (rs_status r = 503 \<and>
      (case get_error_code r of
         None \<Rightarrow> False
       | Some c \<Rightarrow> c \<in> set backpressure_503_codes \<or>
           c \<in> set retry_after_gated_503_codes \<and> get_retry_after date r \<noteq> None))"

definition admission_delay :: "real option \<Rightarrow> real \<Rightarrow> real \<Rightarrow> real \<Rightarrow> real" where
  "admission_delay hint fallback u remaining = (case hint of Some h \<Rightarrow> h | None \<Rightarrow> apply_jitter u (min fallback remaining))"

definition admission_retry_delay :: "date_reader \<Rightarrow> real \<Rightarrow> real \<Rightarrow> real \<Rightarrow> http_response \<Rightarrow> client_error + real option" where
  "admission_retry_delay date u elapsed timeout r =
     (let hint = get_retry_after date r; remaining = timeout - elapsed in
      if rs_status r = 429
      then let d = admission_delay hint rate_limit_default_delay_s u remaining
           in if remaining \<le> 0 \<or> d \<ge> remaining then Inl (Rate_limit_error hint) else Inr (Some d)
      else if is_backpressure_503 date r
      then let d = admission_delay hint backpressure_503_default_delay_s u remaining
           in if remaining \<le> 0 \<or> d \<ge> remaining then Inl (handle_error date r) else Inr (Some d)
      else Inr None)"

definition handle_oom_retry :: "date_reader \<Rightarrow> nat \<Rightarrow> nat \<Rightarrow> real \<Rightarrow> real \<Rightarrow> real \<Rightarrow> http_response \<Rightarrow> client_error + real" where
  "handle_oom_retry date max_oom_retries oom_retries u elapsed timeout r =
     (let hint = get_retry_after date r; d = compute_oom_backoff u hint oom_retries in
      if oom_retries \<ge> max_oom_retries \<or> elapsed \<ge> timeout \<or> d \<ge> timeout - elapsed
      then Inl (Resource_exhausted_error oom_retries hint)
      else Inr d)"

section \<open>Loops\<close>

text \<open>What sending the request came to: a failure to connect with its chain of causes, a broken connection the idempotent
  paths retry, another timeout, a response, or an error raised while its continuations were followed.\<close>

datatype outcome = Connect_failed "cause list" | Transport_failed | Timed_out | Answered http_response | Lost client_error

text \<open>
  Continuations: a 303 that names the request in flight is followed with GET. The library's reading of URLs is an argument;
  readings of the clock and the answers are given by hop. The paths fetched are returned beside the outcome.
\<close>

record url_parts =
  u_scheme :: string
  u_host :: "string option"
  u_port :: "int option result"
  u_userinfo :: bool
  u_path :: string
  u_query :: string
  u_fragment :: string

record url_lib =
  urlsplit :: "string \<Rightarrow> url_parts result"
  urljoin :: "string \<Rightarrow> string \<Rightarrow> string result"
  parse_qsl :: "string \<Rightarrow> (string \<times> string) list result"

definition http_origin :: "url_lib \<Rightarrow> string \<Rightarrow> (string \<times> string \<times> int) option" where
  "http_origin lib url =
     (case and_then (urlsplit lib url) (\<lambda>u. and_then (u_port u) (\<lambda>port. Inr (u, port))) of
        Inl e \<Rightarrow> None
      | Inr (u, port) \<Rightarrow>
          (case u_host u of
             None \<Rightarrow> None
           | Some host \<Rightarrow>
               let scheme = py_lower (u_scheme u) in
               if scheme \<notin> {''http'', ''https''} \<or> u_userinfo u then None
               else Some (scheme, py_lower host,
                 case port of Some n \<Rightarrow> n | None \<Rightarrow> if scheme = ''https'' then 443 else 80)))"

definition joined :: "url_lib \<Rightarrow> string \<Rightarrow> string \<Rightarrow> string result" where
  "joined lib base url = urljoin lib (rev (dropWhile (\<lambda>c. c = CHR ''/'') (rev base)) @ ''/'') url"

definition request_matches_base_url_origin :: "url_lib \<Rightarrow> string \<Rightarrow> string \<Rightarrow> bool result" where
  "request_matches_base_url_origin lib base url =
     (case http_origin lib base of
        None \<Rightarrow> Inr False
      | Some origin \<Rightarrow> and_then (joined lib base url) (\<lambda>u. Inr (http_origin lib u = Some origin)))"

text \<open>A resolved continuation: one attempt token that is not empty, and no fragment.\<close>

definition attempt_path :: "url_lib \<Rightarrow> string \<Rightarrow> string option" where
  "attempt_path lib resolved =
     (case and_then (urlsplit lib resolved) (\<lambda>u. and_then (parse_qsl lib (u_query u)) (\<lambda>q. Inr (u, q))) of
        Inl e \<Rightarrow> None
      | Inr (u, q) \<Rightarrow>
          let tokens = map snd (filter (\<lambda>(k, v). k = ''__modal_attempt_token'') q) in
          if u_fragment u \<noteq> [] \<or> length tokens \<noteq> 1 \<or> hd tokens = [] then None
          else let path = (if u_path u = [] then ''/'' else u_path u) in
            Some (if u_query u \<noteq> [] then path @ ''?'' @ u_query u else path))"

definition modal_continuation_path :: "url_lib \<Rightarrow> string \<Rightarrow> http_response \<Rightarrow> string option result" where
  "modal_continuation_path lib base r =
     (case rs_location r of
        None \<Rightarrow> Inr None
      | Some l \<Rightarrow>
          if rs_status r \<noteq> 303 \<or> l = [] \<or> length l > 8192
             \<or> (\<exists>c \<in> set l. (of_char c :: nat) < 32 \<or> (of_char c :: nat) = 127) then Inr None
          else and_then (joined lib base l) (\<lambda>resolved.
            and_then (request_matches_base_url_origin lib base resolved) (\<lambda>same.
              Inr (if same then attempt_path lib resolved else None))))"

definition modal_continuation_max_hops :: nat where
  "modal_continuation_max_hops = 20"

fun follow_hops :: "url_lib \<Rightarrow> string \<Rightarrow> real \<Rightarrow> (nat \<Rightarrow> real) \<Rightarrow> (nat \<Rightarrow> string \<Rightarrow> http_response option) \<Rightarrow> nat \<Rightarrow>
    http_response \<Rightarrow> string list \<times> outcome" where
  "follow_hops lib base budget clock get 0 r =
     (case modal_continuation_path lib base r of
        Inl e \<Rightarrow> ([], Lost (Python_error e))
      | Inr None \<Rightarrow> ([], Answered r)
      | Inr (Some path) \<Rightarrow> ([], Lost (Provisioning_error None)))"
| "follow_hops lib base budget clock get (Suc n) r =
     (case modal_continuation_path lib base r of
        Inl e \<Rightarrow> ([], Lost (Python_error e))
      | Inr None \<Rightarrow> ([], Answered r)
      | Inr (Some path) \<Rightarrow>
          if budget - clock n \<le> 0 then ([], Lost (Provisioning_error None))
          else case get n path of
            None \<Rightarrow> ([path], Lost Connection_error)
          | Some r' \<Rightarrow> apfst (Cons path) (follow_hops lib base budget clock get n r'))"

definition follow_modal_continuations :: "url_lib \<Rightarrow> string \<Rightarrow> real \<Rightarrow> (nat \<Rightarrow> real) \<Rightarrow> (nat \<Rightarrow> string \<Rightarrow> http_response option) \<Rightarrow>
    http_response \<Rightarrow> string list \<times> outcome" where
  "follow_modal_continuations lib base budget clock get r =
     follow_hops lib base budget clock get modal_continuation_max_hops r"

text \<open>One turn of a loop: the clock at its top, the outcome, the clock where it is handled and at a second reading,
  and the draw of the jitter.\<close>

record turn =
  at_top :: real
  sent_to :: outcome
  at_decide :: real
  at_again :: real
  draw :: real

record retry_config =
  date_delta :: date_reader
  transient_errnos :: "int list"
  wait_for_capacity :: bool
  provision_timeout :: real
  max_oom_retries :: nat

record retry_state =
  lora_retries :: nat
  oom_retries :: nat
  connect_retries :: nat
  after_capacity_wait :: bool

definition retry_start :: retry_state where
  "retry_start = \<lparr>lora_retries = 0, oom_retries = 0, connect_retries = 0, after_capacity_wait = False\<rparr>"

text \<open>How a turn ends: another one after a delay, an error, no request because the budget is spent
  (\<^verbatim>\<open>ProvisioningError\<close>), or an answer that is handed on.\<close>

datatype verdict = Again real | Failed client_error | Unsent | Succeeded

definition budget_spent :: "retry_config \<Rightarrow> retry_state \<Rightarrow> turn \<Rightarrow> bool" where
  "budget_spent c st t = (provision_timeout c - at_top t \<le> 0 \<and> \<not> after_capacity_wait st)"

definition connect_step :: "retry_config \<Rightarrow> retry_state \<Rightarrow> turn \<Rightarrow> cause list \<Rightarrow> verdict \<times> retry_state" where
  "connect_step c st t causes =
     (if wait_for_capacity c \<and> is_transient_connect_error (transient_errnos c) causes
      then case compute_retry_delay (draw t) (at_decide t) (provision_timeout c) of
             Some d \<Rightarrow> (Again d, st\<lparr>connect_retries := Suc (connect_retries st)\<rparr>)
           | None \<Rightarrow> (Failed Connection_error, st)
      else (Failed Connection_error, st))"

definition provisioning_step :: "retry_config \<Rightarrow> retry_state \<Rightarrow> turn \<Rightarrow> http_response \<Rightarrow> verdict \<times> retry_state" where
  "provisioning_step c st t r =
     (case provisioning_retry_delay (date_delta c) (wait_for_capacity c) (draw t) (at_decide t) (provision_timeout c) r of
        Inl e \<Rightarrow> (Failed e, st)
      | Inr d \<Rightarrow> (Again d, st\<lparr>after_capacity_wait := True\<rparr>))"

definition oom_step :: "retry_config \<Rightarrow> retry_state \<Rightarrow> turn \<Rightarrow> http_response \<Rightarrow> verdict \<times> retry_state" where
  "oom_step c st t r =
     (case handle_oom_retry (date_delta c) (max_oom_retries c) (oom_retries st) (draw t) (at_decide t) (provision_timeout c) r of
        Inl e \<Rightarrow> (Failed e, st)
      | Inr d \<Rightarrow> (Again d, st\<lparr>oom_retries := Suc (oom_retries st)\<rparr>))"

datatype operation = Op_encode | Op_score | Op_extract

definition lora_step :: "retry_config \<Rightarrow> retry_state \<Rightarrow> http_response \<Rightarrow> verdict \<times> retry_state" where
  "lora_step c st r =
     (let n = Suc (lora_retries st); st' = st\<lparr>lora_retries := n\<rparr> in
      if n > lora_loading_max_retries then (Failed Lora_loading_error, st')
      else (Again (retry_after_or_default (get_retry_after (date_delta c) r) lora_loading_default_delay_s), st'))"

definition loading_step :: "retry_config \<Rightarrow> retry_state \<Rightarrow> turn \<Rightarrow> http_response \<Rightarrow> verdict \<times> retry_state" where
  "loading_step c st t r =
     (if at_decide t \<ge> provision_timeout c then (Failed Model_loading_error, st)
      else (Again (min (retry_after_or_default (get_retry_after (date_delta c) r) model_loading_default_delay_s)
                       (provision_timeout c - at_decide t)), st\<lparr>after_capacity_wait := True\<rparr>))"

text \<open>The end of the ladder of the idempotent loops: admission, the gateway timeout, errors, success.\<close>

definition finish_step :: "retry_config \<Rightarrow> retry_state \<Rightarrow> turn \<Rightarrow> http_response \<Rightarrow> verdict \<times> retry_state" where
  "finish_step c st t r =
     (case admission_retry_delay (date_delta c) (draw t) (at_decide t) (provision_timeout c) r of
        Inl e \<Rightarrow> (Failed e, st)
      | Inr (Some d) \<Rightarrow> (Again d, st)
      | Inr None \<Rightarrow>
          if rs_status r = 504 \<and> wait_for_capacity c \<and> at_decide t < provision_timeout c
          then (Again (min (retry_after_or_default (get_retry_after (date_delta c) r) model_loading_default_delay_s)
                           (provision_timeout c - at_decide t)), st)
          else if rs_status r \<ge> 400 then (Failed (handle_error (date_delta c) r), st)
          else (Succeeded, st))"

definition answer_step :: "operation \<Rightarrow> retry_config \<Rightarrow> retry_state \<Rightarrow> turn \<Rightarrow> http_response \<Rightarrow> verdict \<times> retry_state" where
  "answer_step op c st t r =
     (case raise_if_model_load_failed r of
        Some e \<Rightarrow> (Failed e, st)
      | None \<Rightarrow>
          (case (if op = Op_extract then raise_if_input_too_long r else None) of
             Some e \<Rightarrow> (Failed e, st)
           | None \<Rightarrow>
               if rs_status r = 503 \<and> get_error_code r = Some ''PROVISIONING'' then provisioning_step c st t r
               else if rs_status r = 503 \<and> op = Op_encode \<and> get_error_code r = Some ''LORA_LOADING'' then lora_step c st r
               else if rs_status r = 503 \<and> get_error_code r = Some ''MODEL_LOADING'' then loading_step c st t r
               else if rs_status r = 503 \<and> get_error_code r = Some ''RESOURCE_EXHAUSTED'' then oom_step c st t r
               else finish_step c st t r))"

text \<open>A turn of the loop of \<^verbatim>\<open>encode\<close>, \<^verbatim>\<open>score\<close> and \<^verbatim>\<open>extract\<close>.\<close>

definition idempotent_step :: "operation \<Rightarrow> retry_config \<Rightarrow> retry_state \<Rightarrow> turn \<Rightarrow> verdict \<times> retry_state" where
  "idempotent_step op c st t =
     (if budget_spent c st t then (Unsent, st)
      else let st1 = st\<lparr>after_capacity_wait := False\<rparr> in
        case sent_to t of
          Connect_failed causes \<Rightarrow> connect_step c st1 t causes
        | Transport_failed \<Rightarrow>
            if wait_for_capacity c
            then (case compute_retry_delay (draw t) (at_decide t) (provision_timeout c) of
                    Some d \<Rightarrow> (Again d, st1) | None \<Rightarrow> (Failed Connection_error, st1))
            else (Failed Connection_error, st1)
        | Timed_out \<Rightarrow> (Failed Connection_error, st1)
        | Lost e \<Rightarrow> (Failed e, st1)
        | Answered r \<Rightarrow> answer_step op c st1 t r)"

definition encode_step :: "retry_config \<Rightarrow> retry_state \<Rightarrow> turn \<Rightarrow> verdict \<times> retry_state" where
  "encode_step = idempotent_step Op_encode"

definition score_step :: "retry_config \<Rightarrow> retry_state \<Rightarrow> turn \<Rightarrow> verdict \<times> retry_state" where
  "score_step = idempotent_step Op_score"

definition extract_step :: "retry_config \<Rightarrow> retry_state \<Rightarrow> turn \<Rightarrow> verdict \<times> retry_state" where
  "extract_step = idempotent_step Op_extract"

text \<open>A turn of the loop of \<^verbatim>\<open>generate\<close>, whose requests must not run twice.\<close>

definition generate_answer :: "retry_config \<Rightarrow> retry_state \<Rightarrow> turn \<Rightarrow> http_response \<Rightarrow> verdict \<times> retry_state" where
  "generate_answer c st t r =
     (let hint = get_retry_after (date_delta c) r;
          d = retry_after_or_default hint model_loading_default_delay_s in
      case raise_if_model_load_failed r of
        Some e \<Rightarrow> (Failed e, st)
      | None \<Rightarrow>
          if rs_status r = 503 \<and> get_error_code r = Some ''PROVISIONING'' then provisioning_step c st t r
          else if rs_status r = 503 \<and> get_error_code r = Some ''MODEL_LOADING''
          then (if at_decide t \<ge> provision_timeout c \<or> d \<ge> provision_timeout c - at_decide t
                then (Failed Model_loading_error, st) else (Again d, st))
          else if rs_status r = 503 \<and> get_error_code r = Some ''RESOURCE_EXHAUSTED'' then oom_step c st t r
          else case admission_retry_delay (date_delta c) (draw t) (at_decide t) (provision_timeout c) r of
            Inl e \<Rightarrow> (Failed e, st)
          | Inr (Some d) \<Rightarrow> (Again d, st)
          | Inr None \<Rightarrow>
              if rs_status r = 504
              then (Failed (Server_error (case get_error_code r of Some k \<Rightarrow> PStr k | None \<Rightarrow> PNone) 504 hint), st)
              else if rs_status r \<ge> 400 then (Failed (handle_error (date_delta c) r), st)
              else (Succeeded, st))"

definition generate_step :: "retry_config \<Rightarrow> retry_state \<Rightarrow> turn \<Rightarrow> verdict \<times> retry_state" where
  "generate_step c st t =
     (if budget_spent c st t then (Unsent, st)
      else let st1 = st\<lparr>after_capacity_wait := False\<rparr> in
        case sent_to t of
          Connect_failed causes \<Rightarrow> connect_step c st1 t causes
        | Transport_failed \<Rightarrow> (Failed Connection_error, st1)
        | Timed_out \<Rightarrow> (Failed Connection_error, st1)
        | Lost e \<Rightarrow> (Failed e, st1)
        | Answered r \<Rightarrow> generate_answer c st1 t r)"

definition next_stream_retry_delay :: "retry_config \<Rightarrow> nat \<Rightarrow> turn \<Rightarrow> http_response \<Rightarrow> client_error + real \<times> nat" where
  "next_stream_retry_delay c n t r =
     (let hint = get_retry_after (date_delta c) r; code = get_error_code r; s = rs_status r;
          elapsed = at_decide t; remaining = provision_timeout c - elapsed;
          raw = (case code of Some k \<Rightarrow> PStr k | None \<Rightarrow> PNone) in
      case raise_if_model_load_failed r of
        Some e \<Rightarrow> Inl e
      | None \<Rightarrow>
          (case raise_if_input_too_long r of
             Some e \<Rightarrow> Inl e
           | None \<Rightarrow>
               if s = 503 \<and> code = Some ''PROVISIONING''
               then and_then (provisioning_retry_delay (date_delta c) (wait_for_capacity c) (draw t) (at_again t)
                      (provision_timeout c) r) (\<lambda>d. Inr (d, n))
               else if s = 503 \<and> code = Some ''MODEL_LOADING''
               then (if elapsed \<ge> provision_timeout c then Inl Model_loading_error
                     else Inr (min (retry_after_or_default hint model_loading_default_delay_s) remaining, n))
               else if s = 503 \<and> code = Some ''RESOURCE_EXHAUSTED''
               then (if \<not> wait_for_capacity c \<or> n \<ge> max_oom_retries c \<or> elapsed \<ge> provision_timeout c
                     then Inl (Resource_exhausted_error n hint)
                     else Inr (min (compute_oom_backoff (draw t) hint n) remaining, Suc n))
               else and_then (admission_retry_delay (date_delta c) (draw t) (at_again t) (provision_timeout c) r)
                 (\<lambda>a. case a of
                    Some d \<Rightarrow> Inr (d, n)
                  | None \<Rightarrow>
                      if s = 504 then Inl (Server_error raw s hint)
                      else if 300 \<le> s \<and> s < 400 then Inl (Request_error PNone s)
                      else if s \<ge> 400 then Inl (handle_error (date_delta c) r)
                      else Inl (Server_error raw s hint))))"

text \<open>A turn of the loop of \<^verbatim>\<open>responses\<close>, which shares its rules with the streams.\<close>

definition responses_step :: "retry_config \<Rightarrow> retry_state \<Rightarrow> turn \<Rightarrow> verdict \<times> retry_state" where
  "responses_step c st t =
     (if budget_spent c st t then (Unsent, st)
      else let st1 = st\<lparr>after_capacity_wait := False\<rparr> in
        case sent_to t of
          Connect_failed causes \<Rightarrow> connect_step c st1 t causes
        | Transport_failed \<Rightarrow> (Failed Connection_error, st1)
        | Timed_out \<Rightarrow> (Failed Connection_error, st1)
        | Lost e \<Rightarrow> (Failed e, st1)
        | Answered r \<Rightarrow>
            if rs_status r = 200 then (Succeeded, st1)
            else case next_stream_retry_delay c (oom_retries st1) t r of
              Inl e \<Rightarrow> (Failed e, st1)
            | Inr (d, n) \<Rightarrow> (Again d, st1\<lparr>oom_retries := n, after_capacity_wait := True\<rparr>))"

text \<open>The loop of \<^verbatim>\<open>chat_completions\<close> has the same turns.\<close>

definition chat_step :: "retry_config \<Rightarrow> retry_state \<Rightarrow> turn \<Rightarrow> verdict \<times> retry_state" where
  "chat_step = responses_step"

section \<open>Runs\<close>

text \<open>The turns a loop takes, with their verdicts: it goes on while the verdict is to try again.\<close>

fun turns :: "(retry_state \<Rightarrow> turn \<Rightarrow> verdict \<times> retry_state) \<Rightarrow> retry_state \<Rightarrow> turn list \<Rightarrow> (turn \<times> verdict) list" where
  "turns f st [] = []"
| "turns f st (t # ts) =
     (case f st t of (Again d, st') \<Rightarrow> (t, Again d) # turns f st' ts | (v, st') \<Rightarrow> [(t, v)])"

definition turn_ok :: "turn \<Rightarrow> bool" where
  "turn_ok t = (at_top t \<le> at_decide t \<and> at_decide t \<le> at_again t \<and> 0 \<le> draw t \<and> draw t \<le> 1)"

text \<open>The clock of a run: sleeping takes at least its delay, and a turn takes at least \<open>dt\<close>.\<close>

fun clocked :: "real \<Rightarrow> (turn \<times> verdict) list \<Rightarrow> bool" where
  "clocked dt [] = True"
| "clocked dt [(t, v)] = turn_ok t"
| "clocked dt ((t, v) # (t', v') # rest) =
     (turn_ok t \<and> at_top t + dt \<le> at_top t' \<and> (case v of Again d \<Rightarrow> at_decide t + d \<le> at_top t' | _ \<Rightarrow> True) \<and>
      clocked dt ((t', v') # rest))"

definition oom_turn :: "turn \<Rightarrow> bool" where
  "oom_turn t = (case sent_to t of Answered r \<Rightarrow> rs_status r = 503 \<and> get_error_code r = Some ''RESOURCE_EXHAUSTED'' | _ \<Rightarrow> False)"

definition lora_turn :: "turn \<Rightarrow> bool" where
  "lora_turn t = (case sent_to t of Answered r \<Rightarrow> rs_status r = 503 \<and> get_error_code r = Some ''LORA_LOADING'' | _ \<Rightarrow> False)"

lemma clocked_turn: "clocked dt ((t, v) # rest) \<Longrightarrow> turn_ok t"
  by (cases rest) auto

lemma clocked_tail: "clocked dt (p # rest) \<Longrightarrow> clocked dt rest"
  by (cases p; cases rest) auto

text \<open>
  What the loops have in common: a turn whose budget is spent sends nothing, a wait decided after the deadline earns no
  further attempt, waits are not negative and end by the deadline unless a LoRA is loading, and retries for exhausted resources are counted.
\<close>

locale retry_loop =
  fixes step :: "retry_config \<Rightarrow> retry_state \<Rightarrow> turn \<Rightarrow> verdict \<times> retry_state"
  assumes top: "budget_spent c st t \<Longrightarrow> step c st t = (Unsent, st)"
    and late: "turn_ok t \<Longrightarrow> step c st t = (Again d, st') \<Longrightarrow> provision_timeout c \<le> at_decide t \<Longrightarrow> \<not> after_capacity_wait st'"
    and wait: "turn_ok t \<Longrightarrow> step c st t = (Again d, st') \<Longrightarrow>
      0 \<le> d \<and> (\<not> lora_turn t \<longrightarrow> at_decide t + d \<le> provision_timeout c)"
    and oom: "turn_ok t \<Longrightarrow> step c st t = (Again d, st') \<Longrightarrow>
      oom_retries st' = oom_retries st + (if oom_turn t then 1 else 0) \<and> (oom_turn t \<longrightarrow> oom_retries st < max_oom_retries c)"
begin

lemma late_ends:
  assumes "\<not> after_capacity_wait st" and "provision_timeout c \<le> at_top t"
  shows "turns (step c) st (t # ts) = [(t, Unsent)]"
  using assms top [of c st t] by (simp add: budget_spent_def)

lemma after_late:
  assumes "clocked dt ((t, Again d) # turns (step c) st' ts)" and "step c st t = (Again d, st')"
    and "provision_timeout c \<le> at_top t" and "0 \<le> dt"
  shows "ts = [] \<or> (\<exists>t' ts'. ts = t' # ts' \<and> turns (step c) st' ts = [(t', Unsent)])"
proof (cases ts)
  case (Cons t' ts')
  have ok: "turn_ok t" using assms(1) by (rule clocked_turn)
  then have "\<not> after_capacity_wait st'" using late [OF ok assms(2)] assms(3) by (simp add: turn_ok_def)
  moreover have "at_top t + dt \<le> at_top t'"
    using assms(1) Cons by (cases "step c st' t'"; cases "fst (step c st' t')") auto
  ultimately show ?thesis using late_ends [of st' c t' ts'] assms(3,4) Cons by simp
qed simp

lemma one_late_attempt:
  "clocked dt (turns (step c) st ts) \<Longrightarrow> 0 \<le> dt \<Longrightarrow>
     length (filter (\<lambda>(t, v). v \<noteq> Unsent \<and> provision_timeout c \<le> at_top t) (turns (step c) st ts)) \<le> 1"
proof (induction ts arbitrary: st)
  case (Cons t ts)
  show ?case
  proof (cases "\<exists>d st'. step c st t = (Again d, st')")
    case True
    then obtain d st' where s: "step c st t = (Again d, st')" by blast
    with Cons.prems have ck: "clocked dt ((t, Again d) # turns (step c) st' ts)" by simp
    show ?thesis
    proof (cases "provision_timeout c \<le> at_top t")
      case True
      from after_late [OF ck s True Cons.prems(2)] show ?thesis using s by auto
    next
      case False
      with Cons.IH [OF clocked_tail [OF ck] Cons.prems(2)] s show ?thesis by simp
    qed
  next
    case False
    then show ?thesis by (cases "step c st t"; cases "fst (step c st t)") auto
  qed
qed simp

lemma turns_bounded:
  assumes "clocked dt (turns (step c) st ts)" and "0 < dt" and "ts \<noteq> []"
  shows "length (turns (step c) st ts) \<le> nat \<lceil>(provision_timeout c - at_top (hd ts)) / dt\<rceil> + 2"
  using assms(1,3)
proof (induction ts arbitrary: st)
  case (Cons t ts)
  show ?case
  proof (cases "\<exists>d st'. step c st t = (Again d, st')")
    case True
    then obtain d st' where s: "step c st t = (Again d, st')" by blast
    with Cons.prems have ck: "clocked dt ((t, Again d) # turns (step c) st' ts)" by simp
    show ?thesis
    proof (cases "provision_timeout c \<le> at_top t")
      case True
      from after_late [OF ck s True] assms(2) show ?thesis using s by auto
    next
      case early: False
      show ?thesis
      proof (cases ts)
        case (Cons t' ts')
        have "at_top t + dt \<le> at_top t'"
          using ck Cons by (cases "step c st' t'"; cases "fst (step c st' t')") auto
        then have "(provision_timeout c - at_top t') / dt \<le> (provision_timeout c - at_top t - dt) / dt"
          using assms(2) by (intro divide_right_mono) simp_all
        then have "(provision_timeout c - at_top t') / dt \<le> (provision_timeout c - at_top t) / dt - 1"
          using assms(2) by (simp add: diff_divide_distrib)
        moreover have "0 < (provision_timeout c - at_top t) / dt" using early assms(2) by simp
        ultimately have "Suc (nat \<lceil>(provision_timeout c - at_top t') / dt\<rceil>) \<le> nat \<lceil>(provision_timeout c - at_top t) / dt\<rceil>"
          by linarith
        then show ?thesis using Cons.IH [OF clocked_tail [OF ck]] s Cons by auto
      qed (use s in simp)
    qed
  next
    case False
    then show ?thesis by (cases "step c st t"; cases "fst (step c st t)") auto
  qed
qed simp

lemma oom_bounded:
  "clocked dt (turns (step c) st ts) \<Longrightarrow> oom_retries st + length (filter (\<lambda>(t, v). oom_turn t \<and> (\<exists>d. v = Again d)) (turns (step c) st ts)) \<le>
     max (oom_retries st) (max_oom_retries c)"
proof (induction ts arbitrary: st)
  case (Cons t ts)
  show ?case
  proof (cases "\<exists>d st'. step c st t = (Again d, st')")
    case True
    then obtain d st' where s: "step c st t = (Again d, st')" by blast
    with Cons.prems have ck: "clocked dt ((t, Again d) # turns (step c) st' ts)" by simp
    show ?thesis using Cons.IH [OF clocked_tail [OF ck]] oom [OF clocked_turn [OF ck] s] s by (auto split: if_splits)
  next
    case False
    then show ?thesis by (cases "step c st t"; cases "fst (step c st t)") auto
  qed
qed simp

lemma waits_in_budget:
  "clocked dt (turns (step c) st ts) \<Longrightarrow> (t, Again d) \<in> set (turns (step c) st ts) \<Longrightarrow> \<not> lora_turn t \<Longrightarrow>
     0 \<le> d \<and> at_decide t + d \<le> provision_timeout c"
proof (induction ts arbitrary: st)
  case (Cons a ts)
  show ?case
  proof (cases "\<exists>e st'. step c st a = (Again e, st')")
    case True
    then obtain e st' where s: "step c st a = (Again e, st')" by blast
    with Cons.prems have ck: "clocked dt ((a, Again e) # turns (step c) st' ts)" by simp
    show ?thesis
      using Cons.prems(2,3) s wait [OF clocked_turn [OF ck] s] Cons.IH [OF clocked_tail [OF ck]] by auto
  next
    case False
    with Cons.prems(2) show ?thesis by (cases "step c st a"; cases "fst (step c st a)") auto
  qed
qed simp

end

section \<open>The loops keep the contract\<close>

lemma retry_after_nonneg: "get_retry_after date r = Some h \<Longrightarrow> 0 \<le> h"
  by (auto simp: get_retry_after_def split: option.splits if_splits sum.splits py_float.splits)

lemma retry_default_nonneg: "0 \<le> d \<Longrightarrow> 0 \<le> retry_after_or_default (get_retry_after date r) d"
  by (auto simp: retry_after_or_default_def dest: retry_after_nonneg split: option.splits)

lemma jitter_bounds:
  assumes "0 \<le> u" and "u \<le> 1"
  shows "0 \<le> apply_jitter u d" and "0 \<le> d \<Longrightarrow> apply_jitter u d \<le> d" and "3 / 4 * d \<le> apply_jitter u d"
proof -
  have "d * u / 4 \<le> d / 4" "0 \<le> d * u" if "0 < d" using assms that by (simp_all add: mult_left_le)
  then show "0 \<le> apply_jitter u d" "0 \<le> d \<Longrightarrow> apply_jitter u d \<le> d" "3 / 4 * d \<le> apply_jitter u d"
    by (auto simp: apply_jitter_def retry_jitter_fraction_def Let_def field_simps max_def)
qed

lemma jitter_min: "0 \<le> u \<Longrightarrow> u \<le> 1 \<Longrightarrow> 0 \<le> b \<Longrightarrow> 0 \<le> a \<Longrightarrow> 0 \<le> apply_jitter u (min a b) \<and> apply_jitter u (min a b) \<le> b"
  using jitter_bounds(1,2) [of u "min a b"] by auto

lemmas delay_defs = model_loading_default_delay_s_def default_retry_delay_s_def lora_loading_default_delay_s_def
  rate_limit_default_delay_s_def backpressure_503_default_delay_s_def resource_exhausted_default_delay_s_def
  resource_exhausted_max_delay_s_def

lemma compute_retry_delay_ok:
  "compute_retry_delay u e T = Some d \<Longrightarrow> 0 \<le> u \<Longrightarrow> u \<le> 1 \<Longrightarrow> e < T \<and> 0 \<le> d \<and> e + d \<le> T"
  using jitter_min [of u "T - e" 5] by (auto simp: compute_retry_delay_def delay_defs split: if_splits)

lemma oom_backoff_bounds:
  assumes "0 \<le> u" and "u \<le> 1"
  shows "0 \<le> compute_oom_backoff u hint n \<and> compute_oom_backoff u hint n \<le> 30"
proof -
  have "apply_jitter u (min x 30) \<le> 30" if "0 \<le> x" for x using jitter_min [OF assms, of 30 x] that by simp
  then show ?thesis
    using jitter_bounds(1) [OF assms] by (auto simp: compute_oom_backoff_def Let_def delay_defs split: option.splits)
qed

lemma provisioning_delay_ok:
  "provisioning_retry_delay date w u e T r = Inr d \<Longrightarrow> 0 \<le> u \<Longrightarrow> u \<le> 1 \<Longrightarrow> w \<and> e < T \<and> 0 \<le> d \<and> e + d \<le> T"
  using jitter_min [of u "T - e" 5] retry_after_nonneg [of date r]
  by (auto simp: provisioning_retry_delay_def Let_def delay_defs split: if_splits option.splits)

lemma admission_delay_ok:
  "admission_retry_delay date u e T r = Inr (Some d) \<Longrightarrow> 0 \<le> u \<Longrightarrow> u \<le> 1 \<Longrightarrow>
     e < T \<and> 0 \<le> d \<and> e + d \<le> T \<and> rs_status r \<in> {429, 503}"
  using jitter_bounds(1) [of u] retry_after_nonneg [of date r]
  by (auto simp: admission_retry_delay_def admission_delay_def is_backpressure_503_def Let_def split: if_splits option.splits)

lemma oom_retry_ok:
  "handle_oom_retry date m n u e T r = Inr d \<Longrightarrow> 0 \<le> u \<Longrightarrow> u \<le> 1 \<Longrightarrow> n < m \<and> e < T \<and> 0 \<le> d \<and> e + d \<le> T"
  using oom_backoff_bounds [of u] by (auto simp: handle_oom_retry_def Let_def split: if_splits)

lemma connect_step_ok:
  assumes "connect_step c st t causes = (Again d, st')" and "turn_ok t"
  shows "at_decide t < provision_timeout c \<and> 0 \<le> d \<and> at_decide t + d \<le> provision_timeout c \<and>
    oom_retries st' = oom_retries st \<and> after_capacity_wait st' = after_capacity_wait st"
  using assms compute_retry_delay_ok [of "draw t" "at_decide t" "provision_timeout c" d]
  by (auto simp: connect_step_def turn_ok_def split: if_splits option.splits)

lemma provisioning_step_ok:
  assumes "provisioning_step c st t r = (Again d, st')" and "turn_ok t"
  shows "at_decide t < provision_timeout c \<and> 0 \<le> d \<and> at_decide t + d \<le> provision_timeout c \<and> oom_retries st' = oom_retries st"
  using assms provisioning_delay_ok [of "date_delta c" "wait_for_capacity c" "draw t" "at_decide t" "provision_timeout c" r d]
  by (auto simp: provisioning_step_def turn_ok_def split: sum.splits)

lemma oom_step_ok:
  assumes "oom_step c st t r = (Again d, st')"
  shows "oom_retries st' = Suc (oom_retries st) \<and> oom_retries st < max_oom_retries c" and
    "turn_ok t \<Longrightarrow> at_decide t < provision_timeout c \<and> 0 \<le> d \<and> at_decide t + d \<le> provision_timeout c"
proof -
  from assms have d: "handle_oom_retry (date_delta c) (max_oom_retries c) (oom_retries st) (draw t) (at_decide t)
      (provision_timeout c) r = Inr d" "st' = st\<lparr>oom_retries := Suc (oom_retries st)\<rparr>"
    by (auto simp: oom_step_def split: sum.splits)
  then show "oom_retries st' = Suc (oom_retries st) \<and> oom_retries st < max_oom_retries c"
    by (simp add: handle_oom_retry_def Let_def split: if_splits)
  show "turn_ok t \<Longrightarrow> at_decide t < provision_timeout c \<and> 0 \<le> d \<and> at_decide t + d \<le> provision_timeout c"
    using oom_retry_ok [OF d(1)] by (simp add: turn_ok_def)
qed

lemma finish_step_ok:
  assumes "finish_step c st t r = (Again d, st')" and "turn_ok t"
  shows "at_decide t < provision_timeout c \<and> 0 \<le> d \<and> at_decide t + d \<le> provision_timeout c"
  using assms admission_delay_ok [of "date_delta c" "draw t" "at_decide t" "provision_timeout c" r d]
    retry_default_nonneg [of model_loading_default_delay_s "date_delta c" r]
  by (auto simp: finish_step_def turn_ok_def delay_defs split: sum.splits option.splits if_splits)

lemma finish_step_state: "finish_step c st t r = (v, st') \<Longrightarrow> st' = st"
  by (auto simp: finish_step_def split: sum.splits option.splits if_splits)

lemma loading_step_ok:
  assumes "loading_step c st t r = (Again d, st')"
  shows "at_decide t < provision_timeout c \<and> 0 \<le> d \<and> at_decide t + d \<le> provision_timeout c \<and> oom_retries st' = oom_retries st"
  using assms retry_default_nonneg [of model_loading_default_delay_s "date_delta c" r]
  by (auto simp: loading_step_def delay_defs split: if_splits)

lemma lora_step_ok:
  assumes "lora_step c st r = (Again d, st')"
  shows "0 \<le> d \<and> oom_retries st' = oom_retries st \<and> after_capacity_wait st' = after_capacity_wait st"
  using assms retry_default_nonneg [of lora_loading_default_delay_s "date_delta c" r]
  by (auto simp: lora_step_def Let_def delay_defs split: if_splits)

text \<open>The arm of the ladder a repeated answer took.\<close>

lemma answer_arm:
  assumes "answer_step op c st t r = (Again d, st')"
  shows "rs_status r = 503 \<and> get_error_code r = Some ''PROVISIONING'' \<and> provisioning_step c st t r = (Again d, st') \<or>
    rs_status r = 503 \<and> get_error_code r = Some ''LORA_LOADING'' \<and> lora_step c st r = (Again d, st') \<or>
    rs_status r = 503 \<and> get_error_code r = Some ''MODEL_LOADING'' \<and> loading_step c st t r = (Again d, st') \<or>
    rs_status r = 503 \<and> get_error_code r = Some ''RESOURCE_EXHAUSTED'' \<and> oom_step c st t r = (Again d, st') \<or>
    \<not> (rs_status r = 503 \<and> get_error_code r = Some ''RESOURCE_EXHAUSTED'') \<and> finish_step c st t r = (Again d, st')"
proof -
  have "raise_if_model_load_failed r = None" and "(if op = Op_extract then raise_if_input_too_long r else None) = None"
    using assms by (auto simp: answer_step_def split: option.splits)
  then show ?thesis using assms by (simp add: answer_step_def split: if_splits)
qed

lemma answer_step_ok:
  assumes "answer_step op c st t r = (Again d, st')" and "turn_ok t"
  shows "0 \<le> d \<and> (\<not> (rs_status r = 503 \<and> get_error_code r = Some ''LORA_LOADING'') \<longrightarrow>
      at_decide t + d \<le> provision_timeout c) \<and>
    (provision_timeout c \<le> at_decide t \<longrightarrow> after_capacity_wait st' = after_capacity_wait st)"
  using answer_arm [OF assms(1)]
proof (elim disjE conjE)
  assume "provisioning_step c st t r = (Again d, st')"
  from provisioning_step_ok [OF this assms(2)] show ?thesis by simp
next
  assume "lora_step c st r = (Again d, st')" and "rs_status r = 503" and "get_error_code r = Some ''LORA_LOADING''"
  with lora_step_ok [OF this(1)] show ?thesis by simp
next
  assume "loading_step c st t r = (Again d, st')"
  from loading_step_ok [OF this] show ?thesis by simp
next
  assume "oom_step c st t r = (Again d, st')"
  from oom_step_ok(2) [OF this assms(2)] show ?thesis by simp
next
  assume "finish_step c st t r = (Again d, st')"
  from finish_step_ok [OF this assms(2)] show ?thesis by simp
qed

lemma answer_step_oom:
  assumes "answer_step op c st t r = (Again d, st')" and "turn_ok t"
  shows "oom_retries st' = oom_retries st + (if rs_status r = 503 \<and> get_error_code r = Some ''RESOURCE_EXHAUSTED'' then 1 else 0) \<and>
    (rs_status r = 503 \<and> get_error_code r = Some ''RESOURCE_EXHAUSTED'' \<longrightarrow> oom_retries st < max_oom_retries c)"
  using answer_arm [OF assms(1)]
proof (elim disjE conjE)
  assume "provisioning_step c st t r = (Again d, st')" and "get_error_code r = Some ''PROVISIONING''"
  with provisioning_step_ok [OF this(1) assms(2)] show ?thesis by simp
next
  assume "lora_step c st r = (Again d, st')" and "get_error_code r = Some ''LORA_LOADING''"
  with lora_step_ok [OF this(1)] show ?thesis by simp
next
  assume "loading_step c st t r = (Again d, st')" and "get_error_code r = Some ''MODEL_LOADING''"
  with loading_step_ok [OF this(1)] show ?thesis by simp
next
  assume "oom_step c st t r = (Again d, st')" and "rs_status r = 503" and "get_error_code r = Some ''RESOURCE_EXHAUSTED''"
  with oom_step_ok(1) [OF this(1)] show ?thesis by simp
next
  assume "finish_step c st t r = (Again d, st')" and "\<not> (rs_status r = 503 \<and> get_error_code r = Some ''RESOURCE_EXHAUSTED'')"
  with finish_step_state [OF this(1)] show ?thesis by auto
qed

text \<open>The ways a turn of the idempotent loops ends in another attempt.\<close>

lemma idempotent_arm:
  assumes "idempotent_step op c st t = (Again d, st')"
  obtains (connect) causes where "sent_to t = Connect_failed causes"
      "connect_step c (st\<lparr>after_capacity_wait := False\<rparr>) t causes = (Again d, st')"
    | (transport) "sent_to t = Transport_failed" "st' = st\<lparr>after_capacity_wait := False\<rparr>"
      "compute_retry_delay (draw t) (at_decide t) (provision_timeout c) = Some d"
    | (answer) r where "sent_to t = Answered r" "answer_step op c (st\<lparr>after_capacity_wait := False\<rparr>) t r = (Again d, st')"
  using assms by (cases "sent_to t") (auto simp: idempotent_step_def Let_def split: if_splits option.splits)

lemma idempotent_late:
  assumes "turn_ok t" and "idempotent_step op c st t = (Again d, st')" and "provision_timeout c \<le> at_decide t"
  shows "\<not> after_capacity_wait st'"
  using assms(2)
proof (cases rule: idempotent_arm)
  case (connect causes)
  from connect_step_ok [OF connect(2) assms(1)] show ?thesis by simp
next
  case (answer r)
  from answer_step_ok [OF answer(2) assms(1)] assms(3) show ?thesis by simp
qed simp

lemma idempotent_wait:
  assumes "turn_ok t" and "idempotent_step op c st t = (Again d, st')"
  shows "0 \<le> d \<and> (\<not> lora_turn t \<longrightarrow> at_decide t + d \<le> provision_timeout c)"
  using assms(2)
proof (cases rule: idempotent_arm)
  case (connect causes)
  from connect_step_ok [OF connect(2) assms(1)] show ?thesis by simp
next
  case transport
  with compute_retry_delay_ok [OF transport(3)] assms(1) show ?thesis by (simp add: turn_ok_def)
next
  case (answer r)
  from answer_step_ok [OF answer(2) assms(1)] answer(1) show ?thesis by (simp add: lora_turn_def)
qed

lemma idempotent_oom:
  assumes "turn_ok t" and "idempotent_step op c st t = (Again d, st')"
  shows "oom_retries st' = oom_retries st + (if oom_turn t then 1 else 0) \<and> (oom_turn t \<longrightarrow> oom_retries st < max_oom_retries c)"
  using assms(2)
proof (cases rule: idempotent_arm)
  case (connect causes)
  from connect_step_ok [OF connect(2) assms(1)] connect(1) show ?thesis by (simp add: oom_turn_def)
next
  case transport
  then show ?thesis by (simp add: oom_turn_def)
next
  case (answer r)
  from answer_step_oom [OF answer(2) assms(1)] answer(1) show ?thesis by (simp add: oom_turn_def)
qed

interpretation idempotent_loop: retry_loop "idempotent_step op" for op
proof unfold_locales
  show "idempotent_step op c st t = (Unsent, st)" if "budget_spent c st t" for c st t
    using that by (simp add: idempotent_step_def)
qed (fact idempotent_late idempotent_wait idempotent_oom)+

lemma generate_arm:
  assumes "generate_answer c st t r = (Again d, st')"
  shows "rs_status r = 503 \<and> get_error_code r = Some ''PROVISIONING'' \<and> provisioning_step c st t r = (Again d, st') \<or>
    rs_status r = 503 \<and> get_error_code r = Some ''MODEL_LOADING'' \<and> st' = st \<and> 0 \<le> d \<and> at_decide t + d < provision_timeout c \<or>
    rs_status r = 503 \<and> get_error_code r = Some ''RESOURCE_EXHAUSTED'' \<and> oom_step c st t r = (Again d, st') \<or>
    \<not> (rs_status r = 503 \<and> get_error_code r = Some ''RESOURCE_EXHAUSTED'') \<and> st' = st \<and>
      admission_retry_delay (date_delta c) (draw t) (at_decide t) (provision_timeout c) r = Inr (Some d)"
proof -
  have "raise_if_model_load_failed r = None" using assms by (auto simp: generate_answer_def Let_def split: option.splits)
  then show ?thesis
    using assms retry_default_nonneg [of model_loading_default_delay_s "date_delta c" r]
    by (auto simp: generate_answer_def Let_def delay_defs split: if_splits sum.splits option.splits)
qed

lemma generate_answer_ok:
  assumes "generate_answer c st t r = (Again d, st')" and "turn_ok t"
  shows "rs_status r \<in> {429, 503} \<and> 0 \<le> d \<and> at_decide t < provision_timeout c \<and> at_decide t + d \<le> provision_timeout c"
  using generate_arm [OF assms(1)]
proof (elim disjE conjE)
  assume "provisioning_step c st t r = (Again d, st')" and "rs_status r = 503"
  with provisioning_step_ok [OF this(1) assms(2)] show ?thesis by simp
next
  assume "oom_step c st t r = (Again d, st')" and "rs_status r = 503"
  with oom_step_ok(2) [OF this(1) assms(2)] show ?thesis by simp
next
  assume "admission_retry_delay (date_delta c) (draw t) (at_decide t) (provision_timeout c) r = Inr (Some d)"
  from admission_delay_ok [OF this] assms(2) show ?thesis by (simp add: turn_ok_def)
qed simp

lemma generate_answer_oom:
  assumes "generate_answer c st t r = (Again d, st')" and "turn_ok t"
  shows "oom_retries st' = oom_retries st + (if rs_status r = 503 \<and> get_error_code r = Some ''RESOURCE_EXHAUSTED'' then 1 else 0) \<and>
    (rs_status r = 503 \<and> get_error_code r = Some ''RESOURCE_EXHAUSTED'' \<longrightarrow> oom_retries st < max_oom_retries c)"
  using generate_arm [OF assms(1)]
proof (elim disjE conjE)
  assume "provisioning_step c st t r = (Again d, st')" and "get_error_code r = Some ''PROVISIONING''"
  with provisioning_step_ok [OF this(1) assms(2)] show ?thesis by simp
next
  assume "oom_step c st t r = (Again d, st')" and "rs_status r = 503" and "get_error_code r = Some ''RESOURCE_EXHAUSTED''"
  with oom_step_ok(1) [OF this(1)] show ?thesis by simp
qed auto

lemma stream_delay_ok:
  assumes "next_stream_retry_delay c n t r = Inr (d, n')" and "turn_ok t"
  shows "rs_status r \<in> {429, 503} \<and> 0 \<le> d \<and> at_decide t < provision_timeout c \<and> at_decide t + d \<le> provision_timeout c \<and>
    n' = n + (if rs_status r = 503 \<and> get_error_code r = Some ''RESOURCE_EXHAUSTED'' then 1 else 0) \<and>
    (rs_status r = 503 \<and> get_error_code r = Some ''RESOURCE_EXHAUSTED'' \<longrightarrow> n < max_oom_retries c)"
proof -
  have none: "raise_if_model_load_failed r = None" "raise_if_input_too_long r = None"
    using assms(1) by (auto simp: next_stream_retry_delay_def Let_def split: option.splits)
  consider (prov) "rs_status r = 503" "get_error_code r = Some ''PROVISIONING''"
    | (load) "rs_status r = 503" "get_error_code r = Some ''MODEL_LOADING''"
    | (oom) "rs_status r = 503" "get_error_code r = Some ''RESOURCE_EXHAUSTED''"
    | (other) "\<not> (rs_status r = 503 \<and> get_error_code r \<in> {Some ''PROVISIONING'', Some ''MODEL_LOADING'', Some ''RESOURCE_EXHAUSTED''})"
    by blast
  then show ?thesis
  proof cases
    case prov
    with assms none provisioning_delay_ok [of "date_delta c" "wait_for_capacity c" "draw t" "at_again t" "provision_timeout c" r d]
    show ?thesis by (auto simp: next_stream_retry_delay_def Let_def turn_ok_def)
  next
    case load
    with assms none retry_default_nonneg [of model_loading_default_delay_s "date_delta c" r]
    show ?thesis by (auto simp: next_stream_retry_delay_def Let_def delay_defs split: if_splits)
  next
    case oom
    with assms none oom_backoff_bounds [of "draw t" "get_retry_after (date_delta c) r" n]
    show ?thesis by (auto simp: next_stream_retry_delay_def Let_def turn_ok_def split: if_splits)
  next
    case other
    then have "admission_retry_delay (date_delta c) (draw t) (at_again t) (provision_timeout c) r = Inr (Some d) \<and> n' = n"
      using assms none by (auto simp: next_stream_retry_delay_def Let_def split: if_splits option.splits)
    with admission_delay_ok [of "date_delta c" "draw t" "at_again t" "provision_timeout c" r d] assms(2) other
    show ?thesis by (auto simp: turn_ok_def)
  qed
qed

lemma generate_turn_arm:
  assumes "generate_step c st t = (Again d, st')"
  obtains (connect) causes where "sent_to t = Connect_failed causes"
      "connect_step c (st\<lparr>after_capacity_wait := False\<rparr>) t causes = (Again d, st')"
    | (answer) r where "sent_to t = Answered r" "generate_answer c (st\<lparr>after_capacity_wait := False\<rparr>) t r = (Again d, st')"
  using assms by (cases "sent_to t") (auto simp: generate_step_def Let_def split: if_splits)

lemma responses_turn_arm:
  assumes "responses_step c st t = (Again d, st')"
  obtains (connect) causes where "sent_to t = Connect_failed causes"
      "connect_step c (st\<lparr>after_capacity_wait := False\<rparr>) t causes = (Again d, st')"
    | (answer) r n where "sent_to t = Answered r" "next_stream_retry_delay c (oom_retries st) t r = Inr (d, n)"
      "oom_retries st' = n"
  using assms by (cases "sent_to t") (auto simp: responses_step_def Let_def split: if_splits sum.splits)



text \<open>A repeated turn of the generation loops is decided in time and counted.\<close>

definition repeat_ok :: "retry_config \<Rightarrow> retry_state \<Rightarrow> turn \<Rightarrow> real \<Rightarrow> retry_state \<Rightarrow> bool" where
  "repeat_ok c st t d st' =
     (0 \<le> d \<and> at_decide t < provision_timeout c \<and> at_decide t + d \<le> provision_timeout c \<and>
      oom_retries st' = oom_retries st + (if oom_turn t then 1 else 0) \<and> (oom_turn t \<longrightarrow> oom_retries st < max_oom_retries c))"

lemma generate_repeat:
  assumes "generate_step c st t = (Again d, st')" and "turn_ok t"
  shows "repeat_ok c st t d st'"
  using assms(1)
proof (cases rule: generate_turn_arm)
  case (connect causes)
  from connect_step_ok [OF connect(2) assms(2)] connect(1) show ?thesis
    by (simp add: repeat_ok_def oom_turn_def)
next
  case (answer r)
  from generate_answer_ok [OF answer(2) assms(2)] generate_answer_oom [OF answer(2) assms(2)] answer(1) show ?thesis
    by (simp add: repeat_ok_def oom_turn_def)
qed

lemma responses_repeat:
  assumes "responses_step c st t = (Again d, st')" and "turn_ok t"
  shows "repeat_ok c st t d st'"
  using assms(1)
proof (cases rule: responses_turn_arm)
  case (connect causes)
  from connect_step_ok [OF connect(2) assms(2)] connect(1) show ?thesis
    by (simp add: repeat_ok_def oom_turn_def)
next
  case (answer r n)
  from stream_delay_ok [OF answer(2) assms(2)] answer(1,3) show ?thesis
    by (simp add: repeat_ok_def oom_turn_def)
qed

interpretation generate_loop: retry_loop generate_step
proof unfold_locales
  show "generate_step c st t = (Unsent, st)" if "budget_spent c st t" for c st t
    using that by (simp add: generate_step_def)
qed (auto dest!: generate_repeat simp: repeat_ok_def)

interpretation responses_loop: retry_loop responses_step
proof unfold_locales
  show "responses_step c st t = (Unsent, st)" if "budget_spent c st t" for c st t
    using that by (simp add: responses_step_def)
qed (auto dest!: responses_repeat simp: repeat_ok_def)

section \<open>Properties\<close>


lemma clocked_mem: "clocked dt tr \<Longrightarrow> (t, v) \<in> set tr \<Longrightarrow> turn_ok t"
  by (induction dt tr rule: clocked.induct) auto

text \<open>
  C15. Every loop ends: when each turn takes at least a time \<open>dt\<close>, the number of turns is at most the budget divided by it,
  plus two: one attempt after a wait that used up the budget, and the turn that finds it spent.
\<close>

theorem retries_end:
  assumes "f \<in> {encode_step, score_step, extract_step, generate_step, responses_step, chat_step}"
    and "clocked dt (turns (f c) st ts)" and "0 < dt" and "ts \<noteq> []"
  shows "length (turns (f c) st ts) \<le> nat \<lceil>(provision_timeout c - at_top (hd ts)) / dt\<rceil> + 2"
  using assms(1,2) idempotent_loop.turns_bounded [OF _ assms(3,4)] generate_loop.turns_bounded [OF _ assms(3,4)]
    responses_loop.turns_bounded [OF _ assms(3,4)]
  by (auto simp: encode_step_def score_step_def extract_step_def chat_step_def)

text \<open>
  C13. The deadline holds up to one attempt: a call sends at most one request after its budget is spent, every wait
  not caused by a loading LoRA ends within the budget, and the retries for exhausted resources are at most the limit.
\<close>

theorem retries_within_budget:
  assumes "f \<in> {encode_step, score_step, extract_step, generate_step, responses_step, chat_step}"
    and "clocked 0 (turns (f c) retry_start ts)"
  shows "length (filter (\<lambda>(t, v). v \<noteq> Unsent \<and> provision_timeout c \<le> at_top t) (turns (f c) retry_start ts)) \<le> 1 \<and>
    (\<forall>t d. (t, Again d) \<in> set (turns (f c) retry_start ts) \<and> \<not> lora_turn t \<longrightarrow> 0 \<le> d \<and> at_decide t + d \<le> provision_timeout c) \<and>
    length (filter (\<lambda>(t, v). oom_turn t \<and> (\<exists>d. v = Again d)) (turns (f c) retry_start ts)) \<le> max_oom_retries c"
proof -
  have "retry_loop f" using assms(1) idempotent_loop.retry_loop_axioms generate_loop.retry_loop_axioms
      responses_loop.retry_loop_axioms by (auto simp: encode_step_def score_step_def extract_step_def chat_step_def)
  from retry_loop.one_late_attempt [OF this assms(2)] retry_loop.waits_in_budget [OF this assms(2)]
    retry_loop.oom_bounded [OF this assms(2)]
  show ?thesis by (auto simp: retry_start_def)
qed

lemma answer_status: "answer_step op c st t r = (Again d, st') \<Longrightarrow> rs_status r \<in> {429, 503, 504}"
  by (drule answer_arm) (auto simp: finish_step_def admission_retry_delay_def is_backpressure_503_def Let_def
      split: sum.splits option.splits if_splits)

lemma generate_status: "generate_answer c st t r = (Again d, st') \<Longrightarrow> rs_status r \<in> {429, 503}"
  by (drule generate_arm) (auto simp: admission_retry_delay_def is_backpressure_503_def Let_def split: if_splits)

lemma stream_status: "next_stream_retry_delay c n t r = Inr (d, n') \<Longrightarrow> rs_status r \<in> {429, 503}"
  by (auto simp: next_stream_retry_delay_def admission_retry_delay_def is_backpressure_503_def Let_def
      split: option.splits if_splits)






text \<open>
  C22. Refusals are final: in every loop, an answer whose status is not 429, 503 or 504 is never followed by another attempt.
  This covers missing credit (402) and inactive accounts (403).
\<close>

theorem refusals_final:
  assumes "f \<in> {encode_step, score_step, extract_step, generate_step, responses_step, chat_step}"
    and "sent_to t = Answered r" and "rs_status r \<notin> {429, 503, 504}"
  shows "f c st t \<noteq> (Again d, st')"
proof
  assume "f c st t = (Again d, st')"
  with assms(1) consider op where "idempotent_step op c st t = (Again d, st')" | "generate_step c st t = (Again d, st')"
    | "responses_step c st t = (Again d, st')"
    by (auto simp: encode_step_def score_step_def extract_step_def chat_step_def)
  then show False
  proof cases
    case 1
    then show ?thesis by (rule idempotent_arm) (use assms(2,3) in \<open>auto dest!: answer_status\<close>)
  next
    case 2
    then show ?thesis by (rule generate_turn_arm) (use assms(2,3) in \<open>auto dest!: generate_status\<close>)
  next
    case 3
    then show ?thesis by (rule responses_turn_arm) (use assms(2,3) in \<open>auto dest!: stream_status\<close>)
  qed
qed

text \<open>
  The backoff for exhausted resources is between 0 and 30 seconds, and no attempt waits less than the server asked
  for as long as the server asks for at most 22.5 seconds.
\<close>

theorem oom_backoff_schedule:
  assumes "0 \<le> u" and "u \<le> 1"
  shows "0 \<le> compute_oom_backoff u hint n \<and> compute_oom_backoff u hint n \<le> 30 \<and>
    (\<forall>h. hint = Some h \<and> h \<le> 45 / 2 \<longrightarrow> h \<le> compute_oom_backoff u hint n)"
proof -
  have "h \<le> compute_oom_backoff u (Some h) n" if h: "h \<le> 45 / 2" for h
  proof (cases n)
    case (Suc k)
    have "(1::real) \<le> 2 ^ k" by simp
    then have "2 * max 5 (max h 0) \<le> max 5 (max h 0) * 2 ^ n"
      unfolding Suc using mult_left_mono [of 1 "2 ^ k" "2 * max 5 (max h 0)"] by (simp add: ac_simps)
    then have "h \<le> 3 / 4 * max 0 (min (max 5 (max h 0) * 2 ^ n) 30)" using h by (simp add: max_def min_def split: if_splits)
    also have "\<dots> \<le> compute_oom_backoff u (Some h) n"
      using Suc jitter_bounds(3) [OF assms] by (simp add: compute_oom_backoff_def delay_defs)
    finally show ?thesis .
  qed (use h in \<open>simp add: compute_oom_backoff_def delay_defs\<close>)
  then show ?thesis using oom_backoff_bounds [OF assms] by blast
qed

text \<open>Above that, the jitter of a later attempt can undercut the wait the server asked for.\<close>

theorem oom_backoff_undercuts_hint:
  "compute_oom_backoff 0 (Some 30) 0 = 30 \<and> compute_oom_backoff 0 (Some 30) 1 = 45 / 2"
  by (simp add: compute_oom_backoff_def delay_defs apply_jitter_def retry_jitter_fraction_def)

text \<open>An HTTP date in the past is a hint to wait for no time at all.\<close>

theorem past_date_waits_zero:
  assumes "rs_retry_after r = Some t" and "t \<noteq> []" and "text_to_float t = Inl e" and "date t = Some delta" and "delta < 0"
  shows "get_retry_after date r = Some 0"
  using assms by (simp add: get_retry_after_def)

text \<open>A 403 whose code is a list or an object ends in \<^verbatim>\<open>TypeError\<close> instead of one of the client's errors.\<close>

theorem forbidden_unhashable_code:
  assumes "rs_status r = 403" and "rs_code_header r = None" and "rs_body r = Some (PDict [(''error'', PDict [(''code'', PList xs)])])"
  shows "handle_error date r = Python_error TypeError"
  using assms by (simp add: handle_error_def error_code_of_def header_code_def get_error_detail_def normalize_error_code_def
      unhashable_def od_mem_def od_keys_def py_get_def Let_def)

section \<open>Continuations\<close>

text \<open>A path of the request in flight: it comes from a URL of the client's own origin that carries one attempt token.\<close>

definition same_request :: "url_lib \<Rightarrow> string \<Rightarrow> string \<Rightarrow> bool" where
  "same_request lib base p =
     (\<exists>resolved u parts q t. joined lib base resolved = Inr u \<and> http_origin lib u = http_origin lib base \<and>
        http_origin lib base \<noteq> None \<and> urlsplit lib resolved = Inr parts \<and> u_fragment parts = [] \<and>
        parse_qsl lib (u_query parts) = Inr q \<and> filter (\<lambda>(k, v). k = ''__modal_attempt_token'') q = [(''__modal_attempt_token'', t)] \<and>
        t \<noteq> [] \<and> attempt_path lib resolved = Some p)"

lemma attempt_path_token:
  assumes "attempt_path lib resolved = Some p"
  obtains parts q t where "urlsplit lib resolved = Inr parts" "u_fragment parts = []" "parse_qsl lib (u_query parts) = Inr q"
    "filter (\<lambda>(k, v). k = ''__modal_attempt_token'') q = [(''__modal_attempt_token'', t)]" "t \<noteq> []"
proof -
  obtain parts q where u: "urlsplit lib resolved = Inr parts" "parse_qsl lib (u_query parts) = Inr q"
    using assms by (cases "urlsplit lib resolved"; cases "parse_qsl lib (u_query (projr (urlsplit lib resolved)))")
      (auto simp: attempt_path_def)
  let ?ts = "filter (\<lambda>(k, v). k = ''__modal_attempt_token'') q"
  have f: "u_fragment parts = []" "length ?ts = 1" "hd (map snd ?ts) \<noteq> []"
    using assms u by (auto simp: attempt_path_def Let_def split: if_splits)
  from f(2) obtain k t where ts: "?ts = [(k, t)]" by (cases ?ts) auto
  then have "(k, t) \<in> set ?ts" by simp
  then have "k = ''__modal_attempt_token''" by simp
  with that u f ts show ?thesis by simp
qed

lemma continuation_same_request: "modal_continuation_path lib base r = Inr (Some p) \<Longrightarrow> same_request lib base p"
proof -
  assume "modal_continuation_path lib base r = Inr (Some p)"
  then obtain resolved where m: "request_matches_base_url_origin lib base resolved = Inr True"
    and a: "attempt_path lib resolved = Some p"
    by (cases "rs_location r"; cases "joined lib base (the (rs_location r))";
        cases "request_matches_base_url_origin lib base (projr (joined lib base (the (rs_location r))))")
      (auto simp: modal_continuation_path_def split: if_splits)
  from m obtain u where u: "joined lib base resolved = Inr u" "http_origin lib u = http_origin lib base"
    "http_origin lib base \<noteq> None"
    by (cases "joined lib base resolved") (auto simp: request_matches_base_url_origin_def split: option.splits)
  show ?thesis by (rule attempt_path_token [OF a]) (use u a in \<open>unfold same_request_def, blast\<close>)
qed

lemma follow_hops_safe:
  "follow_hops lib base budget clock get hops r = (paths, out) \<Longrightarrow>
     length paths \<le> hops \<and> (\<forall>p \<in> set paths. same_request lib base p) \<and>
     (\<forall>r'. out = Answered r' \<longrightarrow> modal_continuation_path lib base r' = Inr None)"
proof (induction hops arbitrary: r paths out)
  case 0
  then show ?case by (auto split: sum.splits option.splits)
next
  case (Suc n)
  show ?case
  proof (cases "\<exists>p r'. modal_continuation_path lib base r = Inr (Some p) \<and> budget - clock n > 0 \<and> get n p = Some r'")
    case True
    then obtain p r' where p: "modal_continuation_path lib base r = Inr (Some p)" "budget - clock n > 0" "get n p = Some r'"
      by blast
    obtain ps o' where rest: "follow_hops lib base budget clock get n r' = (ps, o')" by (cases "follow_hops lib base budget clock get n r'")
    with p Suc.prems have "paths = p # ps" "out = o'" by auto
    with Suc.IH [OF rest] continuation_same_request [OF p(1)] show ?thesis by auto
  next
    case False
    with Suc.prems show ?thesis
      by (auto split: sum.splits option.splits if_splits intro: continuation_same_request)
  qed
qed

text \<open>
  C17. Following a continuation is safe: at most 20 paths are fetched, each comes from a URL of the client's own
  origin that carries one attempt token, and the response handed on is not itself a continuation.
\<close>

theorem continuations_safe:
  assumes "follow_modal_continuations lib base budget clock get r = (paths, out)"
  shows "length paths \<le> 20 \<and> (\<forall>p \<in> set paths. same_request lib base p) \<and>
    (\<forall>r'. out = Answered r' \<longrightarrow> modal_continuation_path lib base r' = Inr None)"
  using follow_hops_safe [of lib base budget clock get 20 r paths out] assms
  by (simp add: follow_modal_continuations_def modal_continuation_max_hops_def)

text \<open>A location the library cannot join leaves the call with the library's error: the join is outside the handler.\<close>

theorem malformed_location_escapes:
  assumes "rs_status r = 303" and "rs_location r = Some l" and "l \<noteq> []" and "length l \<le> 8192"
    and "\<forall>c \<in> set l. \<not> (of_char c :: nat) < 32 \<and> (of_char c :: nat) \<noteq> 127" and "joined lib base l = Inl e"
  shows "follow_modal_continuations lib base budget clock get r = ([], Lost (Python_error e))"
  using assms by (auto simp: follow_modal_continuations_def modal_continuation_path_def modal_continuation_max_hops_def eval_nat_numeral)

section \<open>A call\<close>

definition demo_client :: retry_config where
  "demo_client = \<lparr>date_delta = (\<lambda>t. if t = ''yesterday'' then Some (- 1) else None), transient_errnos = [111],
     wait_for_capacity = True, provision_timeout = 10, max_oom_retries = 3\<rparr>"

definition demo_busy :: http_response where
  "demo_busy = \<lparr>rs_status = 503, rs_code_header = Some ''PROVISIONING'', rs_retry_after = None, rs_location = None, rs_body = None\<rparr>"

definition demo_turns :: "turn list" where
  "demo_turns =
     [\<lparr>at_top = 0, sent_to = Answered demo_busy, at_decide = 1, at_again = 1, draw = 1\<rparr>,
      \<lparr>at_top = 6, sent_to = Answered (demo_busy\<lparr>rs_status := 200\<rparr>), at_decide = 7, at_again = 7, draw = 0\<rparr>]"

lemma demo_call:
  "turns (generate_step demo_client) retry_start demo_turns = [(demo_turns ! 0, Again 5), (demo_turns ! 1, Succeeded)]"
  by (simp add: demo_turns_def demo_client_def demo_busy_def retry_start_def generate_step_def budget_spent_def
      generate_answer_def raise_if_model_load_failed_def get_error_code_def header_code_def provisioning_step_def
      provisioning_retry_delay_def get_retry_after_def apply_jitter_def retry_jitter_fraction_def default_retry_delay_s_def
      admission_retry_delay_def is_backpressure_503_def Let_def)

lemma demo_clocked: "clocked 1 (turns (generate_step demo_client) retry_start demo_turns)"
    "clocked 0 (turns (generate_step demo_client) retry_start demo_turns)"
  by (simp_all add: demo_call) (simp_all add: demo_turns_def turn_ok_def)

definition demo_urls :: url_lib where
  "demo_urls =
     \<lparr>urlsplit = (\<lambda>u. Inr \<lparr>u_scheme = ''https'', u_host = Some ''gw'', u_port = Inr None, u_userinfo = False, u_path = ''/r'',
        u_query = (if u = ''https://gw/r?q'' then ''q'' else []), u_fragment = []\<rparr>),
      urljoin = (\<lambda>base u. if u = ''http://['' then Inl (ValueError ''Invalid IPv6 URL'') else Inr (if u = ''/r?q'' then ''https://gw/r?q'' else u)),
      parse_qsl = (\<lambda>q. Inr [(''__modal_attempt_token'', q)])\<rparr>"

definition demo_moved :: http_response where
  "demo_moved = \<lparr>rs_status = 303, rs_code_header = None, rs_retry_after = None, rs_location = Some ''/r?q'', rs_body = None\<rparr>"

lemma demo_follow:
  "follow_modal_continuations demo_urls ''https://gw'' 10 (\<lambda>n. 1) (\<lambda>n p. Some demo_busy) demo_moved = ([''/r?q''], Answered demo_busy)"
proof -
  have "modal_continuation_path demo_urls ''https://gw'' demo_moved = Inr (Some ''/r?q'')" by code_simp
  moreover have "modal_continuation_path demo_urls ''https://gw'' demo_busy = Inr None" by code_simp
  ultimately show ?thesis by (simp add: follow_modal_continuations_def modal_continuation_max_hops_def eval_nat_numeral)
qed

theorem continuations_safe_witness: "same_request demo_urls ''https://gw'' ''/r?q''"
  using continuations_safe [OF demo_follow] by simp

theorem malformed_location_escapes_witness:
  "follow_modal_continuations demo_urls ''https://gw'' 10 (\<lambda>n. 1) (\<lambda>n p. None) (demo_moved\<lparr>rs_location := Some ''http://[''\<rparr>) =
     ([], Lost (Python_error (ValueError ''Invalid IPv6 URL'')))"
  by (rule malformed_location_escapes [where l = "''http://[''"]) (simp_all add: demo_moved_def demo_urls_def joined_def)


theorem retries_end_witness:
  "length (turns (generate_step demo_client) retry_start demo_turns) \<le> nat \<lceil>(provision_timeout demo_client - at_top (hd demo_turns)) / 1\<rceil> + 2"
  by (rule retries_end [where f = generate_step]) (use demo_clocked(1) in \<open>simp_all add: demo_turns_def\<close>)

theorem retries_within_budget_witness:
  "length (filter (\<lambda>(t, v). v \<noteq> Unsent \<and> provision_timeout demo_client \<le> at_top t)
     (turns (generate_step demo_client) retry_start demo_turns)) \<le> 1"
  using retries_within_budget [where f = generate_step, of demo_client demo_turns] demo_clocked(2) by simp

theorem refusals_final_witness:
  "encode_step demo_client retry_start ((demo_turns ! 0)\<lparr>sent_to := Answered (demo_busy\<lparr>rs_status := 402\<rparr>)\<rparr>) \<noteq> (Again 1, retry_start)"
  by (rule refusals_final [where f = encode_step and r = "demo_busy\<lparr>rs_status := 402\<rparr>"]) simp_all

theorem oom_backoff_schedule_witness: "(20::real) \<le> compute_oom_backoff 0 (Some 20) 1"
  using oom_backoff_schedule [of 0 "Some 20" 1] by simp

theorem past_date_waits_zero_witness:
  "get_retry_after (date_delta demo_client) (demo_busy\<lparr>rs_retry_after := Some ''yesterday''\<rparr>) = Some 0"
proof -
  have "case text_to_float ''yesterday'' of Inl e \<Rightarrow> True | Inr v \<Rightarrow> False" by code_simp
  then obtain e where "text_to_float ''yesterday'' = Inl e" by (auto split: sum.splits)
  then show ?thesis by (intro past_date_waits_zero [where t = "''yesterday''" and delta = "- 1"]) (simp_all add: demo_client_def)
qed

theorem forbidden_unhashable_code_witness:
  "handle_error (date_delta demo_client) \<lparr>rs_status = 403, rs_code_header = None, rs_retry_after = None, rs_location = None,
     rs_body = Some (PDict [(''error'', PDict [(''code'', PList [])])])\<rparr> = Python_error TypeError"
  by (rule forbidden_unhashable_code) simp_all

end
