(* ===== verification/Spec2Isabelle.thy ===== *)
theory Spec2Isabelle
  imports Progress_Batcher Work_Class_Scheduler Memory Grammar_Cache Disk_Cache Adaptive_Batching Oom_Recovery
    Generation_Pipeline Kv_Admission Generate_Request Client_Retry
begin

text \<open>
  Verification of the inference server \<^verbatim>\<open>sie_server\<close> (\<^verbatim>\<open>src/packages/sie_server/src/sie_server\<close>; paths
  below are relative to it) and of the retry policy of its Python client. A worker of this server receives requests, forms batches of them, runs
  the batches on a device whose memory it manages, and streams the text of generation models through
  a stack of filters to the client. The development models these mechanisms as HOL functions
  translated from the Python source and proves what they promise.

  \<^bold>\<open>Conventions\<close> (\<open>Sie_Prelude\<close>, \<open>Py_Text\<close>, \<open>Py_Convert\<close>). A Python \<^verbatim>\<open>int\<close> is an \<^typ>\<open>int\<close>, a float a
  \<^typ>\<open>real\<close> (rounding is outside the model; \<open>py_float\<close> has the infinities and NaN where the code tests
  for them), a string a list of characters, read as ASCII. An exception is \<open>Inl\<close>, a dictionary an
  association list in insertion order (\<open>odict\<close>), a mutable object a record that operations return
  updated. Readings of the clock, devices, tokenizers, adapters and packages that are not part of the
  sources are arguments. An asynchronous generator is a function on the list of its chunks; code
  between two suspension points is one step.

  \<^bold>\<open>Batching\<close>. \<open>Batcher\<close> is \<^verbatim>\<open>core/batcher.py\<close>: the cost-bounded batch former with its lanes and its
  fairness flag. \<open>Progress_Batcher\<close> is \<^verbatim>\<open>core/progress_batcher.py\<close>. Both provide the interface
  \<open>batch_queue\<close>. The lemmas show that every request leaves in exactly one batch, that batches respect
  the limits, and how long a request can be passed over. \<open>Adaptive_Batching\<close> is the controller of
  \<^verbatim>\<open>core/adaptive_batching.py\<close>: its knobs stay within their bounds and starvation is left again.
  \<open>Work_Class_Scheduler\<close> is \<^verbatim>\<open>processors/work_class_scheduler.py\<close>: slots, floors and weighted fair
  sharing between classes of work.

  \<^bold>\<open>Memory and stores\<close>. \<open>Memory\<close> is \<^verbatim>\<open>core/memory.py\<close> with \<^verbatim>\<open>core/residency.py\<close>, \<open>Grammar_Cache\<close> is
  \<^verbatim>\<open>processors/grammar_cache.py\<close>, \<open>Disk_Cache\<close> is \<^verbatim>\<open>core/disk_cache.py\<close>. What the stores share, the
  recency discipline, is the locale \<open>lru_store\<close> of the prelude, interpreted on each. \<open>Oom_Recovery\<close> is
  \<^verbatim>\<open>core/oom.py\<close> with \<^verbatim>\<open>core/worker/oom_recovery.py\<close>: whatever the device does, every item of a group
  is answered, with a bounded number of dispatches.

  \<^bold>\<open>Generation streams\<close>. \<open>Generation_Chunk\<close> has the chunks of \<^verbatim>\<open>adapters/_generation_base.py\<close>,
  \<open>Text_Scan\<close> the search for markers in text that arrives in pieces. \<open>Thinking_Blocks\<close> hides reasoning
  blocks, \<open>Generation_Collect\<close> is the buffered consumer. \<open>Tool_Schema\<close> and \<open>Tool_Call_Parser\<close> are
  \<^verbatim>\<open>processors/tool_call_parser.py\<close>; \<open>Tool_Call_Stream\<close> proves about them that the cuts between chunks
  do not matter, that a stream delivers the reading of the whole text up to the first bad block, reported as an error,
  and that the one-shot parser agrees where there is none; its loop invariants are
  instances of the locale \<open>loop_contract\<close>. The identifiers of calls are random: a call of the parser draws one for its
  place (\<open>id_site\<close>), and statements compare calls without them. \<open>Hybrid_Usage\<close> is \<^verbatim>\<open>processors/hybrid_usage.py\<close>,
  \<open>Strict_Grammar\<close> is \<^verbatim>\<open>processors/strict_grammar.py\<close>. \<open>Generation_Pipeline\<close> stacks the filters as
  \<^verbatim>\<open>processors/streaming.py\<close> does and proves the end-to-end statements.

  \<^bold>\<open>Admission\<close>. \<open>Kv_Admission\<close> is the token ledger, the cancel handles and the tombstones of
  \<^verbatim>\<open>processors/streaming.py\<close>, with \<^verbatim>\<open>processors/admission.py\<close>, \<^verbatim>\<open>health/saturation.py\<close> and
  \<^verbatim>\<open>core/readiness.py\<close>. The life of an attempt is the inductive relation \<open>proc_step\<close>; the ledger and the
  handles are invariants of its runs, by rule induction.

  \<^bold>\<open>Requests\<close>. \<open>Chat_Content\<close> has the parsers for the content of a message in \<^verbatim>\<open>processors/streaming.py\<close>:
  data URIs, images, clips and their layout. \<open>Runtime_Options\<close> is \<^verbatim>\<open>core/runtime_options.py\<close> with profile
  resolution (\<^verbatim>\<open>config/model.py\<close>) and LoRA selectors (\<^verbatim>\<open>types/lora.py\<close>): the caller's fields win over
  defaults, a constrained request is greedy, only declared LoRAs are selected, and the cache of resolved
  profiles, an instance of \<open>step_invariant\<close>, is transparent. \<open>Generate_Request\<close> is the validator
  \<^verbatim>\<open>_validate_generate_params\<close>. A request is accepted, refused (\<open>Invalid\<close>) or ends in an exception the validator
  does not catch (\<open>Raised\<close>); the lemmas bound what is accepted, connect it to \<open>Strict_Grammar\<close>, and say
  on which requests and configurations nothing escapes and on which something does.

  \<^bold>\<open>The client\<close>. \<open>Client_Retry\<close> is the retry policy of \<^verbatim>\<open>client/_shared.py\<close> and \<^verbatim>\<open>client/sync.py\<close> in
  \<^verbatim>\<open>src/packages/sie_sdk/src/sie_sdk\<close>: how errors are read, the delays, the continuations of a request in flight, and one
  turn of each loop that sends a request (\<open>encode_step\<close>, \<open>score_step\<close>, \<open>extract_step\<close>, \<open>generate_step\<close>,
  \<open>responses_step\<close>, \<open>chat_step\<close>). A run is the list of its turns. What the loops promise is the locale \<open>retry_loop\<close>,
  interpreted on each kind: they end, keep the deadline up to one attempt and count their retries; a generation is
  sent again only after a failure to connect or an answer that reports a rejection before it was published, and refusals are final.

  \<^bold>\<open>Loops and bounds\<close>. Loops are structural recursion or \<open>function\<close> with a measure; no result depends
  on fuel. A loop of the client is bounded by its budget and the time a turn takes. Where the code bounds a loop the bound is the code's constant: references in a schema
  (\<open>max_schema_depth\<close>), parameters of a call (\<open>max_xml_params\<close>), splits of a group. The hypotheses on
  lengths in the stream theorems are the buffer limits of the code. Witnesses evaluate the
  definitions on concrete inputs.

  \<^bold>\<open>Not modelled\<close>. The modules \<^verbatim>\<open>json\<close>, \<^verbatim>\<open>ast\<close> and \<^verbatim>\<open>uuid\<close> are functions of the record \<open>py_lib\<close>,
  base64 decoding and \<^verbatim>\<open>repr\<close> of the record \<open>codec\<close>, the reading of URLs of \<open>url_lib\<close>, that of HTTP dates an argument, and
  neither the depth limit of Python's recursion nor the encoding of text is modelled. The regular
  expression engine and the JSON Schema validator are arguments. Telemetry and logging are left out,
  as is the closing of iterators, which does not change what was emitted. Model loading and the
  registry, the IPC and HTTP front ends, the adapters that drive engines and devices, the rest of the
  client library (streams, pools, jobs; the asynchronous client has its own loops) and the Rust and TypeScript packages are input and output, generated code or glue around
  libraries, and are outside this development.
\<close>

end
